(* ===== verification/Prelude.thy ===== *)
theory Prelude
  imports Main "HOL-Library.AList"
begin

text \<open>
  Shared vocabulary of the development: Go's \<^verbatim>\<open>int64\<close> arithmetic, Go maps as
  association lists, instants of time, and the generic lemmas on them that every
  component uses. Nothing here is about brmcp itself.

  A Go \<^verbatim>\<open>map\<close> that the code ranges over is an association list whose keys are
  distinct (so the model can iterate it); \<open>map_of\<close>, \<open>AList.update\<close> and
  \<open>AList.delete\<close> are the index, assignment and \<^verbatim>\<open>delete\<close> of Go. The order of the list
  stands for one of the iteration orders Go may choose; the lemmas about a ranging
  operation describe its result by lookups and sums only.
\<close>

named_theorems go_defs "definitions of Go primitives that unfold in every component proof"
named_theorems inv_intros "every operation of a component keeps its invariant"

section \<open>Machine integers\<close>

text \<open>Go's \<^verbatim>\<open>int64\<close> (and \<^verbatim>\<open>int\<close> on a 64-bit platform): an \<open>int\<close> kept in range, every
  arithmetic operation written with its wrap-around.\<close>

type_synonym int64 = int

definition min64 :: int where "min64 = - (2 ^ 63)"
definition max64 :: int where "max64 = 2 ^ 63 - 1"

definition in64 :: "int \<Rightarrow> bool" where
  "in64 x \<longleftrightarrow> min64 \<le> x \<and> x \<le> max64"

definition wrap64 :: "int \<Rightarrow> int64" where
  "wrap64 x = (x + 2 ^ 63) mod 2 ^ 64 - 2 ^ 63"

definition add64 :: "int64 \<Rightarrow> int64 \<Rightarrow> int64" where
  "add64 a b = wrap64 (a + b)"

definition sub64 :: "int64 \<Rightarrow> int64 \<Rightarrow> int64" where
  "sub64 a b = wrap64 (a - b)"

definition mul64 :: "int64 \<Rightarrow> int64 \<Rightarrow> int64" where
  "mul64 a b = wrap64 (a * b)"

text \<open>Go's division truncates towards zero.\<close>

definition quot64 :: "int64 \<Rightarrow> int64 \<Rightarrow> int64" where
  "quot64 a b = wrap64 (sgn a * sgn b * (\<bar>a\<bar> div \<bar>b\<bar>))"

definition rem64 :: "int64 \<Rightarrow> int64 \<Rightarrow> int64" where
  "rem64 a b = sgn a * (\<bar>a\<bar> mod \<bar>b\<bar>)"

lemmas range64 = in64_def min64_def max64_def

lemma wrap64_id [simp]: "in64 x \<Longrightarrow> wrap64 x = x"
  by (simp add: wrap64_def range64)

lemma in64_wrap64 [simp]: "in64 (wrap64 x)"
proof -
  have "0 \<le> (x + 2 ^ 63) mod 2 ^ 64" and "(x + 2 ^ 63) mod 2 ^ 64 < (2::int) ^ 64"
    by simp_all
  then show ?thesis unfolding wrap64_def range64 by simp
qed

lemma in64_arith [simp]: "in64 (add64 a b)" "in64 (sub64 a b)" "in64 (mul64 a b)"
  by (simp_all add: add64_def sub64_def mul64_def)

lemma add64_exact: "in64 (a + b) \<Longrightarrow> add64 a b = a + b"
  and sub64_exact: "in64 (a - b) \<Longrightarrow> sub64 a b = a - b"
  by (simp_all add: add64_def sub64_def)

lemma in64_0 [simp]: "in64 0" and in64_1 [simp]: "in64 1"
  by (simp_all add: range64)

lemma in64_between: "in64 a \<Longrightarrow> in64 b \<Longrightarrow> a \<le> x \<Longrightarrow> x \<le> b \<Longrightarrow> in64 x"
  by (simp add: in64_def)

lemma sub64_nonneg: "0 \<le> a \<Longrightarrow> a \<le> max64 \<Longrightarrow> 0 \<le> b \<Longrightarrow> b \<le> max64 \<Longrightarrow> sub64 a b = a - b"
  by (rule sub64_exact) (simp add: range64)

lemma wrap64_diff_add: "wrap64 (wrap64 (a - b) + b) = wrap64 a"
proof -
  have "(((a - b + 2 ^ 63) mod 2 ^ 64 - 2 ^ 63) + b + 2 ^ 63) mod 2 ^ 64
      = ((a - b + 2 ^ 63) mod 2 ^ 64 + b) mod (2::int) ^ 64"
    by (simp add: algebra_simps)
  also have "\<dots> = (a - b + 2 ^ 63 + b) mod 2 ^ 64"
    by (rule mod_add_left_eq)
  finally show ?thesis by (simp add: wrap64_def)
qed

text \<open>A refund of exactly what was taken restores the amount, whatever wrapped.\<close>

text \<open>A running \<^verbatim>\<open>int64\<close> total is the exact sum, wrapped; it is the exact sum when that is an \<^verbatim>\<open>int64\<close>.\<close>

lemma foldl_add64_in64: "in64 acc \<Longrightarrow> in64 (foldl add64 acc xs)"
  by (induction xs arbitrary: acc) simp_all

lemma foldl_add64: "wrap64 (foldl add64 acc xs) = wrap64 (acc + sum_list xs)"
proof (induction xs arbitrary: acc)
  case (Cons x xs)
  have "wrap64 (wrap64 (acc + x) + b) = wrap64 (acc + x + b)" for b
    unfolding wrap64_def by (simp add: mod_simps algebra_simps)
  then have "wrap64 (add64 acc x + sum_list xs) = wrap64 (acc + sum_list (x # xs))" by (simp add: add64_def add.assoc)
  then show ?case using Cons.IH [of "add64 acc x"] by simp
qed simp

lemma foldl_add64_exact: "in64 (sum_list xs) \<Longrightarrow> foldl add64 0 xs = sum_list xs"
  using foldl_add64 [of 0 xs] foldl_add64_in64 [of 0 xs] by (simp add: range64)

lemma sub64_add64_cancel: "in64 a \<Longrightarrow> add64 (sub64 a b) b = a"
  by (simp add: add64_def sub64_def wrap64_diff_add)

text \<open>Dividing a multiple and multiplying again loses nothing.\<close>

lemma quot64_mul64:
  assumes "in64 m" "rem64 m b = 0" "0 < b"
  shows "mul64 (quot64 m b) b = m"
proof (cases "m = 0")
  case True
  then show ?thesis by (simp add: mul64_def quot64_def)
next
  case False
  then have "\<bar>m\<bar> mod b = 0" using assms(2,3) by (simp add: rem64_def sgn_eq_0_iff)
  then have "\<bar>m\<bar> div b * b = \<bar>m\<bar>" using div_mult_mod_eq [of "\<bar>m\<bar>" b] by linarith
  then have m: "m = sgn m * (\<bar>m\<bar> div b) * b"
    using sgn_mult_abs [of m] by (simp only: mult.assoc)
  have "\<bar>m\<bar> div b \<le> \<bar>m\<bar>" using assms(3) zdiv_mono2 [of "\<bar>m\<bar>" 1 b] by simp
  moreover have "0 \<le> \<bar>m\<bar> div b" using assms(3) by (simp add: pos_imp_zdiv_nonneg_iff)
  ultimately have "in64 (sgn m * (\<bar>m\<bar> div b))"
    using assms(1) by (cases "0 < m") (auto simp: range64 sgn_if)
  then show ?thesis using m assms(1,3) by (simp add: mul64_def quot64_def)
qed

section \<open>Go maps as association lists\<close>

type_synonym ('k, 'v) gomap = "('k \<times> 'v) list"

abbreviation gput :: "'k \<Rightarrow> 'v \<Rightarrow> ('k, 'v) gomap \<Rightarrow> ('k, 'v) gomap" where
  "gput \<equiv> AList.update"

abbreviation gdel :: "'k \<Rightarrow> ('k, 'v) gomap \<Rightarrow> ('k, 'v) gomap" where
  "gdel \<equiv> AList.delete"

definition gmap_ok :: "('k, 'v) gomap \<Rightarrow> bool" where
  "gmap_ok m \<longleftrightarrow> distinct (map fst m)"

text \<open>Indexing a map of numbers yields the zero value for an absent key.\<close>

definition gint :: "('k, int) gomap \<Rightarrow> 'k \<Rightarrow> int" where
  "gint m k = (case map_of m k of None \<Rightarrow> 0 | Some n \<Rightarrow> n)"

text \<open>Indexing a map used as a set.\<close>

definition gbool :: "('k, bool) gomap \<Rightarrow> 'k \<Rightarrow> bool" where
  "gbool m k = (map_of m k = Some True)"

lemma map_of_gput [simp]: "map_of (gput k v m) = (map_of m)(k \<mapsto> v)"
  by (simp add: update_conv')

lemma map_of_gdel [simp]: "map_of (gdel k m) = (map_of m)(k := None)"
  by (simp add: delete_conv')

lemma gmap_ok_Nil [simp, intro]: "gmap_ok []"
  by (simp add: gmap_ok_def)

lemma gmap_ok_gput [simp, intro]: "gmap_ok m \<Longrightarrow> gmap_ok (gput k v m)"
  by (simp add: gmap_ok_def distinct_update)

lemma gmap_ok_gdel [simp, intro]: "gmap_ok m \<Longrightarrow> gmap_ok (gdel k m)"
  by (simp add: gmap_ok_def distinct_delete)

lemma gmap_ok_filter [simp, intro]: "gmap_ok m \<Longrightarrow> gmap_ok (filter P m)"
  by (simp add: gmap_ok_def distinct_map_filter)

lemma gmap_ok_Cons: "gmap_ok ((k, v) # m) \<longleftrightarrow> map_of m k = None \<and> gmap_ok m"
  by (simp add: gmap_ok_def map_of_eq_None_iff)

lemma gmap_ok_mem: "gmap_ok m \<Longrightarrow> (k, v) \<in> set m \<longleftrightarrow> map_of m k = Some v"
  by (simp add: gmap_ok_def map_of_eq_Some_iff)

lemma gint_gput [simp]: "gint (gput k n m) j = (if j = k then n else gint m j)"
  by (simp add: gint_def)

lemma gint_gdel [simp]: "gint (gdel k m) j = (if j = k then 0 else gint m j)"
  by (simp add: gint_def)

lemma gint_Nil [simp]: "gint [] k = 0"
  by (simp add: gint_def)

lemma gbool_simps [simp]:
  "gbool [] k = False"
  "gbool (gput k b m) j = (if j = k then b else gbool m j)"
  "gbool (gdel k m) j = (j \<noteq> k \<and> gbool m j)"
  by (auto simp: gbool_def)

text \<open>Deleting in place is the same as filtering, for distinct keys.\<close>

lemma gdel_filter: "gdel k m = filter (\<lambda>(k', _). k' \<noteq> k) m"
  by (simp add: AList.delete_eq case_prod_unfold eq_commute)

lemma set_gput: "set (gput k v m) \<subseteq> insert (k, v) (set m)"
  by (induction m) auto

lemma set_gput_ok: "gmap_ok m \<Longrightarrow> set (gput k v m) = insert (k, v) (set (gdel k m))"
  by (induction m) (force simp: gmap_ok_Cons map_of_eq_None_iff gdel_filter)+

lemma set_gdel: "set (gdel k m) = {(k', v) \<in> set m. k' \<noteq> k}"
  by (auto simp: gdel_filter)

lemma length_gdel_le: "length (gdel k m) \<le> length m"
  by (simp add: gdel_filter)

section \<open>Sums over the entries of a map\<close>

text \<open>\<open>gsum f m\<close> adds a quantity over all the entries; \<open>gval f m k\<close> is the contribution of
  one key. Assigning and deleting a key change the sum by exactly that contribution.\<close>

definition gsum :: "('v \<Rightarrow> int) \<Rightarrow> ('k, 'v) gomap \<Rightarrow> int" where
  "gsum f m = (\<Sum>kv \<leftarrow> m. f (snd kv))"

definition gval :: "('v \<Rightarrow> int) \<Rightarrow> ('k, 'v) gomap \<Rightarrow> 'k \<Rightarrow> int" where
  "gval f m k = (case map_of m k of None \<Rightarrow> 0 | Some v \<Rightarrow> f v)"

lemma gsum_simps [simp]:
  "gsum f [] = 0" "gsum f ((k, v) # m) = f v + gsum f m"
  by (simp_all add: gsum_def)

lemma gval_simps [simp]:
  "map_of m k = None \<Longrightarrow> gval f m k = 0" "map_of m k = Some v \<Longrightarrow> gval f m k = f v"
  by (simp_all add: gval_def)

lemma gsum_gput: "gmap_ok m \<Longrightarrow> gsum f (gput k v m) = gsum f m - gval f m k + f v"
  by (induction m) (auto simp: gmap_ok_Cons gval_def split: option.splits)

lemma gdel_absent: "map_of m k = None \<Longrightarrow> gdel k m = m"
  by (simp add: map_of_eq_None_iff)

lemma gsum_gdel: "gmap_ok m \<Longrightarrow> gsum f (gdel k m) = gsum f m - gval f m k"
  by (induction m) (auto simp: gmap_ok_Cons gval_def gdel_absent split: option.splits)

lemma gsum_nonneg: "\<forall>kv \<in> set m. 0 \<le> f (snd kv) \<Longrightarrow> 0 \<le> gsum f m"
  by (induction m) auto

lemma gsum_member_le:
  "map_of m k = Some v \<Longrightarrow> \<forall>kv \<in> set m. 0 \<le> f (snd kv) \<Longrightarrow> f v \<le> gsum f m"
proof (induction m)
  case Nil
  then show ?case by simp
next
  case (Cons kv m)
  obtain k' v' where kv: "kv = (k', v')" by (cases kv)
  have "0 \<le> gsum f m" by (rule gsum_nonneg) (use Cons.prems(2) in auto)
  then show ?case using Cons by (auto simp: kv split: if_splits)
qed

lemma gsum_filter_le:
  "\<forall>kv \<in> set m. 0 \<le> f (snd kv) \<Longrightarrow> gsum f (filter P m) \<le> gsum f m"
  by (induction m) auto

lemma gsum_filter_split:
  "gsum f m = gsum f (filter P m) + gsum f (filter (\<lambda>kv. \<not> P kv) m)"
  by (induction m) auto

text \<open>Over any finite set of keys that holds them all, the sum is the sum of the contributions.\<close>

lemma gsum_keys:
  "gmap_ok m \<Longrightarrow> finite K \<Longrightarrow> fst ` set m \<subseteq> K \<Longrightarrow> gsum f m = (\<Sum>k \<in> K. gval f m k)"
proof (induction m)
  case Nil
  then show ?case by simp
next
  case (Cons kv m)
  obtain k v where kv: "kv = (k, v)" by (cases kv)
  have k: "k \<in> K" "map_of m k = None" using Cons.prems by (simp_all add: kv gmap_ok_Cons)
  have "(\<Sum>j \<in> K - {k}. gval f (kv # m) j) = (\<Sum>j \<in> K - {k}. gval f m j)"
    by (rule sum.cong) (auto simp: gval_def kv)
  then have "(\<Sum>j \<in> K. gval f (kv # m) j) = f v + (\<Sum>j \<in> K. gval f m j)"
    using k Cons.prems(2)
      sum.remove [of K k "gval f (kv # m)"] sum.remove [of K k "gval f m"]
    by (simp add: kv gval_def)
  then show ?case using Cons by (simp add: kv gmap_ok_Cons)
qed

lemma gsum_count: "gsum (\<lambda>_. 1) m = int (length m)"
  by (induction m) auto

lemma filter_gdel: "filter P (gdel k m) = gdel k (filter P m)"
  by (simp add: gdel_filter conj_commute)

lemma map_of_filter:
  "gmap_ok m \<Longrightarrow> map_of (filter P m) k =
    (case map_of m k of None \<Rightarrow> None | Some v \<Rightarrow> if P (k, v) then Some v else None)"
proof (induction m)
  case Nil
  then show ?case by simp
next
  case (Cons kv m)
  obtain j v where kv: "kv = (j, v)" by (cases kv)
  then have "map_of (filter P m) j = None" using Cons.prems by (auto simp: gmap_ok_Cons map_of_eq_None_iff)
  then show ?case using Cons by (auto simp: kv gmap_ok_Cons)
qed

lemma map_of_map_snd: "map_of (map (\<lambda>kv. (fst kv, f (snd kv))) m) k = map_option f (map_of m k)"
  by (induction m) auto

section \<open>Time\<close>

text \<open>A Go \<^verbatim>\<open>time.Time\<close> is an instant in nanoseconds since the Unix epoch, a \<^verbatim>\<open>time.Duration\<close> a
  number of nanoseconds in \<open>int64\<close>. \<^verbatim>\<open>Unix()\<close> is the second that holds the instant, \<^verbatim>\<open>Sub\<close>
  saturates.\<close>

type_synonym instant = int
type_synonym duration = int64

definition second :: duration where "second = 1000000000"
definition minute :: duration where "minute = 60 * second"
definition hour :: duration where "hour = 60 * minute"

definition unix :: "instant \<Rightarrow> int" where
  "unix t = t div 1000000000"

definition time_sub :: "instant \<Rightarrow> instant \<Rightarrow> duration" where
  "time_sub a b = max min64 (min max64 (a - b))"

lemmas durations = second_def minute_def hour_def

lemma unix_mono: "s \<le> t \<Longrightarrow> unix s \<le> unix t"
  by (simp add: unix_def zdiv_mono1)

lemma time_sub_self [simp]: "time_sub t t = 0"
  by (simp add: time_sub_def min64_def max64_def)

lemma time_sub_le: "0 \<le> d \<Longrightarrow> d \<le> max64 \<Longrightarrow> time_sub a b > d \<longleftrightarrow> d < max64 \<and> a - b > d"
  by (auto simp: time_sub_def min64_def max64_def)

end
