(* ===== verification/Payment.thy ===== *)
theory Payment
  imports Prelude
begin

text \<open>
  The payment protocol of \<^verbatim>\<open>payment.go\<close>: the meta keys of tools and calls, the refusal
  \<^verbatim>\<open>PaymentRequired\<close> and \<^verbatim>\<open>ParsePaymentRequired\<close>. The tool result and its content come from the MCP SDK;
  what the code reads of them is a flag and, per content block, its text if it is a text block.
  The JSON codec of \<^verbatim>\<open>PaymentRequired\<close> is a parameter.
\<close>

definition PriceMetaKey :: string where "PriceMetaKey = ''brmcp/priceAtoms''"
definition PricingMetaKey :: string where "PricingMetaKey = ''brmcp/pricing''"
definition CallKeyMetaKey :: string where "CallKeyMetaKey = ''brmcp/callKey''"

datatype content = TextContent string | OtherContent

record CallToolResult =
  cr_isError :: bool
  cr_content :: "content list"

record PaymentRequired =
  pr_error :: string
  pr_tool :: string
  pr_price :: int64
  pr_balance :: int64
  pr_shortfall :: int64
  pr_rails :: "string list"

fun first_refusal :: "(string \<Rightarrow> PaymentRequired option) \<Rightarrow> content list \<Rightarrow> PaymentRequired option" where
  "first_refusal unmarshal [] = None"
| "first_refusal unmarshal (OtherContent # cs) = first_refusal unmarshal cs"
| "first_refusal unmarshal (TextContent t # cs) = (case unmarshal t of
     Some pr \<Rightarrow> if pr_error pr = ''payment_required'' then Some pr else first_refusal unmarshal cs
   | None \<Rightarrow> first_refusal unmarshal cs)"

definition ParsePaymentRequired :: "(string \<Rightarrow> PaymentRequired option) \<Rightarrow> CallToolResult option \<Rightarrow> PaymentRequired option" where
  "ParsePaymentRequired unmarshal res = (case res of
     None \<Rightarrow> None
   | Some r \<Rightarrow> if \<not> cr_isError r then None else first_refusal unmarshal (cr_content r))"

lemma ParsePaymentRequired_sound:
  "ParsePaymentRequired U res = Some pr \<Longrightarrow> pr_error pr = ''payment_required'' \<and>
    (\<exists>r t. res = Some r \<and> cr_isError r \<and> TextContent t \<in> set (cr_content r) \<and> U t = Some pr)"
proof -
  have "first_refusal U cs = Some pr \<Longrightarrow> pr_error pr = ''payment_required'' \<and>
      (\<exists>t. TextContent t \<in> set cs \<and> U t = Some pr)" for cs
    by (induction U cs rule: first_refusal.induct) (auto split: option.splits if_splits)
  then show "ParsePaymentRequired U res = Some pr \<Longrightarrow> ?thesis"
    by (auto simp: ParsePaymentRequired_def split: option.splits if_splits)
qed

end
