(* ===== verification/Persist.thy ===== *)
theory Persist
  imports Prelude
begin

text \<open>
  The write-to-temporary-then-rename idiom that every store of the repository repeats
  (\<^verbatim>\<open>persistLocked\<close> in \<^verbatim>\<open>server/ledger.go\<close>, \<^verbatim>\<open>server/journal.go\<close>, \<^verbatim>\<open>bridge/payment.go\<close> and
  others): marshal, \<^verbatim>\<open>MkdirAll\<close>, \<^verbatim>\<open>WriteFile\<close> of \<^verbatim>\<open>path.tmp\<close>, \<^verbatim>\<open>Rename\<close>. Only the rename touches the
  file under its own name, and nothing ever reads the temporary file, so a store is the state of
  the named file and the script of what the operating system will answer: each attempt to persist
  consumes one outcome, and an exhausted script means that every further attempt succeeds.

  The JSON codec is not modelled: a file holds a value of the marshalled type. A file that is
  not one (edited, truncated by something else) is \<open>Corrupt\<close>, one that cannot be read \<open>Unreadable\<close>.
\<close>

datatype io_error = MarshalFailed | MkdirFailed | WriteFailed | RenameFailed

datatype open_error = ReadFailed | CorruptFile

datatype 'a disk_file = Absent | Unreadable | Corrupt | Holds 'a

record 'a store =
  st_file :: "'a disk_file"
  st_script :: "io_error option list"

definition persist :: "'a \<Rightarrow> 'a store \<Rightarrow> io_error option \<times> 'a store" where
  "persist x s = (case st_script s of
     [] \<Rightarrow> (None, s\<lparr>st_file := Holds x\<rparr>)
   | None # os \<Rightarrow> (None, s\<lparr>st_file := Holds x, st_script := os\<rparr>)
   | Some e # os \<Rightarrow> (Some e, s\<lparr>st_script := os\<rparr>))"

text \<open>The \<^verbatim>\<open>Open*\<close> functions: a missing file is the empty value.\<close>

definition open_file :: "'a \<Rightarrow> 'a store \<Rightarrow> open_error + 'a" where
  "open_file dflt s = (case st_file s of
     Absent \<Rightarrow> Inr dflt
   | Unreadable \<Rightarrow> Inl ReadFailed
   | Corrupt \<Rightarrow> Inl CorruptFile
   | Holds x \<Rightarrow> Inr x)"

text \<open>A disk on which nothing fails any more.\<close>

definition reliable :: "'a store \<Rightarrow> bool" where
  "reliable s \<longleftrightarrow> (\<forall>r \<in> set (st_script s). r = None)"

text \<open>The bridge instead calls \<^verbatim>\<open>os.WriteFile\<close> on the file itself, which truncates it first: a
  failed call may have left the file alone (it could not be opened) or torn it.\<close>

datatype write_outcome = Written | NotOpened | Torn

record 'a plain_file =
  pf_file :: "'a disk_file"
  pf_script :: "write_outcome list"

definition write_file :: "'a \<Rightarrow> 'a plain_file \<Rightarrow> bool \<times> 'a plain_file" where
  "write_file x s = (case pf_script s of
     [] \<Rightarrow> (True, s\<lparr>pf_file := Holds x\<rparr>)
   | r # rs \<Rightarrow> (r = Written, s\<lparr>pf_file := (case r of Written \<Rightarrow> Holds x | NotOpened \<Rightarrow> pf_file s | Torn \<Rightarrow> Corrupt),
       pf_script := rs\<rparr>))"

definition read_file :: "'a \<Rightarrow> 'a disk_file \<Rightarrow> open_error + 'a" where
  "read_file dflt f = open_file dflt \<lparr>st_file = f, st_script = []\<rparr>"

section \<open>Laws\<close>

lemma write_file_ok: "fst (write_file x s) \<Longrightarrow> pf_file (snd (write_file x s)) = Holds x"
  by (auto simp: write_file_def split: list.splits)

lemma read_file_simps [simp]:
  "read_file d Absent = Inr d" "read_file d Unreadable = Inl ReadFailed"
  "read_file d Corrupt = Inl CorruptFile" "read_file d (Holds x) = Inr x"
  by (simp_all add: read_file_def open_file_def)

text \<open>Persisting is atomic: the file is the new value when nil is returned, untouched otherwise.\<close>

lemma persist_atomic:
  "st_file (snd (persist x s)) = (if fst (persist x s) = None then Holds x else st_file s)"
  by (auto simp: persist_def split: list.splits option.splits)

lemma persist_ok [simp]:
  "fst (persist x s) = None \<Longrightarrow> open_file e (snd (persist x s)) = Inr x"
  by (simp add: open_file_def persist_atomic)

lemma reliable_persist [simp]:
  "reliable s \<Longrightarrow> fst (persist x s) = None"
  "reliable s \<Longrightarrow> reliable (snd (persist x s))"
  "reliable s \<Longrightarrow> st_file (snd (persist x s)) = Holds x"
  by (auto simp: persist_def reliable_def split: list.splits option.splits)

lemma reliable_Nil [simp]: "reliable \<lparr>st_file = f, st_script = []\<rparr>"
  by (simp add: reliable_def)

end
