(* ===== verification/Ledger.thy ===== *)
theory Ledger
  imports Persist
begin

text \<open>
  The payment ledger of \<^verbatim>\<open>server/ledger.go\<close> and the \<^verbatim>\<open>Billing\<close> interface of \<^verbatim>\<open>server/harness.go\<close>
  that it implements. The interface is the locale \<open>billing\<close>; the ledger interprets it on a disk
  that does not fail. What a failing disk does (the mutation stays in memory, the old balances
  stay on disk, the caller sees the error) is proved on the ledger itself.
\<close>

section \<open>The billing interface\<close>

datatype billing_error = ErrInsufficient | BillingIO io_error

text \<open>\<^verbatim>\<open>Billing\<close>: what the harness calls to read, debit and credit a caller's balance.\<close>

record 'b Billing =
  bl_balance :: "'b \<Rightarrow> string \<Rightarrow> int64"
  bl_debit :: "'b \<Rightarrow> string \<Rightarrow> int64 \<Rightarrow> billing_error option \<times> 'b"
  bl_credit :: "'b \<Rightarrow> string \<Rightarrow> int64 \<Rightarrow> billing_error option \<times> 'b"

text \<open>What a store promises its client: balances are amounts, a covered debit and a credit that
  fits move exactly the amount of exactly that caller, and a refused debit changes nothing.\<close>

locale billing =
  fixes B :: "'b Billing" and inv :: "'b \<Rightarrow> bool"
  assumes balance_range: "inv s \<Longrightarrow> 0 \<le> bl_balance B s u \<and> bl_balance B s u \<le> max64"
    and debit_covered: "inv s \<Longrightarrow> 0 < n \<Longrightarrow> n \<le> bl_balance B s u \<Longrightarrow>
      fst (bl_debit B s u n) = None \<and> inv (snd (bl_debit B s u n)) \<and>
      bl_balance B (snd (bl_debit B s u n)) = (bl_balance B s)(u := bl_balance B s u - n)"
    and debit_short: "inv s \<Longrightarrow> 0 < n \<Longrightarrow> bl_balance B s u < n \<Longrightarrow> bl_debit B s u n = (Some ErrInsufficient, s)"
    and credit_fits: "inv s \<Longrightarrow> 0 < n \<Longrightarrow> bl_balance B s u + n \<le> max64 \<Longrightarrow>
      fst (bl_credit B s u n) = None \<and> inv (snd (bl_credit B s u n)) \<and>
      bl_balance B (snd (bl_credit B s u n)) = (bl_balance B s)(u := bl_balance B s u + n)"
    and credit_nothing: "inv s \<Longrightarrow> n \<le> 0 \<Longrightarrow> bl_credit B s u n = (None, s)"
begin

lemma debit_iff:
  "inv s \<Longrightarrow> 0 < n \<Longrightarrow> fst (bl_debit B s u n) = None \<longleftrightarrow> n \<le> bl_balance B s u"
  using debit_covered [of s n u] debit_short [of s n u] by (cases "n \<le> bl_balance B s u") auto

lemma debit_inv: "inv s \<Longrightarrow> 0 < n \<Longrightarrow> inv (snd (bl_debit B s u n))"
  using debit_covered debit_short by (cases "n \<le> bl_balance B s u") auto

text \<open>A debit that went through is undone by crediting the same amount.\<close>

lemma refund_exact:
  assumes "inv s" "0 < n" "fst (bl_debit B s u n) = None"
  shows "bl_balance B (snd (bl_credit B (snd (bl_debit B s u n)) u n)) = bl_balance B s"
proof -
  have n: "n \<le> bl_balance B s u" using debit_iff assms by simp
  note d = debit_covered [OF assms(1,2) n]
  show ?thesis using credit_fits [of "snd (bl_debit B s u n)" n u] d assms(2) balance_range [OF assms(1), of u]
    by simp
qed

text \<open>A tip of at least the shortfall makes the refused debit go through.\<close>

lemma topped_up:
  assumes "inv s" "0 < n" "bl_balance B s u < n" "n - bl_balance B s u \<le> t" "bl_balance B s u + t \<le> max64"
  shows "fst (bl_debit B (snd (bl_credit B s u t)) u n) = None"
proof -
  have "0 < t" using assms by simp
  note c = credit_fits [OF assms(1) this assms(5)]
  have "n \<le> bl_balance B (snd (bl_credit B s u t)) u" using c assms(4) by simp
  then show ?thesis using debit_covered c assms(2) by blast
qed

end

section \<open>The ledger\<close>

record ledger =
  ld_balances :: "(string, int64) gomap"
  ld_store :: "(string, int64) gomap store"

definition OpenLedger :: "(string, int64) gomap store \<Rightarrow> open_error + ledger" where
  "OpenLedger s = (case open_file [] s of
     Inl e \<Rightarrow> Inl e
   | Inr bs \<Rightarrow> Inr \<lparr>ld_balances = bs, ld_store = s\<rparr>)"

definition ld_persistLocked :: "ledger \<Rightarrow> billing_error option \<times> ledger" where
  "ld_persistLocked l =
     (let (e, s) = persist (ld_balances l) (ld_store l) in (map_option BillingIO e, l\<lparr>ld_store := s\<rparr>))"

definition Balance :: "ledger \<Rightarrow> string \<Rightarrow> int64" where
  "Balance l uid = gint (ld_balances l) uid"

definition Credit :: "ledger \<Rightarrow> string \<Rightarrow> int64 \<Rightarrow> billing_error option \<times> ledger" where
  "Credit l uid atoms =
     (if atoms \<le> 0 then (None, l)
      else ld_persistLocked (l\<lparr>ld_balances := gput uid (add64 (gint (ld_balances l) uid) atoms) (ld_balances l)\<rparr>))"

definition Debit :: "ledger \<Rightarrow> string \<Rightarrow> int64 \<Rightarrow> billing_error option \<times> ledger" where
  "Debit l uid atoms =
     (if atoms \<le> 0 then (None, l)
      else if gint (ld_balances l) uid < atoms then (Some ErrInsufficient, l)
      else ld_persistLocked (l\<lparr>ld_balances := gput uid (sub64 (gint (ld_balances l) uid) atoms) (ld_balances l)\<rparr>))"

definition ledger_billing :: "ledger Billing" where
  "ledger_billing = \<lparr>bl_balance = Balance, bl_debit = Debit, bl_credit = Credit\<rparr>"

section \<open>Invariant\<close>

definition ledger_ok :: "ledger \<Rightarrow> bool" where
  "ledger_ok l \<longleftrightarrow> (\<forall>u. 0 \<le> Balance l u \<and> Balance l u \<le> max64)"

text \<open>A ledger whose disk does not fail.\<close>

definition ledger_sound :: "ledger \<Rightarrow> bool" where
  "ledger_sound l \<longleftrightarrow> ledger_ok l \<and> reliable (ld_store l)"

lemma ld_persist_simps [simp]:
  "ld_balances (snd (ld_persistLocked l)) = ld_balances l"
  "fst (ld_persistLocked l) = map_option BillingIO (fst (persist (ld_balances l) (ld_store l)))"
  "ld_store (snd (ld_persistLocked l)) = snd (persist (ld_balances l) (ld_store l))"
  by (simp_all add: ld_persistLocked_def split_beta)

lemma Balance_Credit:
  "Balance (snd (Credit l uid atoms)) u =
    (if 0 < atoms \<and> u = uid then add64 (Balance l uid) atoms else Balance l u)"
  by (simp add: Credit_def Balance_def)

lemma Balance_Debit:
  "Balance (snd (Debit l uid atoms)) u =
    (if 0 < atoms \<and> atoms \<le> Balance l uid \<and> u = uid then sub64 (Balance l uid) atoms else Balance l u)"
  by (simp add: Debit_def Balance_def)

lemma Credit_exact: "ledger_ok l \<Longrightarrow> 0 < n \<Longrightarrow> Balance l u + n \<le> max64 \<Longrightarrow> add64 (Balance l u) n = Balance l u + n"
  by (rule add64_exact) (auto simp: ledger_ok_def range64 dest!: spec [where x = u])

lemma Debit_exact: "ledger_ok l \<Longrightarrow> 0 < n \<Longrightarrow> n \<le> Balance l u \<Longrightarrow> sub64 (Balance l u) n = Balance l u - n"
  by (rule sub64_exact) (auto simp: ledger_ok_def range64 dest!: spec [where x = u])

lemma ledger_ok_Credit [inv_intros]:
  "ledger_ok l \<Longrightarrow> Balance l u + n \<le> max64 \<Longrightarrow> ledger_ok (snd (Credit l u n))"
  by (auto simp: ledger_ok_def Balance_Credit Credit_exact [unfolded ledger_ok_def])

lemma ledger_ok_Debit [inv_intros]: "ledger_ok l \<Longrightarrow> ledger_ok (snd (Debit l u n))"
  by (auto simp: ledger_ok_def Balance_Debit Debit_exact [unfolded ledger_ok_def] dest!: spec [where x = u])

lemma ledger_ok_open: "OpenLedger s = Inr l \<Longrightarrow> st_file s = Absent \<Longrightarrow> ledger_ok l"
  by (auto simp: OpenLedger_def open_file_def ledger_ok_def Balance_def max64_def)

lemma reliable_Credit [simp]: "reliable (ld_store l) \<Longrightarrow> reliable (ld_store (snd (Credit l u n)))"
  and reliable_Debit [simp]: "reliable (ld_store l) \<Longrightarrow> reliable (ld_store (snd (Debit l u n)))"
  by (simp_all add: Credit_def Debit_def)

lemma reliable_results [simp]:
  "reliable (ld_store l) \<Longrightarrow> fst (Credit l u n) = None"
  "reliable (ld_store l) \<Longrightarrow> 0 < n \<Longrightarrow> fst (Debit l u n) = (if Balance l u < n then Some ErrInsufficient else None)"
  by (simp_all add: Credit_def Debit_def Balance_def)

interpretation ledger: billing ledger_billing ledger_sound
proof unfold_locales
  fix l u and n :: int
  assume l: "ledger_sound l"
  show "0 \<le> bl_balance ledger_billing l u \<and> bl_balance ledger_billing l u \<le> max64"
    using l by (simp add: ledger_billing_def ledger_sound_def ledger_ok_def)
  { assume "0 < n" "n \<le> bl_balance ledger_billing l u"
    then show "fst (bl_debit ledger_billing l u n) = None \<and> ledger_sound (snd (bl_debit ledger_billing l u n)) \<and>
        bl_balance ledger_billing (snd (bl_debit ledger_billing l u n)) =
        (bl_balance ledger_billing l)(u := bl_balance ledger_billing l u - n)"
      using l by (auto simp: ledger_billing_def ledger_sound_def ledger_ok_Debit fun_eq_iff Balance_Debit Debit_exact) }
  { assume "0 < n" "bl_balance ledger_billing l u < n"
    then show "bl_debit ledger_billing l u n = (Some ErrInsufficient, l)"
      by (simp add: ledger_billing_def Debit_def Balance_def) }
  { assume "0 < n" "bl_balance ledger_billing l u + n \<le> max64"
    then show "fst (bl_credit ledger_billing l u n) = None \<and> ledger_sound (snd (bl_credit ledger_billing l u n)) \<and>
        bl_balance ledger_billing (snd (bl_credit ledger_billing l u n)) =
        (bl_balance ledger_billing l)(u := bl_balance ledger_billing l u + n)"
      using l by (auto simp: ledger_billing_def ledger_sound_def ledger_ok_Credit fun_eq_iff Balance_Credit Credit_exact) }
  { assume "n \<le> 0"
    then show "bl_credit ledger_billing l u n = (None, l)"
      by (simp add: ledger_billing_def Credit_def) }
qed

section \<open>Sequences of operations on a disk that may fail\<close>

datatype ledger_op = OpCredit string int64 | OpDebit string int64

fun ledger_step :: "ledger \<Rightarrow> ledger_op \<Rightarrow> billing_error option \<times> ledger" where
  "ledger_step l (OpCredit u n) = Credit l u n"
| "ledger_step l (OpDebit u n) = Debit l u n"

text \<open>The results of the operations in order, and the ledger they leave.\<close>

fun ledger_run :: "ledger \<Rightarrow> ledger_op list \<Rightarrow> (ledger_op \<times> billing_error option) list \<times> ledger" where
  "ledger_run l [] = ([], l)"
| "ledger_run l (x # xs) =
     (let (e, l') = ledger_step l x; (rs, l'') = ledger_run l' xs in ((x, e) # rs, l''))"

text \<open>What an operation is expected to move: a debit refused for lack of funds moves nothing, every other
  outcome (a failed write included) moves the amount in memory.\<close>

fun moved :: "string \<Rightarrow> ledger_op \<times> billing_error option \<Rightarrow> int" where
  "moved u (OpCredit v n, e) = (if u = v then max 0 n else 0)"
| "moved u (OpDebit v n, e) = (if u = v \<and> e \<noteq> Some ErrInsufficient then - max 0 n else 0)"

definition credited :: "string \<Rightarrow> ledger_op list \<Rightarrow> int" where
  "credited u ops = (\<Sum>x \<leftarrow> ops. case x of OpCredit v n \<Rightarrow> if u = v then max 0 n else 0 | _ \<Rightarrow> 0)"

lemma credited_simps [simp]:
  "credited u [] = 0"
  "credited u (OpCredit v n # ops) = (if u = v then max 0 n else 0) + credited u ops"
  "credited u (OpDebit v n # ops) = credited u ops"
  by (simp_all add: credited_def)

lemma credited_nonneg: "0 \<le> credited u ops"
  unfolding credited_def by (rule sum_list_nonneg) (auto split: ledger_op.splits)

lemma persist_never_insufficient [simp]: "fst (ld_persistLocked l) \<noteq> Some ErrInsufficient"
  by (simp split: option.splits)

lemma ledger_step_moved:
  assumes "ledger_ok l" "Balance l u + credited u [x] \<le> max64"
  shows "Balance (snd (ledger_step l x)) u = Balance l u + moved u (x, fst (ledger_step l x))"
proof (cases x)
  case (OpCredit v n)
  then show ?thesis using assms by (auto simp: Balance_Credit Credit_exact max_def)
next
  case (OpDebit v n)
  show ?thesis
  proof (cases "0 < n \<and> n \<le> Balance l v")
    case True
    then have "fst (Debit l v n) \<noteq> Some ErrInsufficient"
      by (auto simp: Debit_def Balance_def simp del: ld_persist_simps)
    then show ?thesis using OpDebit assms(1) True by (simp add: Balance_Debit Debit_exact)
  next
    case False
    then have "n \<le> 0 \<or> fst (Debit l v n) = Some ErrInsufficient" by (auto simp: Debit_def Balance_def)
    then show ?thesis using OpDebit False by (auto simp: Balance_Debit)
  qed
qed

lemma ledger_step_ok:
  assumes "ledger_ok l" "\<And>u. Balance l u + credited u [x] \<le> max64"
  shows "ledger_ok (snd (ledger_step l x))"
proof (cases x)
  case (OpCredit v n)
  then have "Balance l v + n \<le> max64" using assms(2) [of v] by simp
  then show ?thesis using OpCredit assms(1) by (simp add: ledger_ok_Credit)
next
  case (OpDebit v n)
  then show ?thesis using assms(1) by (simp add: ledger_ok_Debit)
qed

lemma credited_Cons: "credited u (x # xs) = credited u [x] + credited u xs"
  by (cases x) simp_all

text \<open>The store holds what a restart would load.\<close>

definition ledger_synced :: "ledger \<Rightarrow> bool" where
  "ledger_synced l \<longleftrightarrow> OpenLedger (ld_store l) = Inr l"

lemma ledger_synced_iff: "ledger_synced l \<longleftrightarrow> open_file [] (ld_store l) = Inr (ld_balances l)"
  by (cases l) (auto simp: ledger_synced_def OpenLedger_def split: sum.splits)

lemma ledger_persist_synced:
  "fst (ld_persistLocked l) = None \<Longrightarrow> ledger_synced (snd (ld_persistLocked l))"
  by (simp add: ledger_synced_iff)

lemma ledger_step_synced:
  "ledger_synced l \<Longrightarrow> fst (ledger_step l x) = None \<Longrightarrow> ledger_synced (snd (ledger_step l x))"
  by (cases x) (auto simp: Credit_def Debit_def intro: ledger_persist_synced split: if_splits)

lemma ledger_step_refused:
  "fst (ledger_step l x) \<noteq> None \<Longrightarrow> st_file (ld_store (snd (ledger_step l x))) = st_file (ld_store l)"
  by (cases x) (auto simp: Credit_def Debit_def persist_atomic split: if_splits)

lemma ledger_step_insufficient:
  "fst (ledger_step l x) = Some ErrInsufficient \<Longrightarrow> snd (ledger_step l x) = l"
  by (cases x) (auto simp: Credit_def Debit_def split: if_splits simp del: ld_persist_simps)

section \<open>Properties\<close>

text \<open>
  C21: The ledger is exact and never overdraws, even when writes to disk fail. After any sequence of
  credits and debits whose credits fit an int64, every caller's balance is the starting balance plus
  the amounts credited to that caller minus the amounts of that caller's debits not refused for lack
  of funds, and it is never negative.
\<close>

theorem ledger_accounts:
  assumes "ledger_ok l" "\<And>u. Balance l u + credited u ops \<le> max64"
  shows "Balance (snd (ledger_run l ops)) u = Balance l u + (\<Sum>r \<leftarrow> fst (ledger_run l ops). moved u r) \<and>
    0 \<le> Balance (snd (ledger_run l ops)) u"
  using assms
proof (induction ops arbitrary: l)
  case Nil
  then show ?case by (simp add: ledger_ok_def)
next
  case (Cons x xs)
  obtain e l' where step: "ledger_step l x = (e, l')" by (cases "ledger_step l x")
  have fits: "Balance l v + credited v [x] \<le> max64" for v
    using Cons.prems(2) [of v] credited_nonneg [of v xs] by (simp add: credited_Cons [of v x xs])
  have bal: "Balance l' v = Balance l v + moved v (x, e)" for v
    using ledger_step_moved [OF Cons.prems(1) fits] by (simp add: step)
  have most: "moved v (x, e) \<le> credited v [x]" for v by (cases x) auto
  then have "Balance l' v + credited v xs \<le> max64" for v
    using Cons.prems(2) [of v] most [of v] bal [of v] credited_Cons [of v x xs] by linarith
  moreover have "ledger_ok l'" using ledger_step_ok [OF Cons.prems(1) fits] by (simp add: step)
  ultimately have "Balance (snd (ledger_run l' xs)) u = Balance l' u + (\<Sum>r \<leftarrow> fst (ledger_run l' xs). moved u r) \<and>
      0 \<le> Balance (snd (ledger_run l' xs)) u" using Cons.IH by blast
  then show ?case by (simp add: step bal split_beta)
qed

definition demo_ledger :: ledger where
  "demo_ledger = \<lparr>ld_balances = [(''alice'', 50)], ld_store = \<lparr>st_file = Absent, st_script = [Some WriteFailed]\<rparr>\<rparr>"

theorem ledger_accounts_witness:
  "Balance (snd (ledger_run demo_ledger [OpDebit ''alice'' 20, OpDebit ''alice'' 40, OpCredit ''bob'' 7])) ''alice'' =
    Balance demo_ledger ''alice'' + (\<Sum>r \<leftarrow> fst (ledger_run demo_ledger
      [OpDebit ''alice'' 20, OpDebit ''alice'' 40, OpCredit ''bob'' 7]). moved ''alice'' r) \<and>
    0 \<le> Balance (snd (ledger_run demo_ledger [OpDebit ''alice'' 20, OpDebit ''alice'' 40, OpCredit ''bob'' 7])) ''alice''"
  by (rule ledger_accounts) (auto simp: demo_ledger_def ledger_ok_def Balance_def gint_def max64_def)



end
