(* ===== verification/Tips.thy ===== *)
theory Tips
  imports Ledger "HOL-Library.Word"
begin

text \<open>
  Tip crediting: \<^verbatim>\<open>TipJournal\<close> of \<^verbatim>\<open>server/tipjournal.go\<close> and the tip loop of \<^verbatim>\<open>RunBotHooked\<close> in
  \<^verbatim>\<open>server/bot.go\<close> (credit, record, acknowledge). The loop is modelled over any \<open>Billing\<close>, its
  facts are proved in the locale \<open>durable_billing\<close> and rest on the ledger by interpretation.
\<close>

type_synonym uint64 = "64 word"

section \<open>The journal\<close>

definition tipJournalKeep :: nat where "tipJournalKeep = 1000"

record tip_journal =
  tj_seqs :: "uint64 list"
  tj_seen :: "uint64 set"
  tj_store :: "uint64 list store"

definition OpenTipJournal :: "uint64 list store \<Rightarrow> open_error + tip_journal" where
  "OpenTipJournal s = (case open_file [] s of
     Inl e \<Rightarrow> Inl e
   | Inr seqs \<Rightarrow> Inr \<lparr>tj_seqs = seqs, tj_seen = set seqs, tj_store = s\<rparr>)"

definition Seen :: "tip_journal \<Rightarrow> uint64 \<Rightarrow> bool" where
  "Seen j seq \<longleftrightarrow> seq \<in> tj_seen j"

text \<open>The journal before its write: the id is appended and the oldest ones over the limit are forgotten.\<close>

definition tj_append :: "tip_journal \<Rightarrow> uint64 \<Rightarrow> tip_journal" where
  "tj_append j seq =
     (let seen = insert seq (tj_seen j); seqs = tj_seqs j @ [seq] in
      if length seqs > tipJournalKeep then
        (let excess = take (length seqs - tipJournalKeep) seqs in
         j\<lparr>tj_seen := fold (\<lambda>s A. A - {s}) excess seen,
           tj_seqs := drop (length seqs - tipJournalKeep) seqs\<rparr>)
      else j\<lparr>tj_seen := seen, tj_seqs := seqs\<rparr>)"

definition Record :: "tip_journal \<Rightarrow> uint64 \<Rightarrow> io_error option \<times> tip_journal" where
  "Record j seq =
     (if seq \<in> tj_seen j then (None, j)
      else let j' = tj_append j seq; (e, s) = persist (tj_seqs j') (tj_store j') in (e, j'\<lparr>tj_store := s\<rparr>))"

fun Records :: "tip_journal \<Rightarrow> uint64 list \<Rightarrow> tip_journal" where
  "Records j [] = j"
| "Records j (x # xs) = Records (snd (Record j x)) xs"

definition tj_ok :: "tip_journal \<Rightarrow> bool" where
  "tj_ok j \<longleftrightarrow> tj_seen j = set (tj_seqs j) \<and> distinct (tj_seqs j) \<and> length (tj_seqs j) \<le> tipJournalKeep"

lemma fold_remove: "fold (\<lambda>s A. A - {s}) xs A = A - set xs"
  by (induction xs arbitrary: A) auto

lemma set_drop_distinct:
  assumes "distinct xs"
  shows "set (drop n xs) = set xs - set (take n xs)"
proof -
  have "distinct (take n xs @ drop n xs)" "set xs = set (take n xs @ drop n xs)" using assms by simp_all
  then show ?thesis by (auto simp del: append_take_drop_id)
qed

lemma tj_append_ok:
  assumes "tj_ok j" "x \<notin> tj_seen j"
  shows "tj_ok (tj_append j x)"
    and "tj_seqs (tj_append j x) = drop (Suc (length (tj_seqs j)) - tipJournalKeep) (tj_seqs j @ [x])"
    and "tj_store (tj_append j x) = tj_store j"
proof -
  have d: "distinct (tj_seqs j @ [x])" and s: "insert x (tj_seen j) = set (tj_seqs j @ [x])"
    using assms by (auto simp: tj_ok_def)
  show eq: "tj_seqs (tj_append j x) = drop (Suc (length (tj_seqs j)) - tipJournalKeep) (tj_seqs j @ [x])"
    and "tj_store (tj_append j x) = tj_store j"
    by (simp_all add: tj_append_def Let_def del: drop_append)
  show "tj_ok (tj_append j x)"
  proof (cases "Suc (length (tj_seqs j)) > tipJournalKeep")
    case True
    then have "tj_seen (tj_append j x) = set (tj_seqs (tj_append j x))"
      using set_drop_distinct [OF d] s
      by (simp add: tj_append_def Let_def fold_remove del: drop_append take_append set_append)
    then show ?thesis using d by (simp add: tj_ok_def eq del: drop_append)
  next
    case False
    then show ?thesis using d s by (simp add: tj_ok_def tj_append_def)
  qed
qed

lemma Record_ok [inv_intros]: "tj_ok j \<Longrightarrow> tj_ok (snd (Record j x))"
  using tj_append_ok(1) [of j x] by (simp add: Record_def Let_def split_beta) (simp add: tj_ok_def)

lemma Record_seqs: "tj_ok j \<Longrightarrow> tj_seqs (snd (Record j x)) =
    (if x \<in> tj_seen j then tj_seqs j else drop (Suc (length (tj_seqs j)) - tipJournalKeep) (tj_seqs j @ [x]))"
  using tj_append_ok(2) by (simp add: Record_def Let_def split_beta del: drop_append)

lemma Record_reliable [simp]:
  "reliable (tj_store j) \<Longrightarrow> tj_ok j \<Longrightarrow> reliable (tj_store (snd (Record j x)))"
  "reliable (tj_store j) \<Longrightarrow> tj_ok j \<Longrightarrow> fst (Record j x) = None"
  using tj_append_ok(3) by (auto simp: Record_def Let_def split_beta)

text \<open>The newest entries since \<open>x\<close> are distinct, so few further ids cannot push \<open>x\<close> out.\<close>

lemma Record_keeps:
  assumes "tj_ok j" "tj_seqs j = as @ x # bs" "set bs \<subseteq> Y - {x}" "y \<in> Y" "finite Y" "card (Y - {x}) < tipJournalKeep"
  obtains as' bs' where "tj_seqs (snd (Record j y)) = as' @ x # bs'" "set bs' \<subseteq> Y - {x}"
proof (cases "y \<in> tj_seen j")
  case True
  then show thesis using that assms(2,3) by (simp add: Record_seqs [OF assms(1)])
next
  case False
  then have new: "y \<noteq> x" "y \<notin> set bs" using assms(1,2) by (auto simp: tj_ok_def)
  have d: "distinct (bs @ [y])" using assms(1,2) new by (auto simp: tj_ok_def)
  have sub: "set (bs @ [y]) \<subseteq> Y - {x}" using assms(3,4) new by auto
  have "length (bs @ [y]) = card (set (bs @ [y]))" using d by (simp only: distinct_card)
  also have "\<dots> \<le> card (Y - {x})" using sub assms(5) by (intro card_mono) auto
  finally have "length bs + 1 < tipJournalKeep" using assms(6) by simp
  then have "Suc (length (tj_seqs j)) - tipJournalKeep \<le> length as" by (simp add: assms(2))
  then have "tj_seqs (snd (Record j y)) = drop (Suc (length (tj_seqs j)) - tipJournalKeep) as @ x # (bs @ [y])"
    using False by (simp add: Record_seqs [OF assms(1)] assms(2))
  then show thesis using that sub by blast
qed

lemma Records_keep:
  assumes "tj_ok j" "tj_seqs j = as @ x # bs" "set bs \<subseteq> Y - {x}" "set ys \<subseteq> Y" "finite Y" "card (Y - {x}) < tipJournalKeep"
  shows "Seen (Records j ys) x"
  using assms(1-4)
proof (induction ys arbitrary: j as bs)
  case Nil
  then show ?case by (simp add: Seen_def tj_ok_def)
next
  case (Cons y ys)
  have "y \<in> Y" using Cons.prems(4) by simp
  then obtain as' bs' where "tj_seqs (snd (Record j y)) = as' @ x # bs'" "set bs' \<subseteq> Y - {x}"
    using Record_keeps [OF Cons.prems(1-3) _ assms(5,6)] by blast
  then show ?case using Cons.IH [of "snd (Record j y)" as' bs'] Record_ok [OF Cons.prems(1)] Cons.prems(4) by simp
qed

lemma Record_seen: "tj_ok j \<Longrightarrow> Seen (snd (Record j x)) x"
  using Record_ok [of j x] by (auto simp: Seen_def tj_ok_def Record_seqs tipJournalKeep_def split: if_splits)

section \<open>The tip loop\<close>

record tip =
  tip_uid :: string
  tip_matoms :: int64
  tip_seq :: uint64

definition matomsPerAtom :: int where "matomsPerAtom = 1000"

record 'b tip_server =
  ts_billing :: 'b
  ts_tips :: "tip_journal option"
  ts_acked :: "uint64 list"
  ts_received :: "(string \<times> int64) list"

text \<open>One tip from the channel. \<open>connected\<close> is whether \<^verbatim>\<open>backend.current()\<close> holds a bot; the
  acknowledgements sent and the \<^verbatim>\<open>OnTipReceived\<close> calls made are kept as lists.\<close>

definition handle_tip :: "'b Billing \<Rightarrow> (string \<Rightarrow> bool) \<Rightarrow> bool \<Rightarrow> tip \<Rightarrow> 'b tip_server \<Rightarrow> 'b tip_server" where
  "handle_tip B allowed connected t s =
     (let uid = tip_uid t; atoms = quot64 (tip_matoms t) matomsPerAtom;
          already = (case ts_tips s of None \<Rightarrow> False | Some j \<Rightarrow> Seen j (tip_seq t));
          credited = (if allowed uid \<and> \<not> already then bl_credit B (ts_billing s) uid atoms else (None, ts_billing s));
          s = s\<lparr>ts_billing := snd credited\<rparr>
      in if fst credited \<noteq> None then s
      else let s = (case ts_tips s of
                      Some j \<Rightarrow> if already then s else s\<lparr>ts_tips := Some (snd (Record j (tip_seq t)))\<rparr>
                    | None \<Rightarrow> s);
               s = (if connected then s\<lparr>ts_acked := ts_acked s @ [tip_seq t]\<rparr> else s)
        in if already then s else s\<lparr>ts_received := ts_received s @ [(uid, atoms)]\<rparr>)"

text \<open>The process is killed between two tips and started again: both stores are read from disk.\<close>

definition reopen_tips :: "tip_journal option \<Rightarrow> tip_journal option" where
  "reopen_tips t = (case t of None \<Rightarrow> None | Some j \<Rightarrow>
     (case OpenTipJournal (tj_store j) of Inl e \<Rightarrow> Some j | Inr j' \<Rightarrow> Some j'))"

datatype tip_event = Deliver tip bool | Restart

fun tip_step :: "'b Billing \<Rightarrow> ('b \<Rightarrow> 'b) \<Rightarrow> (string \<Rightarrow> bool) \<Rightarrow> tip_event \<Rightarrow> 'b tip_server \<Rightarrow> 'b tip_server" where
  "tip_step B reopen allowed (Deliver t connected) s = handle_tip B allowed connected t s"
| "tip_step B reopen allowed Restart s =
     s\<lparr>ts_billing := reopen (ts_billing s), ts_tips := reopen_tips (ts_tips s)\<rparr>"

abbreviation tip_run :: "'b Billing \<Rightarrow> ('b \<Rightarrow> 'b) \<Rightarrow> (string \<Rightarrow> bool) \<Rightarrow> tip_event list \<Rightarrow> 'b tip_server \<Rightarrow> 'b tip_server" where
  "tip_run B reopen allowed es s \<equiv> fold (tip_step B reopen allowed) es s"

text \<open>The tips that count: the first delivery of each sequence id not recorded before.\<close>

fun fresh_tips :: "uint64 set \<Rightarrow> tip_event list \<Rightarrow> tip list" where
  "fresh_tips A [] = []"
| "fresh_tips A (Restart # es) = fresh_tips A es"
| "fresh_tips A (Deliver t c # es) =
     (if tip_seq t \<in> A then fresh_tips A es else t # fresh_tips (insert (tip_seq t) A) es)"

definition earned :: "(string \<Rightarrow> bool) \<Rightarrow> string \<Rightarrow> tip list \<Rightarrow> int" where
  "earned allowed u ts = (\<Sum>t \<leftarrow> ts. if tip_uid t = u \<and> allowed u then max 0 (quot64 (tip_matoms t) matomsPerAtom) else 0)"

fun event_seqs :: "tip_event list \<Rightarrow> uint64 set" where
  "event_seqs [] = {}"
| "event_seqs (Restart # es) = event_seqs es"
| "event_seqs (Deliver t c # es) = insert (tip_seq t) (event_seqs es)"

text \<open>What holds of the journal between two tips: it is well formed and on disk.\<close>

definition tips_synced :: "tip_journal \<Rightarrow> bool" where
  "tips_synced j \<longleftrightarrow> tj_ok j \<and> reliable (tj_store j) \<and> open_file [] (tj_store j) = Inr (tj_seqs j)"

lemma reopen_tips_synced [simp]: "tips_synced j \<Longrightarrow> reopen_tips (Some j) = Some j"
  by (cases j) (simp add: reopen_tips_def OpenTipJournal_def tips_synced_def tj_ok_def)

lemma tips_synced_Record: "tips_synced j \<Longrightarrow> tips_synced (snd (Record j x))"
  using tj_append_ok(3) [of j x] Record_ok [of j x]
  by (simp add: tips_synced_def) (auto simp: Record_def Let_def split_beta)

lemma Record_room:
  assumes "tj_ok j" "\<not> Seen j x" "card (set (tj_seqs j) \<union> insert x A) \<le> tipJournalKeep" "finite A"
  shows "set (tj_seqs (snd (Record j x))) = insert x (set (tj_seqs j))"
proof -
  have "card (insert x (set (tj_seqs j))) \<le> card (set (tj_seqs j) \<union> insert x A)"
    using assms(4) by (intro card_mono) auto
  moreover have "card (insert x (set (tj_seqs j))) = Suc (length (tj_seqs j))"
    using assms(1,2) by (auto simp: tj_ok_def Seen_def distinct_card)
  ultimately have "Suc (length (tj_seqs j)) - tipJournalKeep = 0" using assms(3) by simp
  then show ?thesis using assms(1,2) by (simp add: Record_seqs Seen_def)
qed

lemma finite_event_seqs [simp]: "finite (event_seqs es)"
  by (induction es rule: event_seqs.induct) simp_all

lemma earned_simps [simp]:
  "earned allowed u [] = 0"
  "earned allowed u (t # ts) = (if tip_uid t = u \<and> allowed u then max 0 (quot64 (tip_matoms t) matomsPerAtom) else 0)
    + earned allowed u ts"
  by (simp_all add: earned_def)

lemma earned_nonneg: "0 \<le> earned allowed u ts"
  unfolding earned_def by (rule sum_list_nonneg) auto

locale durable_billing = billing B inv for B :: "'b Billing" and inv +
  fixes reopen :: "'b \<Rightarrow> 'b"
  assumes reopen_same: "inv s \<Longrightarrow> reopen s = s"
begin

lemma credit_max:
  assumes "inv b" "bl_balance B b u + max 0 n \<le> max64"
  shows "fst (bl_credit B b u n) = None \<and> inv (snd (bl_credit B b u n)) \<and>
    bl_balance B (snd (bl_credit B b u n)) = (bl_balance B b)(u := bl_balance B b u + max 0 n)"
  using credit_fits [OF assms(1), of n u] credit_nothing [OF assms(1), of n u] assms by (cases "0 < n") auto

lemma redelivered:
  assumes "ts_tips s = Some j" "Seen j (tip_seq t)"
  shows "ts_billing (handle_tip B allowed c t s) = ts_billing s" "ts_tips (handle_tip B allowed c t s) = Some j"
  using assms by (simp_all add: handle_tip_def Let_def)

lemma delivered:
  assumes "inv (ts_billing s)" "ts_tips s = Some j" "\<not> Seen j (tip_seq t)"
    and "allowed (tip_uid t) \<Longrightarrow>
      bl_balance B (ts_billing s) (tip_uid t) + max 0 (quot64 (tip_matoms t) matomsPerAtom) \<le> max64"
  shows "inv (ts_billing (handle_tip B allowed c t s)) \<and>
    ts_tips (handle_tip B allowed c t s) = Some (snd (Record j (tip_seq t))) \<and>
    bl_balance B (ts_billing (handle_tip B allowed c t s)) u =
      bl_balance B (ts_billing s) u + earned allowed u [t]"
proof (cases "allowed (tip_uid t)")
  case True
  note credit_max [OF assms(1) assms(4) [OF True]]
  then show ?thesis using True assms(2,3) by (auto simp: handle_tip_def Let_def)
next
  case False
  then show ?thesis using assms by (auto simp: handle_tip_def Let_def)
qed

lemma tips_once:
  assumes "inv (ts_billing s)" "ts_tips s = Some j" "tips_synced j"
    and "card (set (tj_seqs j) \<union> event_seqs es) \<le> tipJournalKeep"
    and "\<And>v. bl_balance B (ts_billing s) v + earned allowed v (fresh_tips (set (tj_seqs j)) es) \<le> max64"
  shows "bl_balance B (ts_billing (tip_run B reopen allowed es s)) u =
    bl_balance B (ts_billing s) u + earned allowed u (fresh_tips (set (tj_seqs j)) es)"
  using assms
proof (induction es arbitrary: s j)
  case Nil
  then show ?case by simp
next
  case (Cons e es)
  have ok: "tj_ok j" using Cons.prems(3) by (simp add: tips_synced_def)
  show ?case
  proof (cases e)
    case Restart
    have "tip_step B reopen allowed Restart s = s"
      using Cons.prems(1-3) by (cases s) (simp add: reopen_same)
    then show ?thesis using Restart Cons.IH [of s j] Cons.prems by simp
  next
    case (Deliver t c)
    let ?s = "handle_tip B allowed c t s" and ?j = "snd (Record j (tip_seq t))"
    have seen: "Seen j (tip_seq t) \<longleftrightarrow> tip_seq t \<in> set (tj_seqs j)" using ok by (simp add: Seen_def tj_ok_def)
    show ?thesis
    proof (cases "Seen j (tip_seq t)")
      case True
      then have "set (tj_seqs j) \<union> event_seqs (e # es) = set (tj_seqs j) \<union> event_seqs es"
        using seen Deliver by auto
      then show ?thesis
        using Cons.IH [of ?s j] Cons.prems True seen redelivered [OF Cons.prems(2) True, of allowed c] Deliver by simp
    next
      case False
      have set': "set (tj_seqs ?j) = insert (tip_seq t) (set (tj_seqs j))"
        using Record_room [OF ok False, of "event_seqs es"] Cons.prems(4) Deliver by simp
      have fresh: "fresh_tips (set (tj_seqs j)) (e # es) = t # fresh_tips (set (tj_seqs ?j)) es"
        using False seen set' Deliver by simp
      have fits: "bl_balance B (ts_billing s) v + earned allowed v [t] + earned allowed v (fresh_tips (set (tj_seqs ?j)) es)
          \<le> max64" for v using Cons.prems(5) [of v] unfolding fresh by simp
      have room: "bl_balance B (ts_billing s) (tip_uid t) + max 0 (quot64 (tip_matoms t) matomsPerAtom) \<le> max64"
        if "allowed (tip_uid t)"
        using fits [of "tip_uid t"] earned_nonneg [of allowed "tip_uid t" "fresh_tips (set (tj_seqs ?j)) es"] that
        by simp
      note step = delivered [OF Cons.prems(1,2) False room, of allowed c]
      have "bl_balance B (ts_billing (tip_run B reopen allowed es ?s)) u =
          bl_balance B (ts_billing ?s) u + earned allowed u (fresh_tips (set (tj_seqs ?j)) es)"
      proof (rule Cons.IH)
        show "card (set (tj_seqs ?j) \<union> event_seqs es) \<le> tipJournalKeep"
          using Cons.prems(4) Deliver by (simp add: set')
        show "bl_balance B (ts_billing ?s) v + earned allowed v (fresh_tips (set (tj_seqs ?j)) es) \<le> max64" for v
          using step [of v] fits [of v] by simp
      qed (use step tips_synced_Record [OF Cons.prems(3)] in auto)
      then show ?thesis using step [of u] unfolding fresh by (simp add: Deliver)
    qed
  qed
qed

end

text \<open>The ledger, restarted from its file.\<close>

definition reopen_ledger :: "ledger \<Rightarrow> ledger" where
  "reopen_ledger l = (case OpenLedger (ld_store l) of Inl e \<Rightarrow> l | Inr l' \<Rightarrow> l')"

abbreviation ledger_durably :: "ledger \<Rightarrow> bool" where
  "ledger_durably l \<equiv> ledger_sound l \<and> ledger_synced l"

interpretation durable_ledger: durable_billing ledger_billing ledger_durably reopen_ledger
proof unfold_locales
  fix l u and n :: int
  assume l: "ledger_durably l"
  have synced: "fst (ledger_step l x) = None \<Longrightarrow> ledger_synced (snd (ledger_step l x))" for x
    using l ledger_step_synced by blast
  show "0 \<le> bl_balance ledger_billing l u \<and> bl_balance ledger_billing l u \<le> max64"
    using l ledger.balance_range by blast
  show "0 < n \<Longrightarrow> n \<le> bl_balance ledger_billing l u \<Longrightarrow>
      fst (bl_debit ledger_billing l u n) = None \<and> ledger_durably (snd (bl_debit ledger_billing l u n)) \<and>
      bl_balance ledger_billing (snd (bl_debit ledger_billing l u n)) =
      (bl_balance ledger_billing l)(u := bl_balance ledger_billing l u - n)"
    using l ledger.debit_covered [of l n u] synced [of "OpDebit u n"] by (simp add: ledger_billing_def)
  show "0 < n \<Longrightarrow> bl_balance ledger_billing l u < n \<Longrightarrow> bl_debit ledger_billing l u n = (Some ErrInsufficient, l)"
    using l ledger.debit_short by blast
  show "0 < n \<Longrightarrow> bl_balance ledger_billing l u + n \<le> max64 \<Longrightarrow>
      fst (bl_credit ledger_billing l u n) = None \<and> ledger_durably (snd (bl_credit ledger_billing l u n)) \<and>
      bl_balance ledger_billing (snd (bl_credit ledger_billing l u n)) =
      (bl_balance ledger_billing l)(u := bl_balance ledger_billing l u + n)"
    using l ledger.credit_fits [of l n u] synced [of "OpCredit u n"] by (simp add: ledger_billing_def)
  show "n \<le> 0 \<Longrightarrow> bl_credit ledger_billing l u n = (None, l)"
    using l ledger.credit_nothing by blast
  show "reopen_ledger l = l"
    using l by (simp add: reopen_ledger_def ledger_synced_def)
qed

section \<open>Properties\<close>


definition demo_tips :: "ledger tip_server" where
  "demo_tips = \<lparr>ts_billing = \<lparr>ld_balances = [], ld_store = \<lparr>st_file = Absent, st_script = []\<rparr>\<rparr>,
     ts_tips = Some \<lparr>tj_seqs = [], tj_seen = {}, tj_store = \<lparr>st_file = Absent, st_script = []\<rparr>\<rparr>,
     ts_acked = [], ts_received = []\<rparr>"

definition demo_tip :: "uint64 \<Rightarrow> tip" where
  "demo_tip i = \<lparr>tip_uid = ''alice'', tip_matoms = 5000, tip_seq = i\<rparr>"

lemma demo_tips_ok:
  "ledger_sound (ts_billing demo_tips)" "ledger_synced (ts_billing demo_tips)"
  "ts_tips demo_tips = Some \<lparr>tj_seqs = [], tj_seen = {}, tj_store = \<lparr>st_file = Absent, st_script = []\<rparr>\<rparr>"
  "tips_synced \<lparr>tj_seqs = [], tj_seen = {}, tj_store = \<lparr>st_file = Absent, st_script = []\<rparr>\<rparr>"
  by (simp_all add: demo_tips_def ledger_sound_def ledger_ok_def Balance_def max64_def ledger_synced_iff
      open_file_def tips_synced_def tj_ok_def)

definition demo_events :: "tip_event list" where
  "demo_events = [Deliver (demo_tip 1) False, Restart, Deliver (demo_tip 1) True, Deliver (demo_tip 2) True]"


text \<open>
  The tip journal forgets nothing recent: after a new sequence id is recorded it stays recognised
  while fewer than 1000 other ids are recorded, in any order and with any repetitions.
\<close>

lemma tip_window:
  assumes "tj_ok j" "\<not> Seen j x" "card (set ys - {x}) < 1000"
  shows "Seen (Records (snd (Record j x)) ys) x"
proof -
  let ?xs = "tj_seqs (snd (Record j x))"
  have ok: "tj_ok (snd (Record j x))" using assms(1) by (rule Record_ok)
  have "?xs \<noteq> []" "last ?xs = x"
    using assms(1,2) by (auto simp: Record_seqs Seen_def tj_ok_def tipJournalKeep_def)
  then have "?xs = butlast ?xs @ x # []" by (metis append_butlast_last_id)
  then show ?thesis
    using Records_keep [OF ok, of "butlast ?xs" x "[]" "set ys" ys] assms(3) by (simp add: tipJournalKeep_def)
qed

theorem tip_window_witness:
  "Seen (Records (snd (Record \<lparr>tj_seqs = [4], tj_seen = {4}, tj_store = \<lparr>st_file = Absent, st_script = []\<rparr>\<rparr> 7))
    [1, 2, 7, 1]) 7"
  by (rule tip_window) (simp_all add: tj_ok_def Seen_def tipJournalKeep_def card_insert_if insert_Diff_if)

text \<open>
  A credit whose write fails is paid twice. The balance in memory grows although \<^verbatim>\<open>Credit\<close>
  reports an error; the tip is then neither recorded nor acknowledged, and its redelivery credits
  it again.
\<close>

lemma tip_failed_write_doubles:
  assumes "ts_tips s = Some j" "\<not> Seen j (tip_seq t)" "allowed (tip_uid t)"
    and "0 < quot64 (tip_matoms t) matomsPerAtom"
    and "st_script (ld_store (ts_billing s)) = [Some e]"
  shows "let atoms = quot64 (tip_matoms t) matomsPerAtom;
      s1 = handle_tip ledger_billing allowed c t s; s2 = handle_tip ledger_billing allowed c t s1 in
    ts_acked s1 = ts_acked s \<and> ts_tips s1 = Some j \<and>
    Balance (ts_billing s2) (tip_uid t) = add64 (add64 (Balance (ts_billing s) (tip_uid t)) atoms) atoms"
proof -
  let ?n = "quot64 (tip_matoms t) matomsPerAtom"
  let ?l = "snd (Credit (ts_billing s) (tip_uid t) ?n)"
  have failed: "fst (Credit (ts_billing s) (tip_uid t) ?n) = Some (BillingIO e)"
    and empty: "st_script (ld_store ?l) = []"
    using assms(4,5) by (simp_all add: Credit_def persist_def)
  then have s1: "handle_tip ledger_billing allowed c t s = s\<lparr>ts_billing := ?l\<rparr>"
    using assms(1-3) by (simp add: handle_tip_def ledger_billing_def)
  have "fst (Credit ?l (tip_uid t) ?n) = None"
    using empty assms(4) by (simp add: reliable_def)
  then have "ts_billing (handle_tip ledger_billing allowed c t (s\<lparr>ts_billing := ?l\<rparr>)) = snd (Credit ?l (tip_uid t) ?n)"
    using assms(1-3) by (simp add: handle_tip_def ledger_billing_def Let_def)
  then show ?thesis using s1 assms(1,4) by (simp add: Let_def Balance_Credit)
qed

lemma tip_failed_write_doubles_witness:
  "let s = demo_tips\<lparr>ts_billing := \<lparr>ld_balances = [], ld_store = \<lparr>st_file = Absent, st_script = [Some WriteFailed]\<rparr>\<rparr>\<rparr>;
      t = demo_tip 3; j = \<lparr>tj_seqs = [], tj_seen = {}, tj_store = \<lparr>st_file = Absent, st_script = []\<rparr>\<rparr>;
      atoms = quot64 (tip_matoms t) matomsPerAtom;
      s1 = handle_tip ledger_billing (\<lambda>_. True) True t s; s2 = handle_tip ledger_billing (\<lambda>_. True) True t s1 in
    ts_acked s1 = ts_acked s \<and> ts_tips s1 = Some j \<and>
    Balance (ts_billing s2) (tip_uid t) = add64 (add64 (Balance (ts_billing s) (tip_uid t)) atoms) atoms"
  unfolding Let_def
  by (rule tip_failed_write_doubles [unfolded Let_def, where e = WriteFailed])
    (simp_all add: demo_tips_def Seen_def demo_tip_def matomsPerAtom_def quot64_def wrap64_def)

end
