(* ===== verification/CallJournal.thy ===== *)
theory CallJournal
  imports Persist
begin

text \<open>
  The paid-call journal of \<^verbatim>\<open>server/journal.go\<close> and the call records of \<^verbatim>\<open>server/harness.go\<close> it
  rebuilds after a restart. Results and outputs are values of parameter types; their JSON codec is
  the record \<open>codec\<close>, an empty string standing for Go's nil byte slice. The errors that
  \<^verbatim>\<open>complete\<close>, \<^verbatim>\<open>remove\<close> and \<^verbatim>\<open>gc\<close> ignore are ignored here too: the journal in memory moves on.
\<close>

text \<open>A tool's output: a value of the handler, or the raw JSON that a restart kept of it.\<close>

datatype 'o tool_out = Value 'o | RawJSON string

record ('r, 'o) codec =
  cd_result :: "'r \<Rightarrow> string option"
  cd_unresult :: "string \<Rightarrow> 'r option"
  cd_out :: "'o \<Rightarrow> string option"

record ('r, 'o) callRecord =
  rec_done :: bool
  rec_result :: "'r option"
  rec_out :: "'o tool_out option"
  rec_err :: "string option"
  rec_expires :: "instant option"

record journalEntry =
  je_peer :: string
  je_atoms :: int64
  je_done :: bool
  je_expires :: int64
  je_kept :: bool
  je_result :: string
  je_out :: string
  je_err :: string

record callJournal =
  cj_data :: "(string, journalEntry) gomap"
  cj_store :: "(string, journalEntry) gomap store"

definition journalOutcomeCap :: int where "journalOutcomeCap = 64 * 1024"

definition openCallJournal :: "(string, journalEntry) gomap store \<Rightarrow> open_error + callJournal" where
  "openCallJournal s = (case open_file [] s of
     Inl e \<Rightarrow> Inl e
   | Inr d \<Rightarrow> Inr \<lparr>cj_data = d, cj_store = s\<rparr>)"

definition cj_persistLocked :: "callJournal \<Rightarrow> io_error option \<times> callJournal" where
  "cj_persistLocked j = (let (e, s) = persist (cj_data j) (cj_store j) in (e, j\<lparr>cj_store := s\<rparr>))"

definition charged :: "callJournal \<Rightarrow> string \<Rightarrow> string \<Rightarrow> int64 \<Rightarrow> io_error option \<times> callJournal" where
  "charged j key peer atoms = cj_persistLocked (j\<lparr>cj_data := gput key
     \<lparr>je_peer = peer, je_atoms = atoms, je_done = False, je_expires = 0, je_kept = False,
      je_result = '''', je_out = '''', je_err = ''''\<rparr> (cj_data j)\<rparr>)"

definition nil_or :: "string option \<Rightarrow> string" where
  "nil_or x = (case x of None \<Rightarrow> '''' | Some s \<Rightarrow> s)"

definition marshal_out :: "('r, 'o) codec \<Rightarrow> 'o tool_out \<Rightarrow> string option" where
  "marshal_out C v = (case v of Value x \<Rightarrow> cd_out C x | RawJSON s \<Rightarrow> Some s)"

definition complete_entry :: "('r, 'o) codec \<Rightarrow> 'r option \<Rightarrow> 'o tool_out option \<Rightarrow> string option \<Rightarrow> instant \<Rightarrow>
    journalEntry \<Rightarrow> journalEntry" where
  "complete_entry C result out err expires e =
     (let res = (case result of None \<Rightarrow> '''' | Some r \<Rightarrow> nil_or (cd_result C r));
          o' = (case out of None \<Rightarrow> '''' | Some v \<Rightarrow> nil_or (marshal_out C v));
          e = e\<lparr>je_done := True, je_expires := unix expires\<rparr>
      in if int (length res) + int (length o') \<le> journalOutcomeCap then
           e\<lparr>je_kept := True, je_result := res, je_out := o',
             je_err := (case err of Some t \<Rightarrow> t | None \<Rightarrow> je_err e)\<rparr>
         else e)"

definition complete :: "('r, 'o) codec \<Rightarrow> callJournal \<Rightarrow> string \<Rightarrow> 'r option \<Rightarrow> 'o tool_out option \<Rightarrow> string option \<Rightarrow>
    instant \<Rightarrow> callJournal" where
  "complete C j key result out err expires = (case map_of (cj_data j) key of
     None \<Rightarrow> j
   | Some e \<Rightarrow> snd (cj_persistLocked
       (j\<lparr>cj_data := gput key (complete_entry C result out err expires e) (cj_data j)\<rparr>)))"

definition remove :: "callJournal \<Rightarrow> string \<Rightarrow> callJournal" where
  "remove j key = (case map_of (cj_data j) key of
     None \<Rightarrow> j
   | Some e \<Rightarrow> snd (cj_persistLocked (j\<lparr>cj_data := gdel key (cj_data j)\<rparr>)))"

definition interrupted :: "callJournal \<Rightarrow> (string, journalEntry) gomap" where
  "interrupted j = filter (\<lambda>ke. \<not> je_done (snd ke)) (cj_data j)"

text \<open>\<^verbatim>\<open>now.After(time.Unix(e.Expires, 0))\<close>.\<close>

definition je_expired :: "instant \<Rightarrow> journalEntry \<Rightarrow> bool" where
  "je_expired now e \<longleftrightarrow> now > je_expires e * second"

definition not_retained :: string where
  "not_retained = ''duplicate call: outcome not retained across a restart''"

definition rebuild :: "('r, 'o) codec \<Rightarrow> journalEntry \<Rightarrow> ('r, 'o) callRecord" where
  "rebuild C e =
     (if \<not> je_kept e then
        \<lparr>rec_done = True, rec_result = None, rec_out = None, rec_err = Some not_retained,
         rec_expires = Some (je_expires e * second)\<rparr>
      else
        \<lparr>rec_done = True,
         rec_result = (if je_result e = '''' then None else cd_unresult C (je_result e)),
         rec_out = (if je_out e = '''' then None else Some (RawJSON (je_out e))),
         rec_err = (if je_err e = '''' then None else Some (je_err e)),
         rec_expires = Some (je_expires e * second)\<rparr>)"

definition completedRecords :: "('r, 'o) codec \<Rightarrow> callJournal \<Rightarrow> instant \<Rightarrow> (string, ('r, 'o) callRecord) gomap" where
  "completedRecords C j now =
     map (\<lambda>(k, e). (k, rebuild C e)) (filter (\<lambda>ke. je_done (snd ke) \<and> \<not> je_expired now (snd ke)) (cj_data j))"

definition cj_gc :: "callJournal \<Rightarrow> instant \<Rightarrow> callJournal" where
  "cj_gc j now =
     (let stale = (\<lambda>ke. je_done (snd ke) \<and> je_expired now (snd ke)) in
      if \<exists>ke \<in> set (cj_data j). stale ke then
        snd (cj_persistLocked (j\<lparr>cj_data := filter (\<lambda>ke. \<not> stale ke) (cj_data j)\<rparr>))
      else j)"

section \<open>Laws\<close>

definition cj_ok :: "callJournal \<Rightarrow> bool" where
  "cj_ok j \<longleftrightarrow> gmap_ok (cj_data j)"

text \<open>The journal in memory is the one a restart would load.\<close>

definition cj_synced :: "callJournal \<Rightarrow> bool" where
  "cj_synced j \<longleftrightarrow> reliable (cj_store j) \<and> openCallJournal (cj_store j) = Inr j"

lemma cj_synced_iff: "cj_synced j \<longleftrightarrow> reliable (cj_store j) \<and> open_file [] (cj_store j) = Inr (cj_data j)"
  by (cases j) (auto simp: cj_synced_def openCallJournal_def split: sum.splits)

lemma cj_persist_simps [simp]:
  "cj_data (snd (cj_persistLocked j)) = cj_data j"
  "fst (cj_persistLocked j) = fst (persist (cj_data j) (cj_store j))"
  "cj_store (snd (cj_persistLocked j)) = snd (persist (cj_data j) (cj_store j))"
  by (simp_all add: cj_persistLocked_def split_beta)

lemma charged_data [simp]: "cj_data (snd (charged j key peer atoms)) = gput key
     \<lparr>je_peer = peer, je_atoms = atoms, je_done = False, je_expires = 0, je_kept = False,
      je_result = '''', je_out = '''', je_err = ''''\<rparr> (cj_data j)"
  by (simp add: charged_def)

lemma complete_data: "cj_data (complete C j key r out err t) = (case map_of (cj_data j) key of
    None \<Rightarrow> cj_data j | Some e \<Rightarrow> gput key (complete_entry C r out err t e) (cj_data j))"
  by (simp add: complete_def split: option.splits)

lemma remove_lookup [simp]: "map_of (cj_data (remove j key)) = (map_of (cj_data j))(key := None)"
  by (auto simp: remove_def split: option.splits)

lemma remove_data: "cj_data (remove j key) = gdel key (cj_data j)"
  by (auto simp: remove_def gdel_absent split: option.splits)

lemma gc_data: "cj_data (cj_gc j now) =
    filter (\<lambda>ke. \<not> (je_done (snd ke) \<and> je_expired now (snd ke))) (cj_data j)"
  by (auto simp: cj_gc_def Let_def intro: filter_True [symmetric])

lemma cj_ok_ops [inv_intros]:
  "cj_ok j \<Longrightarrow> cj_ok (snd (charged j k p n))"
  "cj_ok j \<Longrightarrow> cj_ok (complete C j k r out err t)"
  "cj_ok j \<Longrightarrow> cj_ok (remove j k)"
  "cj_ok j \<Longrightarrow> cj_ok (cj_gc j now)"
  by (auto simp: cj_ok_def complete_data remove_data gc_data split: option.splits)

lemma cj_persist_synced: "reliable (cj_store j) \<Longrightarrow> cj_synced (snd (cj_persistLocked j))"
  by (simp add: cj_synced_iff)

lemma cj_synced_ops [inv_intros]:
  assumes "cj_synced j"
  shows "cj_synced (snd (charged j k p n))" "cj_synced (complete C j k r out err t)"
    "cj_synced (remove j k)" "cj_synced (cj_gc j now)"
proof -
  have r: "reliable (cj_store j)" using assms by (simp add: cj_synced_def)
  show "cj_synced (snd (charged j k p n))" unfolding charged_def by (rule cj_persist_synced) (simp add: r)
  show "cj_synced (complete C j k r out err t)"
    using assms r by (auto simp: complete_def intro: cj_persist_synced split: option.splits)
  show "cj_synced (remove j k)"
    using assms r by (auto simp: remove_def intro: cj_persist_synced split: option.splits)
  show "cj_synced (cj_gc j now)"
    using assms r by (auto simp: cj_gc_def Let_def intro: cj_persist_synced)
qed

lemma gc_lookup: "cj_ok j \<Longrightarrow> map_of (cj_data (cj_gc j now)) k = (case map_of (cj_data j) k of
    None \<Rightarrow> None | Some e \<Rightarrow> if je_done e \<and> je_expired now e then None else Some e)"
  by (auto simp: cj_ok_def gc_data map_of_filter split: option.splits)

lemma completedRecords_lookup: "cj_ok j \<Longrightarrow> map_of (completedRecords C j now) k = (case map_of (cj_data j) k of
    None \<Rightarrow> None | Some e \<Rightarrow> if je_done e \<and> \<not> je_expired now e then Some (rebuild C e) else None)"
  by (simp add: completedRecords_def case_prod_unfold map_of_map_snd cj_ok_def map_of_filter split: option.splits)

section \<open>Properties\<close>

text \<open>
  A completed paid call answers its duplicates the same way after a restart. When a journaled
  call completes with an outcome that fits the cap, the record rebuilt from the journal file before
  the expiry carries the same result, the same output as raw JSON and the same error; a larger
  outcome is refused instead of replayed, and after the expiry the record is gone. The hypotheses on
  the codec are that encoding the result decodes to it and that JSON text is never empty.
\<close>

lemma journal_replays:
  assumes "cj_ok j" "cj_synced j"
    and "\<And>r. result = Some r \<Longrightarrow> cd_result C r = Some res \<and> res \<noteq> '''' \<and> cd_unresult C res = Some r"
    and "result = None \<Longrightarrow> res = ''''"
    and "\<And>v. out = Some v \<Longrightarrow> marshal_out C v = Some o' \<and> o' \<noteq> ''''" "out = None \<Longrightarrow> o' = ''''"
    and "err \<noteq> Some ''''"
    and "openCallJournal (cj_store (complete C (snd (charged j key peer atoms)) key result out err expires)) = Inr j'"
  shows "map_of (completedRecords C j' now) key =
    (if unix expires * second < now then None
     else Some (if int (length res) + int (length o') \<le> 65536
       then \<lparr>rec_done = True, rec_result = result, rec_out = map_option (\<lambda>_. RawJSON o') out,
             rec_err = err, rec_expires = Some (unix expires * second)\<rparr>
       else \<lparr>rec_done = True, rec_result = None, rec_out = None,
             rec_err = Some not_retained, rec_expires = Some (unix expires * second)\<rparr>))"
proof -
  let ?j = "complete C (snd (charged j key peer atoms)) key result out err expires"
  have "cj_synced ?j" using assms(2) by (simp add: cj_synced_ops)
  then have j': "j' = ?j" using assms(8) by (simp add: cj_synced_def)
  have ok: "cj_ok j'" using assms(1) unfolding j' by (simp add: cj_ok_ops)
  let ?e = "\<lparr>je_peer = peer, je_atoms = atoms, je_done = False, je_expires = 0, je_kept = False,
      je_result = '''', je_out = '''', je_err = ''''\<rparr>"
  have entry: "map_of (cj_data j') key = Some (complete_entry C result out err expires ?e)"
    by (simp add: j' complete_data)
  have res: "(case result of None \<Rightarrow> '''' | Some r \<Rightarrow> nil_or (cd_result C r)) = res"
    using assms(3,4) by (cases result) (auto simp: nil_or_def)
  have out: "(case out of None \<Rightarrow> '''' | Some v \<Rightarrow> nil_or (marshal_out C v)) = o'"
    using assms(5,6) by (cases out) (auto simp: nil_or_def)
  have result: "(if res = '''' then None else cd_unresult C res) = result"
    using assms(3,4) by (cases result) auto
  have outs: "(if o' = '''' then None else Some (RawJSON o')) = map_option (\<lambda>_. RawJSON o') out"
    using assms(5,6) by (cases out) auto
  have error: "err = Some t \<Longrightarrow> t \<noteq> ''''" for t using assms(7) by auto
  show ?thesis
    using result outs error
    by (cases err) (auto simp: completedRecords_lookup [OF ok] entry complete_entry_def res out rebuild_def
        je_expired_def journalOutcomeCap_def Let_def split: if_splits)
qed

definition demo_journal :: callJournal where
  "demo_journal = \<lparr>cj_data = [], cj_store = \<lparr>st_file = Absent, st_script = []\<rparr>\<rparr>"

definition demo_codec :: "(string, string) codec" where
  "demo_codec = \<lparr>cd_result = (\<lambda>r. Some (''r'' @ r)), cd_unresult = (\<lambda>s. Some (tl s)), cd_out = (\<lambda>v. Some (''v'' @ v))\<rparr>"

definition demo_reloaded :: callJournal where
  "demo_reloaded = complete demo_codec (snd (charged demo_journal ''key'' ''peer'' 5)) ''key''
     (Some ''x'') (Some (Value ''y'')) None (90 * second)"

lemma journal_replays_witness:
  "map_of (completedRecords demo_codec demo_reloaded 7) ''key'' =
    (if unix (90 * second) * second < 7 then None
     else Some (if int (length ''rx'') + int (length ''vy'') \<le> 65536
       then \<lparr>rec_done = True, rec_result = Some ''x'', rec_out = map_option (\<lambda>_. RawJSON ''vy'') (Some (Value ''y'')),
             rec_err = None, rec_expires = Some (unix (90 * second) * second)\<rparr>
       else \<lparr>rec_done = True, rec_result = None, rec_out = None,
             rec_err = Some not_retained, rec_expires = Some (unix (90 * second) * second)\<rparr>))"
  by (rule journal_replays [where j = demo_journal and peer = "''peer''" and atoms = 5])
    (simp_all add: cj_ok_def cj_synced_iff demo_journal_def open_file_def demo_codec_def marshal_out_def
      demo_reloaded_def openCallJournal_def complete_def charged_def cj_persistLocked_def persist_def)

end
