(* ===== verification/Harness.thy ===== *)
theory Harness
  imports Complex_Main Payment Tips CallJournal
begin

text \<open>
  The serving harness of \<^verbatim>\<open>server/harness.go\<close>: authorization, the per-caller token bucket, idempotency
  keys, the charge, the paid-call flow and the reconciliation of the journal at start. \<^verbatim>\<open>Billing\<close> is the
  record of \<open>Ledger\<close>, so the harness is modelled over any store.

  A call record is a heap object that several calls share: \<open>h_recs\<close> is the heap (an address is an
  index) and \<open>h_calls\<close> the map of keys to addresses. A tool call is an \<open>invocation\<close> whose \<open>phase\<close> is
  the point its handler has reached; \<open>advance\<close> runs it to the next point, one critical section at a
  time, so that interleavings of concurrent calls are sequences of such steps.

  The token bucket counts in \<open>rat\<close> where the code uses float64.
\<close>

section \<open>State\<close>

datatype meta_value = MetaInt int64 | MetaStr string | MetaOther

record 'i tool =
  t_name :: string
  t_meta :: "(string, meta_value) gomap"
  t_price :: "string \<Rightarrow> 'i \<Rightarrow> string + int64"

record bucket =
  bk_tokens :: rat
  bk_last :: instant

record harness_config =
  hc_dataDir :: bool
  hc_allowedPeers :: "string list"
  hc_allowFunc :: "(string \<Rightarrow> bool) option"
  hc_callsPerMinute :: int
  hc_toolVisible :: "(string \<Rightarrow> string \<Rightarrow> bool) option"

record ('b, 'i, 'o) harness =
  h_cfg :: harness_config
  h_billing :: 'b
  h_journal :: "callJournal option"
  h_allowed :: "string list"
  h_servers :: "(string, 'i tool list) gomap"
  h_buckets :: "(string, bucket) gomap"
  h_calls :: "(string, nat) gomap"
  h_recs :: "(CallToolResult, 'o) callRecord list"
  h_tools :: "'i tool list"

section \<open>Construction\<close>

text \<open>The refunds of \<^verbatim>\<open>openJournal\<close>, over the interrupted entries in some order.\<close>

fun refund_all :: "'b Billing \<Rightarrow> (string \<times> journalEntry) list \<Rightarrow> 'b \<times> callJournal \<Rightarrow> 'b \<times> callJournal" where
  "refund_all B [] bj = bj"
| "refund_all B ((key, e) # es) (b, j) =
     (let (err, b') = bl_credit B b (je_peer e) (je_atoms e) in
      refund_all B es (if err \<noteq> None then (b', j) else (b', remove j key)))"

text \<open>The records of completed calls get the next addresses of the heap.\<close>

fun adopt :: "(string \<times> ('r, 'o) callRecord) list \<Rightarrow> (string, nat) gomap \<times> ('r, 'o) callRecord list \<Rightarrow>
    (string, nat) gomap \<times> ('r, 'o) callRecord list" where
  "adopt [] cr = cr"
| "adopt ((key, c) # cs) (calls, recs) = adopt cs (gput key (length recs) calls, recs @ [c])"

definition openJournal :: "'b Billing \<Rightarrow> (CallToolResult, 'o) codec \<Rightarrow> instant \<Rightarrow>
    (string, journalEntry) gomap store \<Rightarrow> ('b, 'i, 'o) harness \<Rightarrow> open_error + ('b, 'i, 'o) harness" where
  "openJournal B C now store h = (case openCallJournal store of
     Inl e \<Rightarrow> Inl e
   | Inr j \<Rightarrow> (let (b, j) = refund_all B (interrupted j) (h_billing h, j);
                  (calls, recs) = adopt (completedRecords C j now) (h_calls h, h_recs h)
     in Inr (h\<lparr>h_billing := b, h_journal := Some (cj_gc j now), h_calls := calls, h_recs := recs\<rparr>)))"

text \<open>\<^verbatim>\<open>NewHarness\<close> with an opened billing store.\<close>

definition NewHarness :: "'b Billing \<Rightarrow> (CallToolResult, 'o) codec \<Rightarrow> instant \<Rightarrow> harness_config \<Rightarrow> 'b \<Rightarrow>
    (string, journalEntry) gomap store \<Rightarrow> open_error + ('b, 'i, 'o) harness" where
  "NewHarness B C now cfg b store =
     (let cfg = (if hc_callsPerMinute cfg \<le> 0 then cfg\<lparr>hc_callsPerMinute := 30\<rparr> else cfg);
          h = \<lparr>h_cfg = cfg, h_billing = b, h_journal = None, h_allowed = hc_allowedPeers cfg,
               h_servers = [], h_buckets = [], h_calls = [], h_recs = [], h_tools = []\<rparr>
      in if hc_dataDir cfg then openJournal B C now store h else Inr h)"

definition Allowed :: "('b, 'i, 'o) harness \<Rightarrow> string \<Rightarrow> bool" where
  "Allowed h peer = (case hc_allowFunc (h_cfg h) of
     Some f \<Rightarrow> f peer
   | None \<Rightarrow> peer \<in> set (h_allowed h))"

definition AddToolPriced :: "('b, 'i, 'o) harness \<Rightarrow> 'i tool \<Rightarrow> (string \<Rightarrow> 'i \<Rightarrow> string + int64) \<Rightarrow> ('b, 'i, 'o) harness" where
  "AddToolPriced h tool price =
     (let meta = (if map_of (t_meta tool) PriceMetaKey = None \<and> map_of (t_meta tool) PricingMetaKey = None
                  then gput PricingMetaKey (MetaStr ''dynamic'') (t_meta tool) else t_meta tool)
      in h\<lparr>h_tools := h_tools h @ [tool\<lparr>t_meta := meta, t_price := price\<rparr>]\<rparr>)"

definition AddTool :: "('b, 'i, 'o) harness \<Rightarrow> 'i tool \<Rightarrow> int64 \<Rightarrow> ('b, 'i, 'o) harness" where
  "AddTool h tool priceAtoms =
     AddToolPriced h (tool\<lparr>t_meta := gput PriceMetaKey (MetaInt priceAtoms) (t_meta tool)\<rparr>) (\<lambda>_ _. Inr priceAtoms)"

text \<open>The server of a caller: the tools it may see, fixed when it is first built.\<close>

definition serverFor :: "('b, 'i, 'o) harness \<Rightarrow> string \<Rightarrow> ('b, 'i, 'o) harness \<times> 'i tool list" where
  "serverFor h peer = (case map_of (h_servers h) peer of
     Some s \<Rightarrow> (h, s)
   | None \<Rightarrow>
       let s = filter (\<lambda>t. case hc_toolVisible (h_cfg h) of None \<Rightarrow> True | Some v \<Rightarrow> v peer (t_name t)) (h_tools h)
       in (h\<lparr>h_servers := gput peer s (h_servers h)\<rparr>, s))"

section \<open>Rate limit\<close>

definition refill :: "int \<Rightarrow> instant \<Rightarrow> bucket \<Rightarrow> rat" where
  "refill cpm now b = min (of_int cpm) (bk_tokens b + of_int (time_sub now (bk_last b)) / 1000000000 * (of_int cpm / 60))"

definition takeToken :: "('b, 'i, 'o) harness \<Rightarrow> instant \<Rightarrow> string \<Rightarrow> ('b, 'i, 'o) harness \<times> bool" where
  "takeToken h now peer =
     (let cpm = hc_callsPerMinute (h_cfg h);
          b = (case map_of (h_buckets h) peer of
                 Some b \<Rightarrow> b | None \<Rightarrow> \<lparr>bk_tokens = of_int cpm, bk_last = now\<rparr>);
          tokens = refill cpm now b
      in if tokens < 1 then (h\<lparr>h_buckets := gput peer \<lparr>bk_tokens = tokens, bk_last = now\<rparr> (h_buckets h)\<rparr>, False)
         else (h\<lparr>h_buckets := gput peer \<lparr>bk_tokens = tokens - 1, bk_last = now\<rparr> (h_buckets h)\<rparr>, True))"

section \<open>Idempotency keys\<close>

definition callKeyTTL :: duration where "callKeyTTL = 30 * minute"

definition call_stale :: "('r, 'o) callRecord list \<Rightarrow> instant \<Rightarrow> nat \<Rightarrow> bool" where
  "call_stale recs now r = (case rec_expires (recs ! r) of None \<Rightarrow> False | Some t \<Rightarrow> now > t)"

definition claimCall :: "('b, 'i, 'o) harness \<Rightarrow> instant \<Rightarrow> string \<Rightarrow> ('b, 'i, 'o) harness \<times> nat \<times> bool" where
  "claimCall h now key =
     (let calls = filter (\<lambda>kr. \<not> call_stale (h_recs h) now (snd kr)) (h_calls h);
          h = h\<lparr>h_calls := calls, h_journal := map_option (\<lambda>j. cj_gc j now) (h_journal h)\<rparr>
      in case map_of calls key of
           Some r \<Rightarrow> (h, r, True)
         | None \<Rightarrow>
             (h\<lparr>h_calls := gput key (length (h_recs h)) calls,
                h_recs := h_recs h @ [\<lparr>rec_done = False, rec_result = None, rec_out = None, rec_err = None, rec_expires = None\<rparr>]\<rparr>,
              length (h_recs h), False))"

definition releaseCall :: "('b, 'i, 'o) harness \<Rightarrow> string \<Rightarrow> nat \<Rightarrow> ('b, 'i, 'o) harness" where
  "releaseCall h key r =
     h\<lparr>h_calls := gdel key (h_calls h), h_recs := (h_recs h)[r := (h_recs h ! r)\<lparr>rec_done := True\<rparr>]\<rparr>"

type_synonym 'o response = "CallToolResult option \<times> 'o tool_out option \<times> string option"

definition completeCall :: "(CallToolResult, 'o) codec \<Rightarrow> ('b, 'i, 'o) harness \<Rightarrow> instant \<Rightarrow> string \<Rightarrow> nat \<Rightarrow> 'o response \<Rightarrow>
    ('b, 'i, 'o) harness" where
  "completeCall C h now key r resp =
     (let (result, out, err) = resp; expires = now + callKeyTTL in
      h\<lparr>h_recs := (h_recs h)[r := \<lparr>rec_done = True, rec_result = result, rec_out = out, rec_err = err,
                                  rec_expires = Some expires\<rparr>],
        h_journal := map_option (\<lambda>j. complete C j key result out err expires) (h_journal h)\<rparr>)"

section \<open>The charge\<close>

definition charge :: "'b Billing \<Rightarrow> 'b \<Rightarrow> string \<Rightarrow> string \<Rightarrow> int64 \<Rightarrow> 'b \<times> PaymentRequired option" where
  "charge B b toolName peer price =
     (let (err, b) = bl_debit B b peer price in
      if err = None then (b, None)
      else let balance = bl_balance B b peer in
        (b, Some \<lparr>pr_error = ''payment_required'', pr_tool = toolName, pr_price = price, pr_balance = balance,
                  pr_shortfall = sub64 price balance, pr_rails = [''tip'']\<rparr>))"

definition paymentRequiredResult :: "(PaymentRequired \<Rightarrow> string option) \<Rightarrow> PaymentRequired \<Rightarrow> CallToolResult" where
  "paymentRequiredResult marshal pr =
     \<lparr>cr_isError = True, cr_content = [TextContent (case marshal pr of
        Some s \<Rightarrow> s | None \<Rightarrow> ''{\"error\":\"payment_required\"}'')]\<rparr>"

section \<open>A tool call\<close>

text \<open>How far a call has got. The address is the record it claimed, \<open>None\<close> for a call without key.\<close>

datatype 'o phase =
    Arrived
  | Waiting nat
  | Admitted "nat option"
  | Quoted "nat option" int64
  | Charged "nat option" int64
  | Running "nat option" int64
  | Settled "nat option" "'o response"
  | Refused "nat option" "'o response"
  | Answered "'o response"

text \<open>\<open>in_paid\<close> is a ghost: what the caller has paid for this call and not got back.\<close>

record ('i, 'o) invocation =
  in_peer :: string
  in_tool :: "'i tool"
  in_callKey :: "string option"
  in_args :: 'i
  in_phase :: "'o phase"
  in_paid :: int

definition call_key :: "('i, 'o) invocation \<Rightarrow> string" where
  "call_key v = (case in_callKey v of
     Some k \<Rightarrow> if 8 \<le> length k \<and> length k \<le> 128 then in_peer v @ ''|'' @ k else ''''
   | None \<Rightarrow> '''')"

text \<open>What the environment decides: the clock, the handler's outcome, and a cancelled context.\<close>

record 'o choice =
  ch_now :: instant
  ch_run :: "string + 'o tool_out option"
  ch_cancel :: "string option"

definition rate_limited :: string where "rate_limited = ''rate limited; retry later''"

definition advance :: "'b Billing \<Rightarrow> (CallToolResult, 'o) codec \<Rightarrow> (PaymentRequired \<Rightarrow> string option) \<Rightarrow> 'o choice \<Rightarrow>
    ('b, 'i, 'o) harness \<times> ('i, 'o) invocation \<Rightarrow> (('b, 'i, 'o) harness \<times> ('i, 'o) invocation) option" where
  "advance B C marshal ch hv = (let (h, v) = hv; peer = in_peer v; key = call_key v in
   case in_phase v of
     Arrived \<Rightarrow>
       if key = '''' then Some (h, v\<lparr>in_phase := Admitted None\<rparr>)
       else (let (h, r, dup) = claimCall h (ch_now ch) key in
         Some (h, v\<lparr>in_phase := (if dup then Waiting r else Admitted (Some r))\<rparr>))
   | Waiting r \<Rightarrow>
       if rec_done (h_recs h ! r) then
         Some (h, v\<lparr>in_phase := Answered (rec_result (h_recs h ! r), rec_out (h_recs h ! r), rec_err (h_recs h ! r))\<rparr>)
       else (case ch_cancel ch of
         Some e \<Rightarrow> Some (h, v\<lparr>in_phase := Answered (None, None, Some e)\<rparr>)
       | None \<Rightarrow> None)
   | Admitted r \<Rightarrow>
       (let (h, ok) = takeToken h (ch_now ch) peer in
        if \<not> ok then Some (h, v\<lparr>in_phase := Refused r (None, None, Some rate_limited)\<rparr>)
        else (case t_price (in_tool v) peer (in_args v) of
          Inl e \<Rightarrow> Some (h, v\<lparr>in_phase := Refused r (None, None, Some e)\<rparr>)
        | Inr price \<Rightarrow> Some (h, v\<lparr>in_phase := Quoted r price\<rparr>)))
   | Quoted r price \<Rightarrow>
       if price > 0 then
         (case charge B (h_billing h) (t_name (in_tool v)) peer price of
            (b, Some pr) \<Rightarrow> Some (h\<lparr>h_billing := b\<rparr>,
              v\<lparr>in_phase := Refused r (Some (paymentRequiredResult marshal pr), None, None)\<rparr>)
          | (b, None) \<Rightarrow> Some (h\<lparr>h_billing := b\<rparr>, v\<lparr>in_phase := Charged r price, in_paid := price\<rparr>))
       else Some (h, v\<lparr>in_phase := Running r price\<rparr>)
   | Charged r price \<Rightarrow>
       Some ((if r \<noteq> None then h\<lparr>h_journal := map_option (\<lambda>j. snd (charged j key peer price)) (h_journal h)\<rparr> else h),
             v\<lparr>in_phase := Running r price\<rparr>)
   | Running r price \<Rightarrow>
       (case ch_run ch of
          Inl e \<Rightarrow>
            if price > 0 then
              (let (err, b) = bl_credit B (h_billing h) peer price in
               Some (h\<lparr>h_billing := b\<rparr>, v\<lparr>in_phase := Settled r (None, None, Some e), in_paid := (if err = None then 0 else in_paid v)\<rparr>))
            else Some (h, v\<lparr>in_phase := Settled r (None, None, Some e)\<rparr>)
        | Inr out \<Rightarrow> Some (h, v\<lparr>in_phase := Settled r (None, out, None)\<rparr>))
   | Settled r resp \<Rightarrow>
       Some ((case r of Some a \<Rightarrow> completeCall C h (ch_now ch) key a resp | None \<Rightarrow> h), v\<lparr>in_phase := Answered resp\<rparr>)
   | Refused r resp \<Rightarrow>
       Some ((case r of Some a \<Rightarrow> releaseCall h key a | None \<Rightarrow> h), v\<lparr>in_phase := Answered resp\<rparr>)
   | Answered resp \<Rightarrow> None)"

section \<open>Rate limit: laws\<close>

text \<open>The tokens a caller would find at an instant.\<close>

definition level :: "('b, 'i, 'o) harness \<Rightarrow> string \<Rightarrow> instant \<Rightarrow> rat" where
  "level h peer t = (case map_of (h_buckets h) peer of
     None \<Rightarrow> of_int (hc_callsPerMinute (h_cfg h))
   | Some b \<Rightarrow> refill (hc_callsPerMinute (h_cfg h)) t b)"

definition buckets_ok :: "('b, 'i, 'o) harness \<Rightarrow> instant \<Rightarrow> bool" where
  "buckets_ok h t \<longleftrightarrow> 1 \<le> hc_callsPerMinute (h_cfg h) \<and>
     (\<forall>peer b. map_of (h_buckets h) peer = Some b \<longrightarrow> 0 \<le> bk_tokens b \<and> bk_last b \<le> t)"

lemma time_sub_lipschitz: "s \<le> t \<Longrightarrow> time_sub t l \<le> time_sub s l + (t - s)"
  by (auto simp: time_sub_def)

lemma time_sub_nonneg: "l \<le> t \<Longrightarrow> 0 \<le> time_sub t l"
  by (simp add: time_sub_def min64_def max64_def)

lemma refill_later:
  assumes "0 \<le> cpm" "s \<le> t"
  shows "refill cpm t b \<le> refill cpm s b + of_int (t - s) / 1000000000 * (of_int cpm / 60)"
proof -
  have "(of_int (time_sub t (bk_last b)) :: rat) \<le> of_int (time_sub s (bk_last b)) + of_int (t - s)"
    using time_sub_lipschitz [OF assms(2), of "bk_last b"] by (simp only: of_int_add [symmetric] of_int_le_iff)
  then have "(of_int (time_sub t (bk_last b)) :: rat) / 1000000000 * (of_int cpm / 60)
      \<le> (of_int (time_sub s (bk_last b)) + of_int (t - s)) / 1000000000 * (of_int cpm / 60)"
    using assms(1) by (intro mult_right_mono divide_right_mono) auto
  moreover have "(0 :: rat) \<le> of_int (t - s) / 1000000000 * (of_int cpm / 60)"
    using assms by (intro mult_nonneg_nonneg divide_nonneg_nonneg) auto
  ultimately show ?thesis by (simp add: refill_def min_def add_divide_distrib distrib_right)
qed

lemma level_later:
  assumes "1 \<le> hc_callsPerMinute (h_cfg h)" "s \<le> t"
  shows "level h peer t \<le> level h peer s + of_int (t - s) / 1000000000 * (of_int (hc_callsPerMinute (h_cfg h)) / 60)"
  using refill_later [of "hc_callsPerMinute (h_cfg h)" s t] assms
  by (auto simp: level_def split: option.splits)

lemma level_le: "level h peer t \<le> of_int (hc_callsPerMinute (h_cfg h))"
  by (simp add: level_def refill_def split: option.splits)

lemma level_nonneg: "buckets_ok h t \<Longrightarrow> 0 \<le> level h peer t"
  by (auto simp: level_def refill_def buckets_ok_def time_sub_nonneg split: option.splits
      intro!: add_nonneg_nonneg mult_nonneg_nonneg)

lemma refill_full: "1 \<le> cpm \<Longrightarrow> refill cpm now \<lparr>bk_tokens = of_int cpm, bk_last = now\<rparr> = of_int cpm"
  by (simp add: refill_def)

lemma takeToken_eq:
  assumes "1 \<le> hc_callsPerMinute (h_cfg h)"
  shows "takeToken h now peer =
    (h\<lparr>h_buckets := gput peer \<lparr>bk_tokens = level h peer now - (if 1 \<le> level h peer now then 1 else 0), bk_last = now\<rparr>
       (h_buckets h)\<rparr>, 1 \<le> level h peer now)"
  using refill_full [OF assms] by (simp add: takeToken_def level_def Let_def not_less split: option.splits)

lemma takeToken_cfg [simp]: "h_cfg (fst (takeToken h now peer)) = h_cfg h"
  by (simp add: takeToken_def Let_def)

lemma level_put: "level (h\<lparr>h_buckets := gput peer b (h_buckets h)\<rparr>) q t =
    (if q = peer then refill (hc_callsPerMinute (h_cfg h)) t b else level h q t)"
  by (simp add: level_def split: option.splits)

lemma takeToken_level:
  assumes "buckets_ok h now"
  shows "level (fst (takeToken h now peer)) q now =
    level h q now - (if q = peer \<and> snd (takeToken h now peer) then 1 else 0)"
    and "snd (takeToken h now peer) \<longleftrightarrow> 1 \<le> level h peer now"
proof -
  have cpm: "1 \<le> hc_callsPerMinute (h_cfg h)" using assms by (simp add: buckets_ok_def)
  have same: "x \<le> of_int cpm \<Longrightarrow> refill cpm now \<lparr>bk_tokens = x, bk_last = now\<rparr> = x" for x cpm
    by (simp add: refill_def)
  have "level h peer now - 1 \<le> of_int (hc_callsPerMinute (h_cfg h))" using level_le [of h peer now] by simp
  then show "level (fst (takeToken h now peer)) q now =
      level h q now - (if q = peer \<and> snd (takeToken h now peer) then 1 else 0)"
    using level_le [of h peer now] by (auto simp: takeToken_eq [OF cpm] same level_put)
  show "snd (takeToken h now peer) \<longleftrightarrow> 1 \<le> level h peer now"
    by (simp add: takeToken_eq [OF cpm])
qed

lemma takeToken_ok:
  assumes "buckets_ok h now" "now \<le> t"
  shows "buckets_ok (fst (takeToken h now peer)) t"
  using assms level_nonneg [OF assms(1), of peer]
  by (auto simp: buckets_ok_def takeToken_eq intro: order_trans split: if_splits)

text \<open>A run of attempts by any callers: the instants and results, in order.\<close>

fun take_run :: "('b, 'i, 'o) harness \<Rightarrow> (instant \<times> string) list \<Rightarrow> ('b, 'i, 'o) harness \<times> bool list" where
  "take_run h [] = (h, [])"
| "take_run h ((t, peer) # es) =
     (let (h', ok) = takeToken h t peer; (h'', oks) = take_run h' es in (h'', ok # oks))"

definition granted :: "string \<Rightarrow> (instant \<times> string) list \<Rightarrow> bool list \<Rightarrow> nat" where
  "granted peer es oks = length (filter (\<lambda>(e, ok). snd e = peer \<and> ok) (zip es oks))"

lemma take_run_bound:
  assumes "buckets_ok h t" "sorted (t # map fst es)"
  shows "of_nat (granted peer es (snd (take_run h es))) \<le>
    level h peer t + of_int (last (t # map fst es) - t) / 1000000000 * (of_int (hc_callsPerMinute (h_cfg h)) / 60)"
  using assms
proof (induction es arbitrary: h t)
  case Nil
  then show ?case by (simp add: granted_def level_nonneg)
next
  case (Cons e es)
  obtain now q where e: "e = (now, q)" by (cases e)
  have t: "t \<le> now" and ok: "buckets_ok h now" and sorted: "sorted (now # map fst es)"
    using Cons.prems by (auto simp: e buckets_ok_def intro: order_trans)
  let ?h = "fst (takeToken h now q)" and ?rate = "of_int (hc_callsPerMinute (h_cfg h)) / 60 :: rat"
  let ?stop = "last (now # map fst es)"
  have "of_nat (granted peer es (snd (take_run ?h es))) \<le> level ?h peer now + of_int (?stop - now) / 1000000000 * ?rate"
    using Cons.IH [OF takeToken_ok [OF ok order.refl] sorted] by simp
  moreover have "level ?h peer now + (if peer = q \<and> snd (takeToken h now q) then 1 else 0) = level h peer now"
    using takeToken_level(1) [OF ok, of q peer] by simp
  moreover have "level h peer now \<le> level h peer t + of_int (now - t) / 1000000000 * ?rate"
    using level_later [of h t now peer] ok t by (simp add: buckets_ok_def)
  moreover have "(of_int (?stop - now) / 1000000000 * ?rate) + of_int (now - t) / 1000000000 * ?rate
      = of_int (?stop - t) / 1000000000 * ?rate"
    by (simp add: diff_divide_distrib left_diff_distrib)
  moreover have "of_nat (granted peer (e # es) (snd (take_run h (e # es)))) =
      of_nat (granted peer es (snd (take_run ?h es))) + (if peer = q \<and> snd (takeToken h now q) then 1 else (0 :: rat))"
    by (auto simp: e granted_def split_beta)
  ultimately show ?case by (auto simp: e)
qed

section \<open>Start-up: laws\<close>

text \<open>The atoms that the interrupted entries owe a caller.\<close>

definition owed :: "string \<Rightarrow> (string \<times> journalEntry) list \<Rightarrow> int" where
  "owed u es = (\<Sum>ke \<leftarrow> es. if je_peer (snd ke) = u then max 0 (je_atoms (snd ke)) else 0)"

lemma owed_simps [simp]:
  "owed u [] = 0"
  "owed u (ke # es) = (if je_peer (snd ke) = u then max 0 (je_atoms (snd ke)) else 0) + owed u es"
  by (simp_all add: owed_def)

lemma owed_nonneg: "0 \<le> owed u es"
  unfolding owed_def by (rule sum_list_nonneg) auto

context durable_billing
begin

lemma refund_all_exact:
  assumes "inv b" "\<And>v. bl_balance B b v + owed v es \<le> max64" "cj_ok j" "cj_synced j"
  shows "inv (fst (refund_all B es (b, j))) \<and> cj_ok (snd (refund_all B es (b, j))) \<and>
    cj_synced (snd (refund_all B es (b, j))) \<and>
    bl_balance B (fst (refund_all B es (b, j))) u = bl_balance B b u + owed u es \<and>
    cj_data (snd (refund_all B es (b, j))) = fold gdel (map fst es) (cj_data j)"
  using assms
proof (induction es arbitrary: b j)
  case Nil
  then show ?case by simp
next
  case (Cons ke es)
  obtain key e where ke: "ke = (key, e)" by (cases ke)
  have "bl_balance B b (je_peer e) + max 0 (je_atoms e) \<le> max64"
    using Cons.prems(2) [of "je_peer e"] owed_nonneg [of "je_peer e" es] by (simp add: ke)
  note credit = credit_max [OF Cons.prems(1) this]
  let ?b = "snd (bl_credit B b (je_peer e) (je_atoms e))"
  have "bl_balance B ?b v + owed v es \<le> max64" for v
    using credit Cons.prems(2) [of v] by (auto simp: ke)
  then show ?case
    using Cons.IH [of ?b "remove j key"] credit Cons.prems(3,4)
    by (simp add: ke split_beta cj_ok_ops cj_synced_ops) (simp add: remove_data)
qed

end

lemma fold_gdel: "fold gdel ks m = filter (\<lambda>kv. fst kv \<notin> set ks) m"
  by (induction ks arbitrary: m) (auto simp: gdel_filter conj_commute intro: filter_cong)

lemma interrupted_removed: "cj_ok j \<Longrightarrow>
    fold gdel (map fst (interrupted j)) (cj_data j) = filter (\<lambda>ke. je_done (snd ke)) (cj_data j)"
  unfolding fold_gdel
  by (rule filter_cong [OF refl]) (auto simp: interrupted_def cj_ok_def gmap_ok_def image_iff dest: eq_key_imp_eq_value)

lemma adopt_fst_snd: "adopt cs cr = fold (\<lambda>kc cr. (gput (fst kc) (length (snd cr)) (fst cr), snd cr @ [snd kc])) cs cr"
  by (induction cs cr rule: adopt.induct) simp_all

lemma adopt_lookup:
  assumes "gmap_ok cs" "\<forall>k r. map_of calls k = Some r \<longrightarrow> r < length recs"
  shows "(\<forall>k c. map_of cs k = Some c \<longrightarrow> (\<exists>r. map_of (fst (adopt cs (calls, recs))) k = Some r \<and>
        r < length (snd (adopt cs (calls, recs))) \<and> snd (adopt cs (calls, recs)) ! r = c)) \<and>
    (\<forall>k. map_of cs k = None \<longrightarrow> map_of (fst (adopt cs (calls, recs))) k = map_of calls k) \<and>
    (\<exists>more. snd (adopt cs (calls, recs)) = recs @ more)"
  using assms
proof (induction cs arbitrary: calls recs)
  case Nil
  then show ?case by simp
next
  case (Cons kc cs)
  obtain k c where kc: "kc = (k, c)" by (cases kc)
  let ?calls = "gput k (length recs) calls" and ?recs = "recs @ [c]"
  have "\<forall>k r. map_of ?calls k = Some r \<longrightarrow> r < length ?recs" using Cons.prems(2) by (auto simp: less_Suc_eq)
  note IH = Cons.IH [OF _ this]
  have "gmap_ok cs" "map_of cs k = None" using Cons.prems(1) by (simp_all add: kc gmap_ok_Cons)
  moreover obtain more where "snd (adopt cs (?calls, ?recs)) = ?recs @ more"
    using IH [OF \<open>gmap_ok cs\<close>] by blast
  ultimately show ?case using IH [OF \<open>gmap_ok cs\<close>]
    by (auto simp: kc nth_append)
qed

section \<open>Properties\<close>


definition demo_harness :: "(ledger, unit, string) harness" where
  "demo_harness = \<lparr>h_cfg = \<lparr>hc_dataDir = True, hc_allowedPeers = [], hc_allowFunc = None, hc_callsPerMinute = 2,
       hc_toolVisible = None\<rparr>, h_billing = \<lparr>ld_balances = [], ld_store = \<lparr>st_file = Absent, st_script = []\<rparr>\<rparr>,
     h_journal = None, h_allowed = [], h_servers = [], h_buckets = [], h_calls = [], h_recs = [], h_tools = []\<rparr>"


text \<open>
  A caller that pauses is served again: once 60 seconds divided by \<^verbatim>\<open>CallsPerMinute\<close> have passed
  since its last attempt, its next attempt is granted.
\<close>

lemma rate_limit_recovers:
  assumes "buckets_ok h now" "map_of (h_buckets h) peer = Some b"
    and "60 * second \<le> (now - bk_last b) * hc_callsPerMinute (h_cfg h)" "now - bk_last b \<le> max64"
  shows "snd (takeToken h now peer)"
proof -
  let ?cpm = "hc_callsPerMinute (h_cfg h)"
  have cpm: "1 \<le> ?cpm" and b: "0 \<le> bk_tokens b" "bk_last b \<le> now"
    using assms(1,2) by (auto simp: buckets_ok_def)
  have "time_sub now (bk_last b) = now - bk_last b" using b(2) assms(4) by (simp add: time_sub_def min64_def)
  moreover have "(of_int (60 * second) :: rat) \<le> of_int ((now - bk_last b) * ?cpm)"
    using assms(3) by (simp only: of_int_le_iff)
  ultimately have "1 \<le> bk_tokens b + of_int (time_sub now (bk_last b)) / 1000000000 * (of_int ?cpm / 60)"
    using b(1) by (simp add: second_def)
  moreover have "(1 :: rat) \<le> of_int ?cpm" using cpm by simp
  ultimately have "1 \<le> level h peer now" using assms(2) by (simp add: level_def refill_def)
  then show ?thesis using takeToken_level(2) [OF assms(1)] by simp
qed

lemma rate_limit_recovers_witness:
  "snd (takeToken (demo_harness\<lparr>h_buckets := [(''alice'', \<lparr>bk_tokens = 0, bk_last = 0\<rparr>)]\<rparr>) (30 * second) ''alice'')"
  by (rule rate_limit_recovers [where b = "\<lparr>bk_tokens = 0, bk_last = 0\<rparr>"])
    (auto simp: demo_harness_def buckets_ok_def second_def max64_def)

text \<open>
  A charge is all or nothing, and the refusal says exactly what is missing. On a sound ledger a
  charge either takes precisely the price from precisely the caller, or leaves the ledger as it is and
  quotes price minus balance; a tip of at least the quoted shortfall makes the retried charge succeed.
\<close>

lemma charge_exact:
  assumes "ledger_sound l" "0 < price" "price \<le> max64"
  shows "case charge ledger_billing l toolName peer price of
      (l', None) \<Rightarrow> price \<le> Balance l peer \<and> Balance l' = (Balance l)(peer := Balance l peer - price)
    | (l', Some pr) \<Rightarrow> l' = l \<and> pr_error pr = ''payment_required'' \<and> pr_shortfall pr = price - Balance l peer \<and> 0 < pr_shortfall pr \<and>
        (\<forall>t. pr_shortfall pr \<le> t \<and> Balance l peer + t \<le> max64 \<longrightarrow>
          snd (charge ledger_billing (snd (Credit l peer t)) toolName peer price) = None)"
proof (cases "price \<le> Balance l peer")
  case True
  then show ?thesis using ledger.debit_covered [OF assms(1,2), of peer]
    by (cases "Debit l peer price") (simp add: charge_def ledger_billing_def)
next
  case False
  then have short: "Balance l peer < price" by simp
  have "0 \<le> Balance l peer" using ledger.balance_range [OF assms(1), of peer] by (simp add: ledger_billing_def)
  then have "sub64 price (Balance l peer) = price - Balance l peer"
    using short assms(3) by (intro sub64_nonneg) auto
  moreover have "snd (charge ledger_billing (snd (Credit l peer t)) toolName peer price) = None"
    if "price - Balance l peer \<le> t" "Balance l peer + t \<le> max64" for t
    using ledger.topped_up [OF assms(1,2), of peer t] short that
    by (simp add: charge_def ledger_billing_def split_beta)
  moreover have "charge ledger_billing l toolName peer price = (l, Some
      \<lparr>pr_error = ''payment_required'', pr_tool = toolName, pr_price = price, pr_balance = Balance l peer,
       pr_shortfall = sub64 price (Balance l peer), pr_rails = [''tip'']\<rparr>)"
    using ledger.debit_short [OF assms(1,2), of peer] short by (simp add: charge_def ledger_billing_def Let_def)
  ultimately show ?thesis using short by simp
qed

lemma charge_exact_witness:
  "case charge ledger_billing (h_billing demo_harness) ''tool'' ''alice'' 5 of
      (l', None) \<Rightarrow> 5 \<le> Balance (h_billing demo_harness) ''alice'' \<and>
        Balance l' = (Balance (h_billing demo_harness))(''alice'' := Balance (h_billing demo_harness) ''alice'' - 5)
    | (l', Some pr) \<Rightarrow> l' = h_billing demo_harness \<and> pr_error pr = ''payment_required'' \<and>
        pr_shortfall pr = 5 - Balance (h_billing demo_harness) ''alice'' \<and> 0 < pr_shortfall pr \<and>
        (\<forall>t. pr_shortfall pr \<le> t \<and> Balance (h_billing demo_harness) ''alice'' + t \<le> max64 \<longrightarrow>
          snd (charge ledger_billing (snd (Credit (h_billing demo_harness) ''alice'' t)) ''tool'' ''alice'' 5) = None)"
  by (rule charge_exact) (simp_all add: demo_harness_def ledger_sound_def ledger_ok_def Balance_def max64_def)

text \<open>
  A charge whose write fails takes the money and refuses the call. The debit stays in memory, the
  caller is answered payment_required, and the quoted shortfall is computed from the reduced balance.
\<close>

lemma charge_failed_write:
  assumes "ledger_ok l" "0 < price" "price \<le> Balance l peer" "st_script (ld_store l) = Some e # es"
  shows "case charge ledger_billing l toolName peer price of
      (l', None) \<Rightarrow> False
    | (l', Some pr) \<Rightarrow> Balance l' peer = Balance l peer - price \<and> pr_shortfall pr = sub64 price (Balance l peer - price)"
proof -
  have "fst (Debit l peer price) = Some (BillingIO e)"
    using assms(2-4) by (simp add: Debit_def Balance_def persist_def)
  then show ?thesis using assms Balance_Debit [of l peer price peer]
    by (cases "Debit l peer price") (simp add: charge_def ledger_billing_def Debit_exact Let_def)
qed

lemma charge_failed_write_witness:
  "case charge ledger_billing demo_ledger ''tool'' ''alice'' 20 of
      (l', None) \<Rightarrow> False
    | (l', Some pr) \<Rightarrow> Balance l' ''alice'' = Balance demo_ledger ''alice'' - 20 \<and>
        pr_shortfall pr = sub64 20 (Balance demo_ledger ''alice'' - 20)"
  by (rule charge_failed_write [where e = WriteFailed and es = "[]"])
    (auto simp: demo_ledger_def ledger_ok_def Balance_def gint_def max64_def)

text \<open>
  C24: A restart settles what the crash left open, once. Opening the journal credits every caller with
  exactly the charges whose execution was interrupted, leaves no interrupted entry, keeps on disk the
  journal it has in memory (so the next start refunds nothing again), and rebuilds the record of every
  completed call that has not expired, so that its duplicates are answered and not executed.
\<close>

theorem openJournal_refunds:
  assumes "ledger_sound (h_billing h)" "ledger_synced (h_billing h)" "openCallJournal store = Inr j" "cj_ok j" "reliable store"
    and "\<And>v. Balance (h_billing h) v + owed v (interrupted j) \<le> max64" "h_calls h = []"
    and "openJournal ledger_billing C now store h = Inr h'"
  shows "Balance (h_billing h') u = Balance (h_billing h) u + owed u (interrupted j) \<and>
    (case h_journal h' of None \<Rightarrow> False | Some j' \<Rightarrow>
      interrupted j' = [] \<and> openCallJournal (cj_store j') = Inr j' \<and>
      (\<forall>key e. map_of (cj_data j) key = Some e \<and> je_done e \<and> \<not> je_expired now e \<longrightarrow>
        map_of (cj_data j') key = Some e \<and>
        (\<exists>r. map_of (h_calls h') key = Some r \<and> r < length (h_recs h') \<and> h_recs h' ! r = rebuild C e)))"
proof -
  have synced: "cj_synced j" using assms(3,5)
    by (cases j) (auto simp: cj_synced_def openCallJournal_def split: sum.splits)
  have inv: "ledger_durably (h_billing h)" using assms(1,2) by simp
  have fits: "bl_balance ledger_billing (h_billing h) v + owed v (interrupted j) \<le> max64" for v
    using assms(6) by (simp add: ledger_billing_def)
  obtain b j1 where r: "refund_all ledger_billing (interrupted j) (h_billing h, j) = (b, j1)" by fastforce
  note refund = durable_ledger.refund_all_exact [OF inv fits assms(4) synced, of u, unfolded r]
  have bal: "Balance b u = Balance (h_billing h) u + owed u (interrupted j)"
    using refund by (simp add: ledger_billing_def)
  have j1: "cj_ok j1" "cj_synced j1" "cj_data j1 = filter (\<lambda>ke. je_done (snd ke)) (cj_data j)"
    using refund interrupted_removed [OF assms(4)] by simp_all
  obtain calls recs where a: "adopt (completedRecords C j1 now) ([], h_recs h) = (calls, recs)" by fastforce
  have h': "h' = h\<lparr>h_billing := b, h_journal := Some (cj_gc j1 now), h_calls := calls, h_recs := recs\<rparr>"
    using assms(3,7,8) by (simp add: openJournal_def r a)
  have ok: "gmap_ok (completedRecords C j1 now)"
    using j1(1) by (simp add: completedRecords_def cj_ok_def gmap_ok_def case_prod_unfold comp_def distinct_map_filter)
  have gc: "cj_synced (cj_gc j1 now)" using j1(2) by (rule cj_synced_ops)
  have "interrupted (cj_gc j1 now) = []" by (auto simp: interrupted_def gc_data j1(3) filter_empty_conv)
  moreover have "map_of (cj_data (cj_gc j1 now)) key = Some e \<and>
      (\<exists>r. map_of calls key = Some r \<and> r < length recs \<and> recs ! r = rebuild C e)"
    if "map_of (cj_data j) key = Some e" "je_done e" "\<not> je_expired now e" for key e
  proof -
    have "map_of (cj_data j1) key = Some e"
      using that assms(4) by (simp add: j1(3) map_of_filter cj_ok_def)
    then have "map_of (completedRecords C j1 now) key = Some (rebuild C e)" "map_of (cj_data (cj_gc j1 now)) key = Some e"
      using that by (simp_all add: completedRecords_lookup [OF j1(1)] gc_lookup [OF j1(1)])
    then show ?thesis using adopt_lookup [OF ok, of "[]" "h_recs h"] by (simp add: a)
  qed
  ultimately show ?thesis using bal gc by (simp add: h' cj_synced_def)
qed

definition demo_call_codec :: "(CallToolResult, string) codec" where
  "demo_call_codec = \<lparr>cd_result = (\<lambda>r. None), cd_unresult = (\<lambda>s. None), cd_out = (\<lambda>v. Some (''v'' @ v))\<rparr>"

definition demo_interrupted :: callJournal where
  "demo_interrupted = (let d = [(''alice|key'', \<lparr>je_peer = ''alice'', je_atoms = 5, je_done = False, je_expires = 0,
       je_kept = False, je_result = '''', je_out = '''', je_err = ''''\<rparr>)] in
     \<lparr>cj_data = d, cj_store = \<lparr>st_file = Holds d, st_script = []\<rparr>\<rparr>)"

theorem openJournal_refunds_witness:
  "case openJournal ledger_billing demo_call_codec 0 (cj_store demo_interrupted) demo_harness of
     Inl e \<Rightarrow> False
   | Inr h' \<Rightarrow> Balance (h_billing h') ''alice'' = Balance (h_billing demo_harness) ''alice'' + owed ''alice'' (interrupted demo_interrupted)"
proof -
  have j: "openCallJournal (cj_store demo_interrupted) = Inr demo_interrupted"
    by (simp add: demo_interrupted_def openCallJournal_def open_file_def Let_def)
  then obtain h' where h': "openJournal ledger_billing demo_call_codec 0 (cj_store demo_interrupted) demo_harness = Inr h'"
    by (simp add: openJournal_def split_beta Let_def)
  have "Balance (h_billing h') ''alice'' = Balance (h_billing demo_harness) ''alice'' + owed ''alice'' (interrupted demo_interrupted)"
    by (rule openJournal_refunds [OF _ _ j _ _ _ _ h', THEN conjunct1])
      (auto simp: demo_harness_def demo_interrupted_def ledger_sound_def ledger_ok_def Balance_def max64_def
        ledger_synced_iff open_file_def cj_ok_def gmap_ok_def interrupted_def Let_def)
  then show ?thesis using h' by simp
qed

end
