(* ===== verification/Calls.thy ===== *)
theory Calls
  imports Harness
begin

text \<open>
  Concurrent tool calls on one harness. A \<open>system\<close> is a harness, the calls made on it so far, each at its
  phase, and what every caller has put in; a step lets a call arrive, advances one call, or credits a
  tip. The invariants say who owns a key and where every atom is, in every interleaving.
\<close>

section \<open>The step relation\<close>

record ('b, 'i, 'o) system =
  sy_h :: "('b, 'i, 'o) harness"
  sy_calls :: "('i, 'o) invocation list"
  sy_funded :: "string \<Rightarrow> int"

datatype ('i, 'o) label = Arrive "('i, 'o) invocation" | Advance nat "'o choice" | TopUp string int

inductive sys_step :: "'b Billing \<Rightarrow> (CallToolResult, 'o) codec \<Rightarrow> (PaymentRequired \<Rightarrow> string option) \<Rightarrow>
    ('b, 'i, 'o) system \<Rightarrow> ('i, 'o) label \<Rightarrow> ('b, 'i, 'o) system \<Rightarrow> bool"
  for B C M where
  arrive: "in_phase v = Arrived \<Longrightarrow> in_paid v = 0 \<Longrightarrow>
    sys_step B C M s (Arrive v) (s\<lparr>sy_calls := sy_calls s @ [v]\<rparr>)"
| call: "i < length (sy_calls s) \<Longrightarrow> advance B C M ch (sy_h s, sy_calls s ! i) = Some (h, v) \<Longrightarrow>
    sys_step B C M s (Advance i ch) (s\<lparr>sy_h := h, sy_calls := (sy_calls s)[i := v]\<rparr>)"
| topup: "0 < n \<Longrightarrow> sy_funded s u + n \<le> max64 \<Longrightarrow>
    sys_step B C M s (TopUp u n) (s\<lparr>sy_h := (sy_h s)\<lparr>h_billing := snd (bl_credit B (h_billing (sy_h s)) u n)\<rparr>,
      sy_funded := (sy_funded s)(u := sy_funded s u + n)\<rparr>)"

inductive_cases sys_stepE: "sys_step B C M s l s'"
inductive_simps sys_step_Advance: "sys_step B C M s (Advance i ch) s'"

text \<open>A harness as it stands after start-up: nobody is calling, every record is a completed one.\<close>

definition sys_init :: "'b Billing \<Rightarrow> ('b, 'i, 'o) system \<Rightarrow> bool" where
  "sys_init B s \<longleftrightarrow> sy_calls s = [] \<and> gmap_ok (h_calls (sy_h s)) \<and>
     (\<forall>k r. map_of (h_calls (sy_h s)) k = Some r \<longrightarrow> r < length (h_recs (sy_h s)) \<and> rec_done (h_recs (sy_h s) ! r)) \<and>
     sy_funded s = bl_balance B (h_billing (sy_h s))"

inductive reachable :: "'b Billing \<Rightarrow> ('b \<Rightarrow> bool) \<Rightarrow> (CallToolResult, 'o) codec \<Rightarrow> (PaymentRequired \<Rightarrow> string option) \<Rightarrow>
    ('b, 'i, 'o) system \<Rightarrow> bool"
  for B inv C M where
  start: "sys_init B s \<Longrightarrow> inv (h_billing (sy_h s)) \<Longrightarrow> reachable B inv C M s"
| step: "reachable B inv C M s \<Longrightarrow> sys_step B C M s l s' \<Longrightarrow> reachable B inv C M s'"

text \<open>Steps taken no later than an instant.\<close>

fun not_after :: "instant \<Rightarrow> ('i, 'o) label \<Rightarrow> bool" where
  "not_after t (Advance i ch) = (ch_now ch \<le> t)"
| "not_after t (Arrive v) = True"
| "not_after t (TopUp u n) = True"

inductive sys_path :: "'b Billing \<Rightarrow> (CallToolResult, 'o) codec \<Rightarrow> (PaymentRequired \<Rightarrow> string option) \<Rightarrow> instant \<Rightarrow>
    ('b, 'i, 'o) system \<Rightarrow> ('b, 'i, 'o) system \<Rightarrow> bool"
  for B C M t where
  stay: "sys_path B C M t s s"
| go: "sys_path B C M t s s' \<Longrightarrow> sys_step B C M s' l s'' \<Longrightarrow> not_after t l \<Longrightarrow> sys_path B C M t s s''"

section \<open>Who owns a key\<close>

text \<open>The record a call has claimed and not yet finished or released.\<close>

fun held :: "'o phase \<Rightarrow> nat option" where
  "held (Admitted r) = r"
| "held (Quoted r p) = r"
| "held (Charged r p) = r"
| "held (Running r p) = r"
| "held (Settled r resp) = r"
| "held (Refused r resp) = r"
| "held _ = None"

definition fresh_rec :: "('r, 'o) callRecord" where
  "fresh_rec = \<lparr>rec_done = False, rec_result = None, rec_out = None, rec_err = None, rec_expires = None\<rparr>"

definition claims_ok :: "('b, 'i, 'o) harness \<Rightarrow> ('i, 'o) invocation list \<Rightarrow> bool" where
  "claims_ok h vs \<longleftrightarrow> gmap_ok (h_calls h) \<and>
     (\<forall>k r. map_of (h_calls h) k = Some r \<longrightarrow> r < length (h_recs h)) \<and>
     (\<forall>i < length vs. \<forall>r. held (in_phase (vs ! i)) = Some r \<longrightarrow>
        call_key (vs ! i) \<noteq> '''' \<and> map_of (h_calls h) (call_key (vs ! i)) = Some r \<and> h_recs h ! r = fresh_rec) \<and>
     (\<forall>i < length vs. \<forall>r. in_phase (vs ! i) = Waiting r \<longrightarrow> r < length (h_recs h))"

text \<open>Two owners of one key hold the same record; one record has one owner.\<close>

definition owners_ok :: "('i, 'o) invocation list \<Rightarrow> bool" where
  "owners_ok vs \<longleftrightarrow> (\<forall>i < length vs. \<forall>j < length vs. \<forall>r.
     held (in_phase (vs ! i)) = Some r \<and> held (in_phase (vs ! j)) = Some r \<longrightarrow> i = j)"

definition same_call :: "('i, 'o) invocation \<Rightarrow> ('i, 'o) invocation \<Rightarrow> bool" where
  "same_call v v' \<longleftrightarrow> in_peer v' = in_peer v \<and> in_tool v' = in_tool v \<and> in_callKey v' = in_callKey v \<and> in_args v' = in_args v"

lemma call_key_phase [simp]: "call_key (v\<lparr>in_phase := p\<rparr>) = call_key v" "call_key (v\<lparr>in_paid := n\<rparr>) = call_key v"
  by (simp_all add: call_key_def split: option.splits)

lemma same_call_key: "same_call v v' \<Longrightarrow> call_key v' = call_key v"
  by (simp add: same_call_def call_key_def split: option.splits)

lemma advance_same_call: "advance B C M ch (h, v) = Some (h', v') \<Longrightarrow> same_call v v'"
  by (cases "in_phase v") (auto simp: advance_def same_call_def Let_def split: prod.splits option.splits sum.splits if_splits)

text \<open>What a step does to the keys and records, phase by phase.\<close>

lemma takeToken_calls [simp]:
  "h_calls (fst (takeToken h t p)) = h_calls h" "h_recs (fst (takeToken h t p)) = h_recs h"
  "h_billing (fst (takeToken h t p)) = h_billing h"
  by (simp_all add: takeToken_def Let_def)

lemma advance_quiet:
  assumes "advance B C M ch (h, v) = Some (h', v')"
    and "in_phase v = Arrived \<Longrightarrow> call_key v = ''''"
    and "\<And>r resp. in_phase v \<noteq> Settled (Some r) resp" "\<And>r resp. in_phase v \<noteq> Refused (Some r) resp"
  shows "h_calls h' = h_calls h \<and> h_recs h' = h_recs h \<and> held (in_phase v') = held (in_phase v) \<and>
    (\<forall>r. in_phase v' \<noteq> Waiting r)"
proof (cases "in_phase v")
  case (Admitted r)
  obtain g ok where g: "takeToken h (ch_now ch) (in_peer v) = (g, ok)" by fastforce
  then have "h_calls g = h_calls h" "h_recs g = h_recs h"
    using takeToken_calls [of h "ch_now ch" "in_peer v"] by simp_all
  then show ?thesis using assms(1) Admitted g
    by (auto simp: advance_def Let_def split: if_splits sum.splits)
next
  case (Settled r resp)
  then show ?thesis using assms by (cases r) (auto simp: advance_def Let_def)
next
  case (Refused r resp)
  then show ?thesis using assms by (cases r) (auto simp: advance_def Let_def)
qed (use assms in \<open>auto simp: advance_def Let_def split: prod.splits option.splits sum.splits if_splits\<close>)

lemma advance_claim:
  assumes "in_phase v = Arrived" "call_key v \<noteq> ''''" "gmap_ok (h_calls h)"
  shows "advance B C M ch (h, v) =
    (let calls = filter (\<lambda>kr. \<not> call_stale (h_recs h) (ch_now ch) (snd kr)) (h_calls h);
         g = h\<lparr>h_calls := calls, h_journal := map_option (\<lambda>j. cj_gc j (ch_now ch)) (h_journal h)\<rparr> in
     case map_of calls (call_key v) of
       Some r \<Rightarrow> Some (g, v\<lparr>in_phase := Waiting r\<rparr>)
     | None \<Rightarrow> Some (g\<lparr>h_calls := gput (call_key v) (length (h_recs h)) calls, h_recs := h_recs h @ [fresh_rec]\<rparr>,
                v\<lparr>in_phase := Admitted (Some (length (h_recs h)))\<rparr>))"
  using assms by (simp add: advance_def claimCall_def Let_def fresh_rec_def split: option.splits)

lemma advance_arrived: "in_phase v = Arrived \<Longrightarrow> \<exists>h' v'. advance B C M ch (h, v) = Some (h', v')"
  by (cases "claimCall h (ch_now ch) (call_key v)") (auto simp: advance_def Let_def)

lemma advance_settle:
  "in_phase v = Settled (Some a) resp \<Longrightarrow>
    advance B C M ch (h, v) = Some (completeCall C h (ch_now ch) (call_key v) a resp, v\<lparr>in_phase := Answered resp\<rparr>)"
  by (simp add: advance_def Let_def)

lemma advance_refuse:
  "in_phase v = Refused (Some a) resp \<Longrightarrow>
    advance B C M ch (h, v) = Some (releaseCall h (call_key v) a, v\<lparr>in_phase := Answered resp\<rparr>)"
  by (simp add: advance_def Let_def)

lemma completeCall_simps [simp]:
  "h_calls (completeCall C h t k a resp) = h_calls h" "h_billing (completeCall C h t k a resp) = h_billing h"
  "h_recs (completeCall C h t k a (x, y, z)) = (h_recs h)[a := \<lparr>rec_done = True, rec_result = x, rec_out = y,
     rec_err = z, rec_expires = Some (t + callKeyTTL)\<rparr>]"
  by (simp_all add: completeCall_def Let_def split_beta)

lemma releaseCall_simps [simp]:
  "h_calls (releaseCall h k a) = gdel k (h_calls h)" "h_billing (releaseCall h k a) = h_billing h"
  "h_recs (releaseCall h k a) = (h_recs h)[a := (h_recs h ! a)\<lparr>rec_done := True\<rparr>]"
  by (simp_all add: releaseCall_def)

section \<open>Ownership is kept\<close>

definition owns :: "('b, 'i, 'o) harness \<Rightarrow> ('i, 'o) invocation \<Rightarrow> bool" where
  "owns h v \<longleftrightarrow>
     (\<forall>r. held (in_phase v) = Some r \<longrightarrow>
        call_key v \<noteq> '''' \<and> map_of (h_calls h) (call_key v) = Some r \<and> h_recs h ! r = fresh_rec) \<and>
     (\<forall>r. in_phase v = Waiting r \<longrightarrow> r < length (h_recs h))"

definition keys_ok :: "('b, 'i, 'o) harness \<Rightarrow> bool" where
  "keys_ok h \<longleftrightarrow> gmap_ok (h_calls h) \<and> (\<forall>k r. map_of (h_calls h) k = Some r \<longrightarrow> r < length (h_recs h))"

lemma claims_ok_alt: "claims_ok h vs \<longleftrightarrow> keys_ok h \<and> (\<forall>i < length vs. owns h (vs ! i))"
  by (auto simp: claims_ok_def keys_ok_def owns_def)

lemma claims_update:
  assumes "claims_ok h vs" "i < length vs" "keys_ok h'" "owns h' v"
    and "\<And>j. j < length vs \<Longrightarrow> j \<noteq> i \<Longrightarrow> owns h (vs ! j) \<Longrightarrow> owns h' (vs ! j)"
  shows "claims_ok h' (vs[i := v])"
  using assms by (auto simp: claims_ok_alt nth_list_update)

lemma owners_inj: "owners_ok vs \<Longrightarrow> i < length vs \<Longrightarrow> j < length vs \<Longrightarrow> held (in_phase (vs ! i)) = Some r \<Longrightarrow>
    held (in_phase (vs ! j)) = Some r \<Longrightarrow> i = j"
  unfolding owners_ok_def by blast

lemma owners_update:
  assumes "owners_ok vs" "i < length vs"
    and "\<And>j r. j < length vs \<Longrightarrow> j \<noteq> i \<Longrightarrow> held (in_phase v) = Some r \<Longrightarrow> held (in_phase (vs ! j)) \<noteq> Some r"
  shows "owners_ok (vs[i := v])"
  unfolding owners_ok_def
proof (intro allI impI)
  fix j k r
  assume "j < length (vs[i := v])" "k < length (vs[i := v])"
    "held (in_phase (vs[i := v] ! j)) = Some r \<and> held (in_phase (vs[i := v] ! k)) = Some r"
  then show "j = k" using assms(2) assms(3) [of j r] assms(3) [of k r] owners_inj [OF assms(1), of j k r]
    by (cases "j = i"; cases "k = i") auto
qed

text \<open>Nobody else owns the key or the record that a call owns.\<close>

lemma sole_owner:
  assumes "claims_ok h vs" "owners_ok vs" "i < length vs" "j < length vs" "i \<noteq> j"
    and "held (in_phase (vs ! i)) = Some r" "held (in_phase (vs ! j)) = Some r'"
  shows "r \<noteq> r'" "call_key (vs ! i) \<noteq> call_key (vs ! j)"
proof -
  show ne: "r \<noteq> r'" using owners_inj [OF assms(2-4), of r] assms(5-7) by auto
  have "map_of (h_calls h) (call_key (vs ! i)) = Some r" "map_of (h_calls h) (call_key (vs ! j)) = Some r'"
    using assms(1,3,4,6,7) unfolding claims_ok_def by blast+
  then show "call_key (vs ! i) \<noteq> call_key (vs ! j)" using ne by auto
qed

lemma claims_quiet:
  assumes "claims_ok h vs" "owners_ok vs" "i < length vs" "same_call (vs ! i) v"
    and "h_calls h' = h_calls h" "h_recs h' = h_recs h" "held (in_phase v) = held (in_phase (vs ! i))"
    and "\<forall>r. in_phase v \<noteq> Waiting r"
  shows "claims_ok h' (vs[i := v]) \<and> owners_ok (vs[i := v])"
proof
  have "owns h (vs ! i)" using assms(1,3) by (simp add: claims_ok_alt)
  then show "claims_ok h' (vs[i := v])"
    using assms(5-8) same_call_key [OF assms(4)]
    by (intro claims_update [OF assms(1,3)]) (use assms(1) in \<open>auto simp: owns_def keys_ok_def claims_ok_alt\<close>)
  show "owners_ok (vs[i := v])"
  proof (rule owners_update [OF assms(2,3)])
    show "held (in_phase (vs ! j)) \<noteq> Some r" if "j < length vs" "j \<noteq> i" "held (in_phase v) = Some r" for j r
      using owners_inj [OF assms(2) that(1) assms(3), of r] that assms(7) by auto
  qed
qed

text \<open>A finished or released record is no longer anybody's; the other owners keep theirs.\<close>

lemma claims_finish:
  assumes "claims_ok h vs" "owners_ok vs" "i < length vs" "held (in_phase (vs ! i)) = Some a"
    and "h_recs h' = (h_recs h)[a := c]" "keys_ok h'" "in_phase v = Answered resp"
    and "\<And>k. k \<noteq> call_key (vs ! i) \<Longrightarrow> map_of (h_calls h') k = map_of (h_calls h) k"
  shows "claims_ok h' (vs[i := v]) \<and> owners_ok (vs[i := v])"
proof
  show "claims_ok h' (vs[i := v])"
  proof (rule claims_update [OF assms(1,3,6)])
    show "owns h' v" using assms(7) by (simp add: owns_def)
    show "owns h' (vs ! j)" if "j < length vs" "j \<noteq> i" "owns h (vs ! j)" for j
    proof -
      have "r \<noteq> a" "call_key (vs ! j) \<noteq> call_key (vs ! i)" if "held (in_phase (vs ! j)) = Some r" for r
        using sole_owner [OF assms(1-3) \<open>j < length vs\<close> _ assms(4) that] \<open>j \<noteq> i\<close> by auto
      then show ?thesis using \<open>owns h (vs ! j)\<close> assms(5,8) by (auto simp: owns_def nth_list_update)
    qed
  qed
  show "owners_ok (vs[i := v])"
    using assms(2,3,7) by (intro owners_update) simp_all
qed

lemma live_not_stale: "recs ! r = fresh_rec \<Longrightarrow> \<not> call_stale recs t r"
  by (simp add: call_stale_def fresh_rec_def)

lemma claims_claim:
  assumes "claims_ok h vs" "owners_ok vs" "i < length vs" "in_phase (vs ! i) = Arrived" "call_key (vs ! i) \<noteq> ''''"
    and "advance B C M ch (h, vs ! i) = Some (h', v)"
  shows "claims_ok h' (vs[i := v]) \<and> owners_ok (vs[i := v])"
proof -
  define calls where "calls = filter (\<lambda>kr. \<not> call_stale (h_recs h) (ch_now ch) (snd kr)) (h_calls h)"
  define g where "g = h\<lparr>h_calls := calls, h_journal := map_option (\<lambda>j. cj_gc j (ch_now ch)) (h_journal h)\<rparr>"
  have keys: "keys_ok h" using assms(1) by (simp add: claims_ok_alt)
  then have gm: "gmap_ok (h_calls h)" by (simp add: keys_ok_def)
  have calls: "map_of calls k = (case map_of (h_calls h) k of None \<Rightarrow> None
      | Some r \<Rightarrow> if call_stale (h_recs h) (ch_now ch) r then None else Some r)" for k
    unfolding calls_def using gm by (auto simp: map_of_filter split: option.splits)
  have gm': "gmap_ok calls" using gm unfolding calls_def by (rule gmap_ok_filter)
  have inrange: "map_of calls k = Some r \<Longrightarrow> r < length (h_recs h)" for k r
    using keys by (auto simp: calls keys_ok_def split: option.splits if_splits)
  note adv = assms(6) [unfolded advance_claim [OF assms(4,5) gm] Let_def, folded calls_def, folded g_def]
  have others: "owns h w \<Longrightarrow> held (in_phase w) = Some r \<Longrightarrow> map_of calls (call_key w) = Some r \<and>
      r < length (h_recs h)" for w r
    using keys by (auto simp: owns_def calls live_not_stale keys_ok_def)
  have held_new: "j < length vs \<Longrightarrow> held (in_phase (vs ! j)) \<noteq> Some (length (h_recs h))" for j
    using others [of "vs ! j" "length (h_recs h)"] assms(1) by (auto simp: claims_ok_alt)
  show ?thesis
  proof (cases "map_of calls (call_key (vs ! i))")
    case (Some r)
    then have h': "h' = g" "v = (vs ! i)\<lparr>in_phase := Waiting r\<rparr>" using adv by simp_all
    have "claims_ok h' (vs[i := v])"
    proof (rule claims_update [OF assms(1,3)])
      show "keys_ok h'" using gm' inrange by (simp add: h' g_def keys_ok_def)
      show "owns h' v" using inrange [OF Some] by (simp add: h' g_def owns_def)
      show "owns h' (vs ! j)" if "owns h (vs ! j)" for j
        using that others [OF that] by (auto simp: owns_def h' g_def)
    qed
    moreover have "owners_ok (vs[i := v])" by (rule owners_update [OF assms(2,3)]) (simp add: h')
    ultimately show ?thesis ..
  next
    case None
    then have h': "h' = g\<lparr>h_calls := gput (call_key (vs ! i)) (length (h_recs h)) calls, h_recs := h_recs h @ [fresh_rec]\<rparr>"
      "v = (vs ! i)\<lparr>in_phase := Admitted (Some (length (h_recs h)))\<rparr>" using adv by simp_all
    have "claims_ok h' (vs[i := v])"
    proof (rule claims_update [OF assms(1,3)])
      show "keys_ok h'" using gm' inrange by (auto simp: h' g_def keys_ok_def less_SucI)
      show "owns h' v" using assms(5) by (simp add: h' g_def owns_def)
      show "owns h' (vs ! j)" if "owns h (vs ! j)" for j
        using that others [OF that] None by (auto simp: owns_def h' g_def nth_append less_SucI)
    qed
    moreover have "owners_ok (vs[i := v])" by (rule owners_update [OF assms(2,3)]) (auto simp: h' dest: held_new)
    ultimately show ?thesis ..
  qed
qed

lemma claims_advance:
  assumes "claims_ok h vs" "owners_ok vs" "i < length vs" "advance B C M ch (h, vs ! i) = Some (h', v)"
  shows "claims_ok h' (vs[i := v]) \<and> owners_ok (vs[i := v])"
proof -
  have keys: "keys_ok h" using assms(1) by (simp add: claims_ok_alt)
  consider (claim) "in_phase (vs ! i) = Arrived" "call_key (vs ! i) \<noteq> ''''"
    | (settle) a resp where "in_phase (vs ! i) = Settled (Some a) resp"
    | (refuse) a resp where "in_phase (vs ! i) = Refused (Some a) resp"
    | (quiet) "in_phase (vs ! i) = Arrived \<Longrightarrow> call_key (vs ! i) = ''''"
        "\<And>r resp. in_phase (vs ! i) \<noteq> Settled (Some r) resp" "\<And>r resp. in_phase (vs ! i) \<noteq> Refused (Some r) resp"
    by blast
  then show ?thesis
  proof cases
    case claim
    then show ?thesis using claims_claim assms by blast
  next
    case settle
    obtain x y z where resp: "resp = (x, y, z)" by (cases resp)
    have "h' = completeCall C h (ch_now ch) (call_key (vs ! i)) a resp" "in_phase v = Answered resp"
      using assms(4) by (auto simp: advance_settle [OF settle])
    then show ?thesis using settle keys
      by (intro claims_finish [OF assms(1-3)]) (auto simp: resp keys_ok_def)
  next
    case refuse
    have "h' = releaseCall h (call_key (vs ! i)) a" "in_phase v = Answered resp"
      using assms(4) by (auto simp: advance_refuse [OF refuse])
    then show ?thesis using refuse keys
      by (intro claims_finish [OF assms(1-3)]) (auto simp: keys_ok_def split: if_splits)
  next
    case quiet
    show ?thesis
      using advance_quiet [OF assms(4) quiet] claims_quiet [OF assms(1-3) advance_same_call [OF assms(4)]] by blast
  qed
qed

lemma claims_arrive:
  assumes "claims_ok h vs" "owners_ok vs" "in_phase v = Arrived"
  shows "claims_ok h (vs @ [v]) \<and> owners_ok (vs @ [v])"
proof
  show "claims_ok h (vs @ [v])"
    using assms(1,3) by (auto simp: claims_ok_alt owns_def nth_append less_Suc_eq)
  show "owners_ok (vs @ [v])"
    unfolding owners_ok_def
  proof (intro allI impI)
    fix i j r
    assume "i < length (vs @ [v])" "j < length (vs @ [v])"
      "held (in_phase ((vs @ [v]) ! i)) = Some r \<and> held (in_phase ((vs @ [v]) ! j)) = Some r"
    then show "i = j" using assms(3) owners_inj [OF assms(2), of i j r]
      by (auto simp: nth_append split: if_splits)
  qed
qed

definition sys_ok :: "('b, 'i, 'o) system \<Rightarrow> bool" where
  "sys_ok s \<longleftrightarrow> claims_ok (sy_h s) (sy_calls s) \<and> owners_ok (sy_calls s)"

lemma sys_ok_step [inv_intros]: "sys_step B C M s l s' \<Longrightarrow> sys_ok s \<Longrightarrow> sys_ok s'"
proof (induction rule: sys_step.induct)
  case (arrive v s)
  then show ?case using claims_arrive [of "sy_h s" "sy_calls s" v] by (simp add: sys_ok_def)
next
  case (call i s ch h v)
  then show ?case using claims_advance [of "sy_h s" "sy_calls s" i] by (simp add: sys_ok_def)
next
  case (topup n s u)
  then show ?case by (simp add: sys_ok_def claims_ok_def)
qed

lemma sys_ok_reachable: "reachable B I C M s \<Longrightarrow> sys_ok s"
  by (induction rule: reachable.induct)
    (auto simp: sys_ok_step, auto simp: sys_init_def sys_ok_def claims_ok_def owners_ok_def)

section \<open>A completed outcome stays\<close>

lemma advance_keeps_completed:
  assumes "claims_ok h vs" "i < length vs" "advance B C M ch (h, vs ! i) = Some (h', v)"
    and "map_of (h_calls h) k = Some a" "h_recs h ! a = c" "rec_expires c = Some e" "ch_now ch \<le> e"
  shows "map_of (h_calls h') k = Some a \<and> h_recs h' ! a = c"
proof -
  have keys: "keys_ok h" and own: "owns h (vs ! i)" using assms(1,2) by (auto simp: claims_ok_alt)
  have a: "a < length (h_recs h)" using keys assms(4) by (simp add: keys_ok_def)
  have other: "r \<noteq> a" "call_key (vs ! i) \<noteq> k" if "held (in_phase (vs ! i)) = Some r" for r
    using own that assms(4-6) by (auto simp: owns_def fresh_rec_def)
  consider (claim) "in_phase (vs ! i) = Arrived" "call_key (vs ! i) \<noteq> ''''"
    | (settle) r resp where "in_phase (vs ! i) = Settled (Some r) resp"
    | (refuse) r resp where "in_phase (vs ! i) = Refused (Some r) resp"
    | (quiet) "in_phase (vs ! i) = Arrived \<Longrightarrow> call_key (vs ! i) = ''''"
        "\<And>r resp. in_phase (vs ! i) \<noteq> Settled (Some r) resp" "\<And>r resp. in_phase (vs ! i) \<noteq> Refused (Some r) resp"
    by blast
  then show ?thesis
  proof cases
    case claim
    let ?calls = "filter (\<lambda>kr. \<not> call_stale (h_recs h) (ch_now ch) (snd kr)) (h_calls h)"
    have gm: "gmap_ok (h_calls h)" using keys by (simp add: keys_ok_def)
    have "map_of ?calls k = Some a"
      using gm assms(4-7) by (simp add: map_of_filter call_stale_def)
    then show ?thesis
      using assms(3) a assms(5)
      by (auto simp: advance_claim [OF claim gm] Let_def nth_append split: option.splits)
  next
    case settle
    obtain x y z where resp: "resp = (x, y, z)" by (cases resp)
    have "h' = completeCall C h (ch_now ch) (call_key (vs ! i)) r resp"
      using assms(3) by (auto simp: advance_settle [OF settle])
    then show ?thesis using other settle assms(4,5) by (simp add: resp)
  next
    case refuse
    have "h' = releaseCall h (call_key (vs ! i)) r"
      using assms(3) by (auto simp: advance_refuse [OF refuse])
    then show ?thesis using other refuse assms(4,5) by auto
  next
    case quiet
    then show ?thesis using advance_quiet [OF assms(3) quiet] assms(4,5) by simp
  qed
qed

lemma path_keeps_completed:
  assumes "sys_path B C M e s s'" "sys_ok s"
    and "map_of (h_calls (sy_h s)) k = Some a" "h_recs (sy_h s) ! a = c" "rec_expires c = Some e"
  shows "sys_ok s' \<and> map_of (h_calls (sy_h s')) k = Some a \<and> h_recs (sy_h s') ! a = c"
  using assms
proof (induction rule: sys_path.induct)
  case (stay s)
  then show ?case by simp
next
  case (go s s' l s'')
  then have IH: "sys_ok s'" "map_of (h_calls (sy_h s')) k = Some a" "h_recs (sy_h s') ! a = c" by simp_all
  have "map_of (h_calls (sy_h s'')) k = Some a \<and> h_recs (sy_h s'') ! a = c"
    using go.hyps(2)
  proof cases
    case (call i ch h v)
    then show ?thesis
      using advance_keeps_completed [of "sy_h s'" "sy_calls s'" i B C M ch h v k a c e] IH go.hyps(3) go.prems(4)
      by (simp add: sys_ok_def)
  qed (use IH in simp_all)
  then show ?case using sys_ok_step [OF go.hyps(2) IH(1)] by blast
qed

section \<open>Where the money is\<close>

definition final_ok :: "('i, 'o) invocation \<Rightarrow> 'o response \<Rightarrow> bool" where
  "final_ok v resp \<longleftrightarrow> (in_paid v = 0 \<or> 0 < in_paid v \<and> t_price (in_tool v) (in_peer v) (in_args v) = Inr (in_paid v)) \<and>
     (fst resp \<noteq> None \<or> snd (snd resp) \<noteq> None \<longrightarrow> in_paid v = 0)"

text \<open>What a call has paid at each phase: nothing before the charge, the quoted price while it runs,
  nothing again if it was refused or failed.\<close>

definition paid_ok :: "('i, 'o) invocation \<Rightarrow> bool" where
  "paid_ok v \<longleftrightarrow> (let quote = t_price (in_tool v) (in_peer v) (in_args v) in case in_phase v of
     Quoted r p \<Rightarrow> in_paid v = 0 \<and> quote = Inr p
   | Charged r p \<Rightarrow> in_paid v = p \<and> 0 < p \<and> quote = Inr p
   | Running r p \<Rightarrow> in_paid v = max 0 p \<and> quote = Inr p
   | Settled r resp \<Rightarrow> final_ok v resp
   | Answered resp \<Rightarrow> final_ok v resp
   | _ \<Rightarrow> in_paid v = 0)"

lemma paid_ok_final: "paid_ok v \<Longrightarrow>
    (in_paid v = 0 \<or> 0 < in_paid v \<and> t_price (in_tool v) (in_peer v) (in_args v) = Inr (in_paid v)) \<and>
    (case in_phase v of Answered resp \<Rightarrow> (fst resp \<noteq> None \<or> snd (snd resp) \<noteq> None \<longrightarrow> in_paid v = 0) | _ \<Rightarrow> True)"
  by (cases "in_phase v") (auto simp: paid_ok_def final_ok_def Let_def max_def split: if_splits)

definition spent :: "string \<Rightarrow> ('i, 'o) invocation list \<Rightarrow> int" where
  "spent u vs = (\<Sum>v \<leftarrow> vs. if in_peer v = u then in_paid v else 0)"

lemma spent_update: "i < length vs \<Longrightarrow> in_peer v = in_peer (vs ! i) \<Longrightarrow>
    spent u (vs[i := v]) = spent u vs + (if in_peer v = u then in_paid v - in_paid (vs ! i) else 0)"
  unfolding spent_def by (induction vs arbitrary: i) (auto simp: nth_Cons split: nat.splits)

lemma spent_snoc [simp]: "spent u (vs @ [v]) = spent u vs + (if in_peer v = u then in_paid v else 0)"
  by (simp add: spent_def)

lemma paid_nonneg: "paid_ok v \<Longrightarrow> 0 \<le> in_paid v"
  by (auto simp: paid_ok_def final_ok_def Let_def split: phase.splits)

context billing
begin

definition paid_at :: "'b \<Rightarrow> ('i, 'o) invocation \<Rightarrow> string \<Rightarrow> int" where
  "paid_at b v u = bl_balance B b u + (if u = in_peer v then in_paid v else 0)"

lemma charge_money:
  assumes "inv b" "0 < p"
  shows "case charge B b n u p of
      (b', None) \<Rightarrow> inv b' \<and> bl_balance B b' = (bl_balance B b)(u := bl_balance B b u - p)
    | (b', Some pr) \<Rightarrow> b' = b"
proof (cases "p \<le> bl_balance B b u")
  case True
  then show ?thesis using debit_covered [OF assms True] by (cases "bl_debit B b u p") (simp add: charge_def)
next
  case False
  then show ?thesis using debit_short [OF assms, of u] by (simp add: charge_def Let_def)
qed

lemma advance_other_money:
  assumes "advance B C M ch (h, v) = Some (h', v')" "paid_ok v"
    and "\<And>r p. in_phase v \<noteq> Quoted r p" "\<And>r p. in_phase v \<noteq> Running r p"
  shows "h_billing h' = h_billing h \<and> in_paid v' = in_paid v \<and> in_peer v' = in_peer v \<and> paid_ok v'"
proof (cases "in_phase v")
  case Arrived
  then show ?thesis using assms
    by (auto simp: advance_def claimCall_def paid_ok_def Let_def split: if_splits option.splits)
next
  case (Admitted r)
  obtain g ok where g: "takeToken h (ch_now ch) (in_peer v) = (g, ok)" by fastforce
  then have "h_billing g = h_billing h" using takeToken_calls [of h "ch_now ch" "in_peer v"] by simp
  then show ?thesis using assms Admitted g
    by (auto simp: advance_def paid_ok_def Let_def split: if_splits sum.splits)
next
  case (Settled r resp)
  then show ?thesis using assms
    by (auto simp: advance_def paid_ok_def final_ok_def Let_def split: option.splits)
next
  case (Refused r resp)
  then show ?thesis using assms
    by (auto simp: advance_def paid_ok_def final_ok_def Let_def split: option.splits)
next
  case (Waiting r)
  then show ?thesis using assms
    by (auto simp: advance_def paid_ok_def final_ok_def Let_def split: option.splits if_splits)
qed (use assms in \<open>auto simp: advance_def paid_ok_def Let_def\<close>)

lemma advance_money:
  assumes "inv (h_billing h)" "paid_ok v" "paid_at (h_billing h) v (in_peer v) \<le> max64"
    and "advance B C M ch (h, v) = Some (h', v')"
  shows "inv (h_billing h') \<and> paid_ok v' \<and> in_peer v' = in_peer v \<and>
    paid_at (h_billing h') v' u = paid_at (h_billing h) v u"
proof -
  consider (charge) r p where "in_phase v = Quoted r p" | (run) r p where "in_phase v = Running r p"
    | (other) "\<And>r p. in_phase v \<noteq> Quoted r p" "\<And>r p. in_phase v \<noteq> Running r p"
    by blast
  then show ?thesis
  proof cases
    case charge
    obtain b' pr where c: "charge B (h_billing h) (t_name (in_tool v)) (in_peer v) p = (b', pr)" by fastforce
    have paid: "in_paid v = 0" "t_price (in_tool v) (in_peer v) (in_args v) = Inr p"
      using assms(2) charge by (simp_all add: paid_ok_def Let_def)
    show ?thesis
    proof (cases "0 < p")
      case True
      note money = charge_money [OF assms(1) True, where n = "t_name (in_tool v)" and u = "in_peer v", unfolded c]
      show ?thesis
      proof (cases pr)
        case None
        then have "h' = h\<lparr>h_billing := b'\<rparr>" "v' = v\<lparr>in_phase := Charged r p, in_paid := p\<rparr>"
          using assms(4) charge c True by (simp_all add: advance_def Let_def)
        then show ?thesis using money None True paid by (simp add: paid_ok_def paid_at_def Let_def)
      next
        case (Some q)
        then have "h' = h\<lparr>h_billing := b'\<rparr>"
          "v' = v\<lparr>in_phase := Refused r (Some (paymentRequiredResult M q), None, None)\<rparr>"
          using assms(4) charge c True by (simp_all add: advance_def Let_def)
        then show ?thesis using money Some paid assms(1) by (simp add: paid_ok_def paid_at_def Let_def)
      qed
    next
      case False
      then have "h' = h" "v' = v\<lparr>in_phase := Running r p\<rparr>"
        using assms(4) charge by (simp_all add: advance_def Let_def)
      then show ?thesis using assms(1) paid False by (simp add: paid_ok_def paid_at_def Let_def)
    qed
  next
    case run
    have paid: "in_paid v = max 0 p" "t_price (in_tool v) (in_peer v) (in_args v) = Inr p"
      using assms(2) run by (simp_all add: paid_ok_def Let_def)
    have "bl_balance B (h_billing h) (in_peer v) + p \<le> max64" if "0 < p"
      using assms(3) paid that by (simp add: paid_at_def)
    then have credit: "fst (bl_credit B (h_billing h) (in_peer v) p) = None \<and>
        inv (snd (bl_credit B (h_billing h) (in_peer v) p)) \<and>
        bl_balance B (snd (bl_credit B (h_billing h) (in_peer v) p)) =
        (bl_balance B (h_billing h))(in_peer v := bl_balance B (h_billing h) (in_peer v) + p)" if "0 < p"
      using credit_fits [OF assms(1) that] that by blast
    show ?thesis
    proof (cases "ch_run ch")
      case (Inr out)
      then have "h' = h" "v' = v\<lparr>in_phase := Settled r (None, out, None)\<rparr>"
        using assms(4) run by (simp_all add: advance_def Let_def)
      then show ?thesis using assms(1) paid by (auto simp: paid_ok_def paid_at_def final_ok_def Let_def max_def)
    next
      case (Inl e)
      obtain err b' where c: "bl_credit B (h_billing h) (in_peer v) p = (err, b')" by fastforce
      show ?thesis
      proof (cases "0 < p")
        case True
        then have "h' = h\<lparr>h_billing := b'\<rparr>" "v' = v\<lparr>in_phase := Settled r (None, None, Some e), in_paid := 0\<rparr>"
          using assms(4) run Inl c credit by (simp_all add: advance_def Let_def)
        then show ?thesis using credit True c paid
          by (simp add: paid_ok_def paid_at_def final_ok_def Let_def)
      next
        case False
        then have "h' = h" "v' = v\<lparr>in_phase := Settled r (None, None, Some e)\<rparr>"
          using assms(4) run Inl by (simp_all add: advance_def Let_def)
        then show ?thesis using assms(1) paid False by (simp add: paid_ok_def paid_at_def final_ok_def Let_def)
      qed
    qed
  next
    case other
    then show ?thesis using advance_other_money [OF assms(4,2) other] assms(1) by (simp add: paid_at_def)
  qed
qed

definition money_ok :: "('b, 'i, 'o) system \<Rightarrow> bool" where
  "money_ok s \<longleftrightarrow> inv (h_billing (sy_h s)) \<and> (\<forall>v \<in> set (sy_calls s). paid_ok v) \<and>
     (\<forall>u. bl_balance B (h_billing (sy_h s)) u + spent u (sy_calls s) = sy_funded s u \<and> sy_funded s u \<le> max64)"

lemma paid_le_spent: "\<forall>v \<in> set vs. paid_ok v \<Longrightarrow> v \<in> set vs \<Longrightarrow> in_paid v \<le> spent (in_peer v) vs"
  unfolding spent_def
  by (rule member_le_sum_list [of "in_paid v" "map (\<lambda>w. if in_peer w = in_peer v then in_paid w else 0) vs"])
    (auto simp: paid_nonneg image_iff intro!: bexI [of _ v])

lemma money_step:
  assumes "sys_step B C M s l s'" "money_ok s"
  shows "money_ok s'"
  using assms(1)
proof cases
  case (arrive v)
  then show ?thesis using assms(2) by (auto simp: money_ok_def paid_ok_def Let_def)
next
  case (call i ch h v)
  let ?w = "sy_calls s ! i"
  have w: "paid_ok ?w" "?w \<in> set (sy_calls s)" using assms(2) call by (simp_all add: money_ok_def)
  have "in_paid ?w \<le> spent (in_peer ?w) (sy_calls s)"
    using assms(2) by (intro paid_le_spent [OF _ w(2)]) (simp add: money_ok_def)
  then have "paid_at (h_billing (sy_h s)) ?w (in_peer ?w) \<le> bl_balance B (h_billing (sy_h s)) (in_peer ?w) + spent (in_peer ?w) (sy_calls s)"
    by (simp add: paid_at_def)
  moreover have "bl_balance B (h_billing (sy_h s)) (in_peer ?w) + spent (in_peer ?w) (sy_calls s) \<le> max64"
    using assms(2) unfolding money_ok_def by metis
  ultimately have "paid_at (h_billing (sy_h s)) ?w (in_peer ?w) \<le> max64" by simp
  then have adv: "inv (h_billing h) \<and> paid_ok v \<and> in_peer v = in_peer ?w \<and>
      paid_at (h_billing h) v u = paid_at (h_billing (sy_h s)) ?w u" for u
    using advance_money [of "sy_h s" ?w C M ch h v u] assms(2) w call by (simp add: money_ok_def)
  have "bl_balance B (h_billing h) u + spent u ((sy_calls s)[i := v]) =
      bl_balance B (h_billing (sy_h s)) u + spent u (sy_calls s)" for u
    using adv [of u] call(3) spent_update [of i "sy_calls s" v u] by (auto simp: paid_at_def)
  moreover have "\<forall>x \<in> set ((sy_calls s)[i := v]). paid_ok x"
    using adv assms(2) set_update_subset_insert [of "sy_calls s" i v] by (auto simp: money_ok_def)
  ultimately show ?thesis using adv assms(2) call(2) by (simp add: money_ok_def)
next
  case (topup n u)
  have "0 \<le> spent u (sy_calls s)" using assms(2) paid_nonneg
    unfolding spent_def money_ok_def by (intro sum_list_nonneg) auto
  then have "bl_balance B (h_billing (sy_h s)) u + n \<le> max64"
    using topup assms(2) unfolding money_ok_def by (smt (verit))
  then show ?thesis
    using credit_fits [of "h_billing (sy_h s)" n u] topup assms(2) by (auto simp: money_ok_def)
qed

lemma money_reachable: "reachable B inv C M s \<Longrightarrow> money_ok s"
proof (induction rule: reachable.induct)
  case (start s)
  then show ?case using balance_range by (auto simp: sys_init_def money_ok_def spent_def)
next
  case (step s l s')
  then show ?case using money_step by blast
qed

end

section \<open>Running a schedule\<close>

fun sys_exec :: "'b Billing \<Rightarrow> (CallToolResult, 'o) codec \<Rightarrow> (PaymentRequired \<Rightarrow> string option) \<Rightarrow>
    ('b, 'i, 'o) system \<Rightarrow> ('i, 'o) label list \<Rightarrow> ('b, 'i, 'o) system option" where
  "sys_exec B C M s [] = Some s"
| "sys_exec B C M s (Arrive v # ls) =
     (if (case in_phase v of Arrived \<Rightarrow> in_paid v = 0 | _ \<Rightarrow> False)
      then sys_exec B C M (s\<lparr>sy_calls := sy_calls s @ [v]\<rparr>) ls else None)"
| "sys_exec B C M s (Advance i ch # ls) =
     (if i < length (sy_calls s) then
        (case advance B C M ch (sy_h s, sy_calls s ! i) of
           None \<Rightarrow> None
         | Some (h, v) \<Rightarrow> sys_exec B C M (s\<lparr>sy_h := h, sy_calls := (sy_calls s)[i := v]\<rparr>) ls)
      else None)"
| "sys_exec B C M s (TopUp u n # ls) =
     (if 0 < n \<and> sy_funded s u + n \<le> max64 then
        sys_exec B C M (s\<lparr>sy_h := (sy_h s)\<lparr>h_billing := snd (bl_credit B (h_billing (sy_h s)) u n)\<rparr>,
          sy_funded := (sy_funded s)(u := sy_funded s u + n)\<rparr>) ls
      else None)"

lemma sys_exec_reachable:
  "sys_exec B C M s ls = Some s' \<Longrightarrow> reachable B I C M s \<Longrightarrow> reachable B I C M s'"
proof (induction B C M s ls rule: sys_exec.induct)
  case (2 B C M s v ls)
  then show ?case by (auto intro: reachable.step sys_step.arrive split: phase.splits if_splits)
next
  case (3 B C M s i ch ls)
  then obtain h v where i: "i < length (sy_calls s)" and adv: "advance B C M ch (sy_h s, sy_calls s ! i) = Some (h, v)"
    and rest: "sys_exec B C M (s\<lparr>sy_h := h, sy_calls := (sy_calls s)[i := v]\<rparr>) ls = Some s'"
    by (auto split: option.splits if_splits)
  show ?case
    by (rule "3.IH" [OF i adv refl rest]) (rule reachable.step [OF 3(3) sys_step.call [OF i adv]])
next
  case (4 B C M s u n ls)
  then show ?case by (auto intro: reachable.step sys_step.topup split: if_splits)
qed simp

definition demo_tool :: "unit tool" where
  "demo_tool = \<lparr>t_name = ''tool'', t_meta = [], t_price = (\<lambda>_ _. Inr 5)\<rparr>"

definition demo_call :: "(unit, string) invocation" where
  "demo_call = \<lparr>in_peer = ''alice'', in_tool = demo_tool, in_callKey = Some ''12345678'', in_args = (),
     in_phase = Arrived, in_paid = 0\<rparr>"

definition demo_system :: "(ledger, unit, string) system" where
  "demo_system = \<lparr>sy_h = demo_harness, sy_calls = [], sy_funded = (\<lambda>_. 0)\<rparr>"

definition demo_choice :: "string choice" where
  "demo_choice = \<lparr>ch_now = 7, ch_run = Inr None, ch_cancel = None\<rparr>"

abbreviation demo_exec :: "(unit, string) label list \<Rightarrow> (ledger, unit, string) system option" where
  "demo_exec \<equiv> sys_exec ledger_billing demo_call_codec (\<lambda>_. None) demo_system"

lemma demo_reachable: "reachable ledger_billing ledger_sound demo_call_codec (\<lambda>_. None) demo_system"
  by (rule reachable.start)
    (auto simp: sys_init_def demo_system_def demo_harness_def ledger_billing_def Balance_def ledger_sound_def
      ledger_ok_def max64_def fun_eq_iff)

text \<open>Two calls with one key, no money: the first is refused while the second waits for it.\<close>

definition demo_schedule :: "(unit, string) label list" where
  "demo_schedule = [Arrive demo_call, Arrive demo_call, Advance 0 demo_choice, Advance 1 demo_choice,
     Advance 0 demo_choice, Advance 0 demo_choice]"

lemmas demo_simps = demo_system_def demo_harness_def demo_call_def demo_tool_def demo_choice_def demo_call_codec_def

lemma demo_refused: "case demo_exec demo_schedule of None \<Rightarrow> False | Some s \<Rightarrow>
    length (sy_calls s) = 2 \<and> (case in_phase (sy_calls s ! 0) of Refused r resp \<Rightarrow> r = Some 0 | _ \<Rightarrow> False) \<and>
    (case in_phase (sy_calls s ! 1) of Waiting r \<Rightarrow> r = 0 | _ \<Rightarrow> False)"
  by code_simp

section \<open>A keyed call is tracked\<close>

text \<open>Being between the claim and the answer, with or without a record.\<close>

fun active :: "'o phase \<Rightarrow> nat option option" where
  "active (Admitted r) = Some r"
| "active (Quoted r p) = Some r"
| "active (Charged r p) = Some r"
| "active (Running r p) = Some r"
| "active (Settled r resp) = Some r"
| "active (Refused r resp) = Some r"
| "active _ = None"

lemma active_held: "active p = Some (Some r) \<longleftrightarrow> held p = Some r"
  by (cases p) auto

definition tracked :: "('i, 'o) invocation \<Rightarrow> bool" where
  "tracked v \<longleftrightarrow> (active (in_phase v) = Some None \<longrightarrow> call_key v = '''')"

lemma advance_tracked:
  assumes "advance B C M ch (h, v) = Some (h', v')" "tracked v"
  shows "tracked v'"
proof -
  have "call_key v' = call_key v" using same_call_key advance_same_call [OF assms(1)] by blast
  moreover have "active (in_phase v') = Some None \<Longrightarrow> active (in_phase v) = Some None \<or> call_key v = ''''"
    using assms(1) by (cases "in_phase v")
      (auto simp: advance_def Let_def split: prod.splits option.splits sum.splits if_splits)
  ultimately show ?thesis using assms(2) by (auto simp: tracked_def)
qed

lemma tracked_reachable: "reachable B I C M s \<Longrightarrow> \<forall>v \<in> set (sy_calls s). tracked v"
proof (induction rule: reachable.induct)
  case (start s)
  then show ?case by (simp add: sys_init_def)
next
  case (step s l s')
  from step.hyps(2) show ?case
  proof cases
    case (arrive v)
    then show ?thesis using step.IH by (simp add: tracked_def)
  next
    case (call i ch h v)
    then have "tracked v" using step.IH advance_tracked by (metis nth_mem)
    then show ?thesis using step.IH call set_update_subset_insert [of "sy_calls s" i v] by auto
  next
    case (topup n u)
    then show ?thesis using step.IH by simp
  qed
qed

lemma at_most_one: "(\<And>i j. i < length xs \<Longrightarrow> j < length xs \<Longrightarrow> P (xs ! i) \<Longrightarrow> P (xs ! j) \<Longrightarrow> i = j) \<Longrightarrow>
    length (filter P xs) \<le> 1"
proof (induction xs)
  case Nil
  then show ?case by simp
next
  case (Cons x xs)
  have "i = j" if "i < length xs" "j < length xs" "P (xs ! i)" "P (xs ! j)" for i j
    using Cons.prems [of "Suc i" "Suc j"] that by simp
  then have IH: "length (filter P xs) \<le> 1" using Cons.IH by blast
  have "\<not> P (xs ! j)" if "P x" "j < length xs" for j
    using Cons.prems [of 0 "Suc j"] that by auto
  then have "P x \<Longrightarrow> filter P xs = []" by (auto simp: filter_empty_conv in_set_conv_nth)
  then show ?case using IH by auto
qed

section \<open>Properties\<close>

text \<open>
  C5: Idempotency keys exclude. In every reachable state of any interleaving of calls, at most one
  call with a given key is between its claim and its answer; every other call with that key is still
  to arrive at the claim, waits for the owner's outcome, or has been answered.
\<close>

theorem one_owner_per_key:
  assumes "reachable B I C M s" "key \<noteq> ''''"
  shows "length (filter (\<lambda>v. call_key v = key \<and> active (in_phase v) \<noteq> None) (sy_calls s)) \<le> 1"
proof (rule at_most_one)
  have ok: "claims_ok (sy_h s) (sy_calls s)" "owners_ok (sy_calls s)"
    using sys_ok_reachable [OF assms(1)] by (simp_all add: sys_ok_def)
  have owned: "\<exists>r. held (in_phase (sy_calls s ! i)) = Some r \<and> map_of (h_calls (sy_h s)) key = Some r"
    if i: "i < length (sy_calls s)" and key: "call_key (sy_calls s ! i) = key"
      and active: "active (in_phase (sy_calls s ! i)) \<noteq> None" for i
  proof -
    have "tracked (sy_calls s ! i)" using tracked_reachable [OF assms(1)] i by simp
    then have "active (in_phase (sy_calls s ! i)) \<noteq> Some None" using key assms(2) by (simp add: tracked_def)
    then obtain r where "active (in_phase (sy_calls s ! i)) = Some (Some r)" using active by (metis not_None_eq)
    then show ?thesis using ok(1) i key unfolding active_held claims_ok_def by blast
  qed
  fix i j
  assume i: "i < length (sy_calls s)" and j: "j < length (sy_calls s)"
    and pi: "call_key (sy_calls s ! i) = key \<and> active (in_phase (sy_calls s ! i)) \<noteq> None"
    and pj: "call_key (sy_calls s ! j) = key \<and> active (in_phase (sy_calls s ! j)) \<noteq> None"
  obtain r where r: "held (in_phase (sy_calls s ! i)) = Some r" "map_of (h_calls (sy_h s)) key = Some r"
    using owned [OF i] pi by blast
  obtain r' where r': "held (in_phase (sy_calls s ! j)) = Some r'" "map_of (h_calls (sy_h s)) key = Some r'"
    using owned [OF j] pj by blast
  show "i = j" using owners_inj [OF ok(2) i j r(1)] r r' by simp
qed

theorem one_owner_per_key_witness:
  "case demo_exec demo_schedule of None \<Rightarrow> False | Some s \<Rightarrow>
    length (filter (\<lambda>v. call_key v = ''alice|12345678'' \<and> active (in_phase v) \<noteq> None) (sy_calls s)) \<le> 1"
proof -
  obtain s where s: "demo_exec demo_schedule = Some s" using demo_refused by (auto split: option.splits)
  show ?thesis
    using one_owner_per_key [OF sys_exec_reachable [OF s demo_reachable], of "''alice|12345678''"] s by simp
qed

text \<open>
  C7: No atom is created or lost, in any interleaving. On a sound ledger, whatever calls are in
  whatever phase, a caller's balance plus what its calls have paid equals what it put in; a call has
  paid nothing or exactly the quoted price, and a call answered with an error or a payment refusal
  has paid nothing.
\<close>

theorem calls_conserve_money:
  assumes "reachable ledger_billing ledger_sound C M s"
  shows "Balance (h_billing (sy_h s)) u + spent u (sy_calls s) = sy_funded s u \<and>
    (\<forall>v \<in> set (sy_calls s).
      (in_paid v = 0 \<or> 0 < in_paid v \<and> t_price (in_tool v) (in_peer v) (in_args v) = Inr (in_paid v)) \<and>
      (case in_phase v of Answered resp \<Rightarrow> (fst resp \<noteq> None \<or> snd (snd resp) \<noteq> None \<longrightarrow> in_paid v = 0) | _ \<Rightarrow> True))"
proof -
  have m: "ledger.money_ok s" using assms by (rule ledger.money_reachable)
  then have "\<forall>v \<in> set (sy_calls s). paid_ok v" by (simp add: ledger.money_ok_def)
  moreover have "Balance (h_billing (sy_h s)) u + spent u (sy_calls s) = sy_funded s u"
    using m by (simp add: ledger.money_ok_def) (simp add: ledger_billing_def)
  ultimately show ?thesis using paid_ok_final by blast
qed

theorem calls_conserve_money_witness:
  "case demo_exec demo_schedule of None \<Rightarrow> False | Some s \<Rightarrow>
    Balance (h_billing (sy_h s)) ''alice'' + spent ''alice'' (sy_calls s) = sy_funded s ''alice''"
proof -
  obtain s where s: "demo_exec demo_schedule = Some s" using demo_refused by (auto split: option.splits)
  show ?thesis
    using calls_conserve_money [OF sys_exec_reachable [OF s demo_reachable], of "''alice''"] s by simp
qed


text \<open>
  A duplicate of a refused call is answered with an empty success. When the owner of a key is
  refused (rate limit, pricing error or payment required) while another call waits for it, the waiting
  call is answered with no result, no output and no error, instead of the refusal.
\<close>

lemma refused_duplicate_empty:
  assumes "reachable B I C M s" "i < length (sy_calls s)" "in_phase (sy_calls s ! i) = Refused (Some a) resp"
    and "in_phase (sy_calls s ! j) = Waiting a"
    and "sys_step B C M s (Advance i ch) s1" "sys_step B C M s1 (Advance j ch') s2"
  shows "in_phase (sy_calls s1 ! i) = Answered resp \<and> in_phase (sy_calls s2 ! j) = Answered (None, None, None)"
proof -
  have own: "owns (sy_h s) (sy_calls s ! i)" and keys: "keys_ok (sy_h s)"
    using sys_ok_reachable [OF assms(1)] assms(2) by (simp_all add: sys_ok_def claims_ok_alt)
  then have a: "a < length (h_recs (sy_h s))" "h_recs (sy_h s) ! a = fresh_rec"
    using assms(3) by (auto simp: owns_def keys_ok_def)
  have s1: "sy_h s1 = releaseCall (sy_h s) (call_key (sy_calls s ! i)) a"
    "sy_calls s1 = (sy_calls s)[i := (sy_calls s ! i)\<lparr>in_phase := Answered resp\<rparr>]"
    using assms(5) by (auto simp: sys_step_Advance advance_refuse [OF assms(3)])
  have ij: "i \<noteq> j" using assms(3,4) by auto
  then have w: "in_phase (sy_calls s1 ! j) = Waiting a" using assms(4) by (simp add: s1)
  have "h_recs (sy_h s1) ! a = fresh_rec\<lparr>rec_done := True\<rparr>" using a by (simp add: s1)
  then show ?thesis using assms(2,6) w s1
    by (auto simp: sys_step_Advance advance_def fresh_rec_def)
qed

lemma refused_duplicate_empty_witness:
  "\<exists>s resp s1 s2. demo_exec demo_schedule = Some s \<and> in_phase (sy_calls s ! 0) = Refused (Some 0) resp \<and>
    sys_step ledger_billing demo_call_codec (\<lambda>_. None) s (Advance 0 demo_choice) s1 \<and>
    sys_step ledger_billing demo_call_codec (\<lambda>_. None) s1 (Advance 1 demo_choice) s2 \<and>
    in_phase (sy_calls s1 ! 0) = Answered resp \<and> in_phase (sy_calls s2 ! 1) = Answered (None, None, None)"
proof -
  obtain s where s: "demo_exec demo_schedule = Some s" using demo_refused by (auto split: option.splits)
  then have len: "length (sy_calls s) = 2" and w: "in_phase (sy_calls s ! 1) = Waiting 0"
    and "\<exists>resp. in_phase (sy_calls s ! 0) = Refused (Some 0) resp"
    using demo_refused by (auto split: phase.splits)
  then obtain resp where r: "in_phase (sy_calls s ! 0) = Refused (Some 0) resp" by blast
  let ?v = "(sy_calls s ! 0)\<lparr>in_phase := Answered resp\<rparr>"
  let ?h = "releaseCall (sy_h s) (call_key (sy_calls s ! 0)) 0"
  let ?s1 = "s\<lparr>sy_h := ?h, sy_calls := (sy_calls s)[0 := ?v]\<rparr>"
  have step1: "sys_step ledger_billing demo_call_codec (\<lambda>_. None) s (Advance 0 demo_choice) ?s1"
    using len by (intro sys_step.call) (simp_all add: advance_refuse [OF r])
  have reach: "reachable ledger_billing ledger_sound demo_call_codec (\<lambda>_. None) s"
    by (rule sys_exec_reachable [OF s demo_reachable])
  have "owns (sy_h s) (sy_calls s ! 1)"
    using sys_ok_reachable [OF reach] len by (simp add: sys_ok_def claims_ok_alt)
  then have "0 < length (h_recs (sy_h s))" using w by (simp add: owns_def)
  then have "rec_done (h_recs ?h ! 0)" by simp
  then have "\<exists>s2. sys_step ledger_billing demo_call_codec (\<lambda>_. None) ?s1 (Advance 1 demo_choice) s2"
    using len w by (simp add: sys_step_Advance advance_def)
  then obtain s2 where step2: "sys_step ledger_billing demo_call_codec (\<lambda>_. None) ?s1 (Advance 1 demo_choice) s2" ..
  have "in_phase (sy_calls ?s1 ! 0) = Answered resp \<and> in_phase (sy_calls s2 ! 1) = Answered (None, None, None)"
    by (rule refused_duplicate_empty [OF reach _ r w step1 step2]) (simp add: len)
  then show ?thesis using s r step1 step2 by blast
qed

definition demo_paid_schedule :: "(unit, string) label list" where
  "demo_paid_schedule = [TopUp ''alice'' 9, Arrive demo_call, Arrive demo_call, Advance 0 demo_choice, Advance 0 demo_choice,
     Advance 0 demo_choice, Advance 0 demo_choice, Advance 0 demo_choice]"

lemma demo_settled: "case demo_exec demo_paid_schedule of None \<Rightarrow> False | Some s \<Rightarrow>
    length (sy_calls s) = 2 \<and> (case in_phase (sy_calls s ! 0) of Settled r resp \<Rightarrow> r = Some 0 | _ \<Rightarrow> False) \<and>
    (case in_phase (sy_calls s ! 1) of Arrived \<Rightarrow> True | _ \<Rightarrow> False) \<and>
    call_key (sy_calls s ! 0) = ''alice|12345678'' \<and> call_key (sy_calls s ! 1) = ''alice|12345678''"
  by code_simp


end
