(* ===== verification/GoLib.thy ===== *)
theory GoLib
  imports Prelude "HOL-Library.Word"
begin

text \<open>
  The parts of Go's standard library the codec relies on, over byte strings: a Go
  \<^verbatim>\<open>string\<close> is a sequence of bytes, here an Isabelle \<open>string\<close> (a list of 8-bit \<open>char\<close>);
  a \<^verbatim>\<open>[]byte\<close> is a list of \<open>8 word\<close>. Modelled: \<^verbatim>\<open>strings.TrimSpace\<close>, \<^verbatim>\<open>Split\<close>, \<^verbatim>\<open>Cut\<close>,
  \<^verbatim>\<open>Fields\<close>, \<^verbatim>\<open>ToLower\<close>, \<^verbatim>\<open>EqualFold\<close> (the last two on ASCII letters), \<^verbatim>\<open>strconv.Atoi\<close>,
  \<^verbatim>\<open>strconv.ParseInt\<close>, the \<^verbatim>\<open>%d\<close> verb, \<^verbatim>\<open>hex.EncodeToString\<close> and base64's \<^verbatim>\<open>StdEncoding\<close>.
\<close>

type_synonym byte = "8 word"

section \<open>Trimming, splitting, cutting\<close>

definition ascii_space :: string where
  "ascii_space = [CHR 0x09, CHR 0x0A, CHR 0x0B, CHR 0x0C, CHR 0x0D, CHR 0x20]"

text \<open>The UTF-8 encodings of the code points \<^verbatim>\<open>unicode.IsSpace\<close> accepts.\<close>

definition space_encodings :: "string list" where
  "space_encodings = map (\<lambda>c. [c]) ascii_space @
     [[CHR 0xC2, CHR 0x85], [CHR 0xC2, CHR 0xA0], [CHR 0xE1, CHR 0x9A, CHR 0x80]] @
     map (\<lambda>c. [CHR 0xE2, CHR 0x80, c])
       [CHR 0x80, CHR 0x81, CHR 0x82, CHR 0x83, CHR 0x84, CHR 0x85, CHR 0x86, CHR 0x87,
        CHR 0x88, CHR 0x89, CHR 0x8A, CHR 0xA8, CHR 0xA9, CHR 0xAF] @
     [[CHR 0xE2, CHR 0x81, CHR 0x9F], [CHR 0xE3, CHR 0x80, CHR 0x80]]"

fun strip_first :: "string list \<Rightarrow> string \<Rightarrow> string option" where
  "strip_first [] s = None"
| "strip_first (e # es) s =
     (if e \<noteq> [] \<and> take (length e) s = e then Some (drop (length e) s) else strip_first es s)"

lemma strip_first_shorter: "strip_first es s = Some r \<Longrightarrow> length r < length s"
proof (induction es)
  case Nil
  then show ?case by simp
next
  case (Cons e es)
  show ?case
  proof (cases "e \<noteq> [] \<and> take (length e) s = e")
    case True
    then have "s \<noteq> []" by auto
    moreover have "r = drop (length e) s" using Cons.prems True by simp
    ultimately show ?thesis using True by simp
  next
    case False
    with Cons.prems have "strip_first es s = Some r" by (simp only: strip_first.simps if_False)
    then show ?thesis by (rule Cons.IH)
  qed
qed

function trim_front :: "string list \<Rightarrow> string \<Rightarrow> string" where
  "trim_front es s = (if strip_first es s = None then s else trim_front es (the (strip_first es s)))"
  by pat_completeness auto
termination
  by (relation "measure (\<lambda>(es, s). length s)") (auto dest: strip_first_shorter)

declare trim_front.simps [simp del]

definition trim_space :: "string \<Rightarrow> string" where
  "trim_space s = rev (trim_front (map rev space_encodings) (rev (trim_front space_encodings s)))"

lemma strip_first_None:
  "c \<notin> hd ` set (filter (\<lambda>e. e \<noteq> []) es) \<Longrightarrow> strip_first es (c # s) = None"
  by (induction es) (auto simp: take_Cons' split: if_splits, metis list.sel(1))

lemma strip_first_None_hd:
  "s \<noteq> [] \<Longrightarrow> hd s \<notin> hd ` set (filter (\<lambda>e. e \<noteq> []) es) \<Longrightarrow> strip_first es s = None"
  by (cases s) (auto intro: strip_first_None)

text \<open>A string whose first and last bytes belong to no white-space encoding is left alone.\<close>

lemma trim_space_id:
  assumes "s \<noteq> []" "hd s \<notin> hd ` set space_encodings" "last s \<notin> last ` set space_encodings"
  shows "trim_space s = s"
proof -
  have "[] \<notin> set space_encodings" by (simp add: space_encodings_def ascii_space_def)
  then have f: "filter (\<lambda>e. e \<noteq> []) space_encodings = space_encodings"
    "filter (\<lambda>e. e \<noteq> []) (map rev space_encodings) = map rev space_encodings"
    by (auto simp: filter_id_conv)
  have front: "trim_front space_encodings s = s"
    using assms(1,2) by (simp add: trim_front.simps [of space_encodings s] strip_first_None_hd f)
  have "hd ` set (map rev space_encodings) = last ` set space_encodings"
    by (simp add: image_image hd_rev)
  then have "strip_first (map rev space_encodings) (rev s) = None"
    using assms by (intro strip_first_None_hd) (simp_all add: f hd_rev del: set_map)
  then show ?thesis
    by (simp add: trim_space_def front trim_front.simps [of "map rev space_encodings" "rev s"])
qed

fun split_on :: "char \<Rightarrow> string \<Rightarrow> string list" where
  "split_on d [] = [[]]"
| "split_on d (c # cs) =
     (if c = d then [] # split_on d cs
      else case split_on d cs of [] \<Rightarrow> [[c]] | w # ws \<Rightarrow> (c # w) # ws)"

lemma split_on_last: "d \<notin> set xs \<Longrightarrow> split_on d xs = [xs]"
  by (induction xs) auto

lemma split_on_sep: "d \<notin> set xs \<Longrightarrow> split_on d (xs @ d # ys) = xs # split_on d ys"
  by (induction xs) auto

definition cut :: "char \<Rightarrow> string \<Rightarrow> (string \<times> string) option" where
  "cut d s = (if d \<in> set s then Some (takeWhile (\<lambda>c. c \<noteq> d) s, tl (dropWhile (\<lambda>c. c \<noteq> d) s))
              else None)"

lemma cut_sep: "d \<notin> set k \<Longrightarrow> cut d (k @ d # v) = Some (k, v)"
proof -
  assume "d \<notin> set k"
  then have "takeWhile (\<lambda>c. c \<noteq> d) (k @ d # v) = k" "dropWhile (\<lambda>c. c \<noteq> d) (k @ d # v) = d # v"
    by (induction k) auto
  then show ?thesis by (simp add: cut_def)
qed

lemma cut_None: "d \<notin> set s \<Longrightarrow> cut d s = None"
  by (simp add: cut_def)

text \<open>\<^verbatim>\<open>strings.Fields\<close> on ASCII text: the maximal runs without white space.\<close>

fun strings_fields :: "string \<Rightarrow> string list" where
  "strings_fields [] = []"
| "strings_fields (c # cs) =
     (if c \<in> set ascii_space then strings_fields cs
      else case cs of [] \<Rightarrow> [[c]]
        | d # _ \<Rightarrow> if d \<in> set ascii_space then [c] # strings_fields cs
                  else case strings_fields cs of [] \<Rightarrow> [[c]] | w # ws \<Rightarrow> (c # w) # ws)"

lemma strings_fields_nonempty: "c \<notin> set ascii_space \<Longrightarrow> strings_fields (c # cs) \<noteq> []"
  by (auto split: list.splits)

lemma concat_strings_fields: "concat (strings_fields s) = filter (\<lambda>c. c \<notin> set ascii_space) s"
proof (induction s)
  case Nil
  then show ?case by simp
next
  case (Cons c cs)
  show ?case
  proof (cases cs)
    case Nil
    then show ?thesis by simp
  next
    case (Cons d ds)
    then show ?thesis
      using Cons.IH strings_fields_nonempty [of d ds]
      by (cases "strings_fields cs") (auto simp del: strings_fields.simps simp: strings_fields.simps(2) [of c])
  qed
qed

section \<open>Case folding\<close>

definition to_lower_char :: "char \<Rightarrow> char" where
  "to_lower_char c = (let n = of_char c :: nat in if 65 \<le> n \<and> n \<le> 90 then char_of (n + 32) else c)"

definition to_lower :: "string \<Rightarrow> string" where
  "to_lower = map to_lower_char"

definition equal_fold :: "string \<Rightarrow> string \<Rightarrow> bool" where
  "equal_fold s t \<longleftrightarrow> to_lower s = to_lower t"

lemma to_lower_char_idem [simp]: "to_lower_char (to_lower_char c) = to_lower_char c"
  by (auto simp: to_lower_char_def Let_def of_char_of)

lemma to_lower_idem [simp]: "to_lower (to_lower s) = to_lower s"
  by (simp add: to_lower_def)

lemma equal_fold_equiv: "equal_fold s s" "equal_fold s t \<Longrightarrow> equal_fold t s"
  "equal_fold s t \<Longrightarrow> equal_fold t u \<Longrightarrow> equal_fold s u"
  by (simp_all add: equal_fold_def)

lemma equal_fold_to_lower [simp]: "equal_fold (to_lower s) t = equal_fold s t"
  "equal_fold s (to_lower t) = equal_fold s t"
  by (simp_all add: equal_fold_def)

section \<open>Decimal numbers\<close>

definition digit_char :: "int \<Rightarrow> char" where
  "digit_char d = char_of (48 + d)"

definition digit_val :: "char \<Rightarrow> int option" where
  "digit_val c = (let n = of_char c in if 48 \<le> n \<and> n \<le> 57 then Some (n - 48) else None)"

text \<open>The decimal digits of a non-negative number.\<close>

function dec_of_nonneg :: "int \<Rightarrow> string" where
  "dec_of_nonneg n =
     (if n < 10 then [digit_char n] else dec_of_nonneg (n div 10) @ [digit_char (n mod 10)])"
  by pat_completeness auto
termination
  by (relation "measure nat") auto

declare dec_of_nonneg.simps [simp del]

text \<open>The \<^verbatim>\<open>%d\<close> verb.\<close>

definition dec_of_int :: "int \<Rightarrow> string" where
  "dec_of_int i = (if i < 0 then CHR ''-'' # dec_of_nonneg (- i) else dec_of_nonneg i)"

fun int_of_digits :: "int \<Rightarrow> string \<Rightarrow> int option" where
  "int_of_digits acc [] = Some acc"
| "int_of_digits acc (c # cs) =
     (case digit_val c of None \<Rightarrow> None | Some d \<Rightarrow> int_of_digits (10 * acc + d) cs)"

text \<open>\<^verbatim>\<open>strconv.Atoi\<close> and \<^verbatim>\<open>strconv.ParseInt(s, 10, 64)\<close>: an optional sign, at least one digit,
  nothing else, and a value in range; \<open>None\<close> is a non-nil error.\<close>

definition unsign :: "string \<Rightarrow> bool \<times> string" where
  "unsign s = (case s of [] \<Rightarrow> (False, [])
     | c # cs \<Rightarrow> if c = CHR ''-'' then (True, cs) else if c = CHR ''+'' then (False, cs) else (False, s))"

definition parse_int :: "string \<Rightarrow> int option" where
  "parse_int s =
     (case unsign s of (neg, ds) \<Rightarrow>
        if ds = [] then None
        else case int_of_digits 0 ds of None \<Rightarrow> None
          | Some n \<Rightarrow> let v = (if neg then - n else n) in if in64 v then Some v else None)"

definition dec_digits :: string where "dec_digits = ''0123456789''"

lemma digit_table: "\<forall>d \<in> set [0..9]. digit_char d \<in> set dec_digits \<and> digit_val (digit_char d) = Some d"
  by code_simp

lemma digit_val_char [simp]: "0 \<le> d \<Longrightarrow> d < 10 \<Longrightarrow> digit_val (digit_char d) = Some d"
  and digit_char_range: "0 \<le> d \<Longrightarrow> d < 10 \<Longrightarrow> digit_char d \<in> set dec_digits"
  using bspec [OF digit_table, of d] by (simp_all only: set_upto atLeastAtMost_iff simp_thms)

lemma int_of_digits_append:
  "int_of_digits acc (xs @ ys) =
     (case int_of_digits acc xs of None \<Rightarrow> None | Some n \<Rightarrow> int_of_digits n ys)"
  by (induction xs arbitrary: acc) (auto split: option.splits)

lemma dec_of_nonneg_nonempty [simp]: "dec_of_nonneg n \<noteq> []"
  by (subst dec_of_nonneg.simps) simp

lemma dec_of_nonneg_digits: "0 \<le> n \<Longrightarrow> set (dec_of_nonneg n) \<subseteq> set dec_digits"
proof (induction n rule: dec_of_nonneg.induct)
  case (1 n)
  then show ?case
    by (subst dec_of_nonneg.simps) (auto simp: digit_char_range)
qed

lemma int_of_digits_dec: "0 \<le> n \<Longrightarrow> int_of_digits 0 (dec_of_nonneg n) = Some n"
proof (induction n rule: dec_of_nonneg.induct)
  case (1 n)
  then show ?case
    by (subst dec_of_nonneg.simps) (simp add: int_of_digits_append)
qed

lemma dec_of_int_chars: "set (dec_of_int i) \<subseteq> insert CHR ''-'' (set dec_digits)"
  using dec_of_nonneg_digits [of i] dec_of_nonneg_digits [of "- i"]
  by (auto simp: dec_of_int_def)

lemma unsign_dec_of_nonneg: "0 \<le> n \<Longrightarrow> unsign (dec_of_nonneg n) = (False, dec_of_nonneg n)"
proof -
  assume "0 \<le> n"
  obtain c cs where cs: "dec_of_nonneg n = c # cs" by (cases "dec_of_nonneg n") auto
  then have "c \<in> set dec_digits" using dec_of_nonneg_digits [OF \<open>0 \<le> n\<close>] by auto
  then have "c \<noteq> CHR ''-''" "c \<noteq> CHR ''+''" by (auto simp: dec_digits_def)
  then show ?thesis unfolding cs by (simp add: unsign_def)
qed

text \<open>Printing and parsing an \<open>int64\<close> round-trips.\<close>

lemma parse_int_dec: "in64 i \<Longrightarrow> parse_int (dec_of_int i) = Some i"
proof (cases "i < 0")
  case True
  assume "in64 i"
  with True show ?thesis
    by (simp add: parse_int_def dec_of_int_def unsign_def int_of_digits_dec)
next
  case False
  assume "in64 i"
  with False show ?thesis
    by (simp add: parse_int_def dec_of_int_def unsign_dec_of_nonneg int_of_digits_dec)
qed

lemma parse_int_in64: "parse_int s = Some v \<Longrightarrow> in64 v"
  by (auto simp: parse_int_def Let_def split: prod.splits if_splits option.splits)

section \<open>Hexadecimal\<close>

lemma byte_bound: "0 \<le> uint (a :: byte)" "uint (a :: byte) < 256"
  using unsigned_less [of a, where ?'a = int] by simp_all

definition hex_digits :: string where "hex_digits = ''0123456789abcdef''"

definition hex_of_bytes :: "byte list \<Rightarrow> string" where
  "hex_of_bytes bs =
     concat (map (\<lambda>b. [hex_digits ! nat (uint b div 16), hex_digits ! nat (uint b mod 16)]) bs)"

lemma length_hex_of_bytes: "length (hex_of_bytes bs) = 2 * length bs"
  by (induction bs) (simp_all add: hex_of_bytes_def)

lemma hex_digit_in: "i < 16 \<Longrightarrow> hex_digits ! i \<in> set hex_digits"
proof -
  have "length hex_digits = 16" by (simp add: hex_digits_def)
  then show "i < 16 \<Longrightarrow> ?thesis" by (metis nth_mem)
qed

lemma hex_of_bytes_chars: "set (hex_of_bytes bs) \<subseteq> set hex_digits"
proof -
  have "nat (uint b div 16) < 16" "nat (uint b mod 16) < 16" for b :: byte
    using byte_bound [of b] by (simp_all add: nat_less_iff pos_imp_zdiv_nonneg_iff)
  then have "hex_digits ! nat (uint b div 16) \<in> set hex_digits"
    "hex_digits ! nat (uint b mod 16) \<in> set hex_digits" for b :: byte
    by (simp_all add: hex_digit_in)
  then show ?thesis by (auto simp: hex_of_bytes_def)
qed

text \<open>\<^verbatim>\<open>hex.DecodeString\<close>: pairs of digits of either case; an odd length or another byte is an error.\<close>

definition hex_val :: "char \<Rightarrow> int option" where
  "hex_val c = (let n = of_char c :: int in
     if 48 \<le> n \<and> n \<le> 57 then Some (n - 48) else if 97 \<le> n \<and> n \<le> 102 then Some (n - 87)
     else if 65 \<le> n \<and> n \<le> 70 then Some (n - 55) else None)"

fun hex_decode :: "string \<Rightarrow> byte list option" where
  "hex_decode [] = Some []"
| "hex_decode [c] = None"
| "hex_decode (c # d # s) = (case (hex_val c, hex_val d) of
     (Some h, Some l) \<Rightarrow> map_option (\<lambda>bs. word_of_int (16 * h + l) # bs) (hex_decode s)
   | _ \<Rightarrow> None)"

lemma hex_val_table: "\<forall>i \<in> set [0..<16]. hex_val (hex_digits ! i) = Some (int i)"
  by code_simp

lemma hex_val_digit [simp]: "0 \<le> i \<Longrightarrow> i < 16 \<Longrightarrow> hex_val (hex_digits ! nat i) = Some i"
  using bspec [OF hex_val_table, of "nat i"] by (simp only: set_upt atLeastLessThan_iff) simp

lemma hex_decode_encode: "hex_decode (hex_of_bytes bs) = Some bs"
proof (induction bs)
  case (Cons b bs)
  have "0 \<le> uint b div 16" "uint b div 16 < 16" "0 \<le> uint b mod 16" "uint b mod 16 < 16"
    using byte_bound [of b] by (simp_all add: pos_imp_zdiv_nonneg_iff)
  then have "hex_decode (hex_of_bytes (b # bs)) = map_option (\<lambda>cs. word_of_int (16 * (uint b div 16) + uint b mod 16) # cs) (Some bs)"
    using Cons.IH by (simp add: hex_of_bytes_def)
  then show ?case by (simp only: mult_div_mod_eq word_of_int_uint option.map)
qed (simp add: hex_of_bytes_def)

section \<open>Base64, the standard alphabet with padding\<close>

definition b64_alphabet :: string where
  "b64_alphabet = ''ABCDEFGHIJKLMNOPQRSTUVWXYZabcdefghijklmnopqrstuvwxyz0123456789+/''"

definition b64_char :: "int \<Rightarrow> char" where
  "b64_char i = b64_alphabet ! nat i"

fun index_from :: "int \<Rightarrow> char \<Rightarrow> string \<Rightarrow> int option" where
  "index_from i c [] = None"
| "index_from i c (d # ds) = (if c = d then Some i else index_from (i + 1) c ds)"

definition b64_val :: "char \<Rightarrow> int option" where
  "b64_val c = index_from 0 c b64_alphabet"

text \<open>Three bytes make one group of four digits; a last group of one or two bytes is padded
  with \<open>=\<close>.\<close>

fun b64_encode :: "byte list \<Rightarrow> string" where
  "b64_encode [] = []"
| "b64_encode [a] =
     (let n = uint a * 65536
      in [b64_char (n div 262144), b64_char (n div 4096 mod 64), CHR ''='', CHR ''=''])"
| "b64_encode [a, b] =
     (let n = uint a * 65536 + uint b * 256
      in [b64_char (n div 262144), b64_char (n div 4096 mod 64), b64_char (n div 64 mod 64), CHR ''=''])"
| "b64_encode (a # b # c # rest) =
     (let n = uint a * 65536 + uint b * 256 + uint c
      in b64_char (n div 262144) # b64_char (n div 4096 mod 64) #
         b64_char (n div 64 mod 64) # b64_char (n mod 64) # b64_encode rest)"

text \<open>Decoding (\<open>None\<close> is a \<^verbatim>\<open>CorruptInputError\<close>). As Go's non-strict \<^verbatim>\<open>StdEncoding\<close> does, it
  ignores the unused low bits of a padded group, and refuses anything after the padding.\<close>

fun b64_decode :: "string \<Rightarrow> byte list option" where
  "b64_decode [] = Some []"
| "b64_decode (p # q # r # s # rest) =
     (case (b64_val p, b64_val q) of
        (Some w, Some x) \<Rightarrow>
          (case (b64_val r, b64_val s) of
             (Some y, Some z) \<Rightarrow>
               let n = w * 262144 + x * 4096 + y * 64 + z
               in map_option (\<lambda>bs. word_of_int (n div 65536) # word_of_int (n div 256 mod 256) #
                                    word_of_int (n mod 256) # bs) (b64_decode rest)
           | (Some y, None) \<Rightarrow>
               if s = CHR ''='' \<and> rest = []
               then let n = w * 262144 + x * 4096 + y * 64
                    in Some [word_of_int (n div 65536), word_of_int (n div 256 mod 256)]
               else None
           | (None, _) \<Rightarrow>
               if r = CHR ''='' \<and> s = CHR ''='' \<and> rest = []
               then let n = w * 262144 + x * 4096 in Some [word_of_int (n div 65536)]
               else None)
      | _ \<Rightarrow> None)"
| "b64_decode _ = None"

lemma b64_table: "\<forall>i \<in> set [0..63]. b64_val (b64_char i) = Some i \<and> b64_char i \<in> set b64_alphabet"
  by code_simp

lemma b64_val_char [simp]: "0 \<le> i \<Longrightarrow> i < 64 \<Longrightarrow> b64_val (b64_char i) = Some i"
  and b64_char_in: "0 \<le> i \<Longrightarrow> i < 64 \<Longrightarrow> b64_char i \<in> set b64_alphabet"
  using bspec [OF b64_table, of i] by (simp_all only: set_upto atLeastAtMost_iff simp_thms)

lemma b64_val_pad [simp]: "b64_val CHR ''='' = None"
  by code_simp

lemma group3_bound:
  "uint (a::byte) * 65536 + uint (b::byte) * 256 + uint (c::byte) < 16777216"
  "0 \<le> uint (a::byte) * 65536 + uint (b::byte) * 256 + uint (c::byte)"
  using byte_bound [of a] byte_bound [of b] byte_bound [of c] by linarith+

lemma first_sextet: "0 \<le> n \<Longrightarrow> n < 16777216 \<Longrightarrow> 0 \<le> n div 262144 \<and> n div 262144 < (64::int)"
  by (auto simp: pos_imp_zdiv_nonneg_iff)

lemma horner64: "p = d * 64 + e \<Longrightarrow> q = p * 64 + f \<Longrightarrow> n = q * 64 + g \<Longrightarrow>
    d * 262144 + e * 4096 + f * 64 + g = (n::int)"
  by simp

lemma sextets: "(n::int) div 262144 * 262144 + n div 4096 mod 64 * 4096 + n div 64 mod 64 * 64 + n mod 64 = n"
proof -
  have "n div 4096 = n div 64 div 64" "n div 262144 = n div 64 div 64 div 64"
    by (simp_all flip: zdiv_zmult2_eq)
  then show ?thesis
    by (simp only:) (rule horner64; rule div_mult_mod_eq [symmetric])
qed

lemma octets:
  assumes "0 \<le> a" "a < 256" "0 \<le> b" "b < 256" "0 \<le> c" "c < (256::int)"
    and n: "n = a * 65536 + b * 256 + c"
  shows "n div 65536 = a" "n div 256 mod 256 = b" "n mod 256 = c"
proof -
  have eq: "n = c + (b + a * 256) * 256" using n by simp
  have "n mod 256 = c mod 256" unfolding eq by (rule mod_mult_self1)
  then show "n mod 256 = c" using assms(5,6) by simp
  have "n div 256 = b + a * 256 + c div 256" unfolding eq by (rule div_mult_self1) simp
  then have d: "n div 256 = b + a * 256" using assms(5,6) by simp
  have "n div 65536 = n div 256 div 256" by (simp flip: zdiv_zmult2_eq)
  also have "\<dots> = a" unfolding d using assms(3,4) by simp
  finally show "n div 65536 = a" .
  show "n div 256 mod 256 = b" unfolding d using assms(3,4) by simp
qed

lemma b64_alphabet_pad: "CHR ''='' \<notin> set b64_alphabet"
  by code_simp

text \<open>The four digits of a group, for any 24-bit number, and what they decode to.\<close>

lemma b64_group_chars:
  assumes "0 \<le> n" "n < 16777216"
  shows "{b64_char (n div 262144), b64_char (n div 4096 mod 64), b64_char (n div 64 mod 64),
    b64_char (n mod 64)} \<subseteq> set b64_alphabet"
  using first_sextet [OF assms] by (simp add: b64_char_in)

lemma b64_group_vals:
  assumes "0 \<le> n" "n < 16777216"
  shows "b64_val (b64_char (n div 262144)) = Some (n div 262144)"
    "b64_val (b64_char (n div 4096 mod 64)) = Some (n div 4096 mod 64)"
    "b64_val (b64_char (n div 64 mod 64)) = Some (n div 64 mod 64)"
    "b64_val (b64_char (n mod 64)) = Some (n mod 64)"
  using first_sextet [OF assms] by (simp_all only: b64_val_char pos_mod_sign pos_mod_bound zero_less_numeral simp_thms)

lemmas b64_decode_eval = b64_decode.simps b64_val_pad prod.case option.case Let_def simp_thms if_True

lemma b64_decode_group:
  assumes "0 \<le> n" "n < 16777216"
  shows "b64_decode (b64_char (n div 262144) # b64_char (n div 4096 mod 64) #
      b64_char (n div 64 mod 64) # b64_char (n mod 64) # rest) =
    map_option (\<lambda>bs. word_of_int (n div 65536) # word_of_int (n div 256 mod 256) #
      word_of_int (n mod 256) # bs) (b64_decode rest)"
  by (simp only: b64_decode_eval b64_group_vals [OF assms] sextets)

lemma b64_decode_pad1:
  assumes "0 \<le> n" "n < 16777216" "n mod 64 = 0"
  shows "b64_decode [b64_char (n div 262144), b64_char (n div 4096 mod 64),
      b64_char (n div 64 mod 64), CHR ''=''] =
    Some [word_of_int (n div 65536), word_of_int (n div 256 mod 256)]"
proof -
  have "n div 262144 * 262144 + n div 4096 mod 64 * 4096 + n div 64 mod 64 * 64 = n"
    using sextets [of n] unfolding assms(3) by (simp only: add_0_right)
  then show ?thesis by (simp only: b64_decode_eval b64_group_vals [OF assms(1,2)])
qed

lemma b64_decode_pad2:
  assumes "0 \<le> n" "n < 16777216" "n mod 64 = 0" "n div 64 mod 64 = 0"
  shows "b64_decode [b64_char (n div 262144), b64_char (n div 4096 mod 64), CHR ''='', CHR ''=''] =
    Some [word_of_int (n div 65536)]"
proof -
  have "n div 262144 * 262144 + n div 4096 mod 64 * 4096 = n"
    using sextets [of n] unfolding assms(3,4) by (simp only: add_0_right mult_zero_left)
  then show ?thesis by (simp only: b64_decode_eval b64_group_vals [OF assms(1,2)])
qed

lemma b64_decode_encode: "b64_decode (b64_encode bs) = Some bs"
proof (induction bs rule: b64_encode.induct)
  case 1
  then show ?case by simp
next
  case (2 a)
  obtain n where n: "n = uint a * 65536" by simp
  have "0 \<le> n" "n < 16777216" "n mod 64 = 0" "n div 64 mod 64 = 0" and a: "n div 65536 = uint a"
    using byte_bound [of a] by (simp_all add: n)
  from b64_decode_pad2 [OF this(1-4)] show ?case
    by (simp only: b64_encode.simps Let_def a word_of_int_uint flip: n)
next
  case (3 a b)
  obtain n where n: "n = uint a * 65536 + uint b * 256" by simp
  have "n = (uint a * 1024 + uint b * 4) * 64" by (simp add: n)
  then have "n mod 64 = 0" by (simp only: mod_mult_self2_is_0)
  moreover have "0 \<le> n" "n < 16777216" using group3_bound [of a b 0] by (simp_all add: n)
  moreover have "n div 65536 = uint a" "n div 256 mod 256 = uint b"
    using octets [of "uint a" "uint b" 0 n] byte_bound [of a] byte_bound [of b] by (simp_all add: n)
  ultimately show ?case using b64_decode_pad1 [of n]
    by (simp only: b64_encode.simps Let_def word_of_int_uint simp_thms flip: n)
next
  case (4 a b c rest)
  obtain n where n: "n = uint a * 65536 + uint b * 256 + uint c" by simp
  have "0 \<le> n" "n < 16777216" using group3_bound [of a b c] by (simp_all add: n)
  moreover have "n div 65536 = uint a" "n div 256 mod 256 = uint b" "n mod 256 = uint c"
    using octets [OF byte_bound [of a] byte_bound [of b] byte_bound [of c] n] by simp_all
  ultimately show ?case using 4 b64_decode_group [of n "b64_encode rest"]
    by (simp only: b64_encode.simps Let_def word_of_int_uint simp_thms option.map flip: n)
qed

lemma b64_encode_chars: "set (b64_encode bs) \<subseteq> insert CHR ''='' (set b64_alphabet)"
proof (induction bs rule: b64_encode.induct)
  case (2 a)
  have "0 \<le> uint a * 65536" "uint a * 65536 < 16777216" using byte_bound [of a] by simp_all
  from b64_group_chars [OF this] show ?case by (simp add: Let_def)
next
  case (3 a b)
  have "0 \<le> uint a * 65536 + uint b * 256" "uint a * 65536 + uint b * 256 < 16777216"
    using group3_bound [of a b 0] by simp_all
  from b64_group_chars [OF this] show ?case by (simp add: Let_def)
next
  case (4 a b c rest)
  with b64_group_chars [OF group3_bound(2,1) [of a b c]] show ?case by (simp add: Let_def)
qed simp

lemma b64_encode_nonempty [simp]: "b64_encode bs = [] \<longleftrightarrow> bs = []"
  by (cases bs rule: b64_encode.cases) (simp_all add: Let_def)

end
