(* ===== verification/NetAddr.thy ===== *)
theory NetAddr
  imports GoLib
begin

unbundle bit_operations_syntax

text \<open>
  The parts of Go's \<^verbatim>\<open>net/netip\<close> and \<^verbatim>\<open>net.SplitHostPort\<close> that \<^verbatim>\<open>bridge/allowlist.go\<close> uses: addresses of
  both families, their parser, prefixes, and printing.
\<close>

datatype ip = V4 "32 word" | V6 "128 word" string

text \<open>\<open>V6\<close> carries the zone, empty for none.\<close>

record ip_prefix =
  px_addr :: ip
  px_bits :: nat

section \<open>Parsing\<close>

definition v4_field :: "string \<Rightarrow> int option" where
  "v4_field s =
     (if s = [] \<or> 1 < length s \<and> hd s = CHR ''0'' then None
      else case int_of_digits 0 s of None \<Rightarrow> None | Some v \<Rightarrow> if v \<le> 255 then Some v else None)"

definition parse_v4 :: "string \<Rightarrow> int option" where
  "parse_v4 s = (case map v4_field (split_on CHR ''.'' s) of
     [Some a, Some b, Some c, Some d] \<Rightarrow> Some (((a * 256 + b) * 256 + c) * 256 + d)
   | _ \<Rightarrow> None)"

fun hex_digit :: "char \<Rightarrow> int option" where
  "hex_digit c = (let n = of_char c :: int in
     if 48 \<le> n \<and> n \<le> 57 then Some (n - 48)
     else if 97 \<le> n \<and> n \<le> 102 then Some (n - 87)
     else if 65 \<le> n \<and> n \<le> 70 then Some (n - 55)
     else None)"

definition is_hex :: "char \<Rightarrow> bool" where "is_hex c \<longleftrightarrow> hex_digit c \<noteq> None"

definition hex_value :: "string \<Rightarrow> int" where
  "hex_value s = foldl (\<lambda>a c. a * 16 + (case hex_digit c of None \<Rightarrow> 0 | Some d \<Rightarrow> d)) 0 s"

lemma dropWhile_shorter:
  assumes "x = dropWhile P s" "x = c # r"
  shows "length r < length s \<and> length (tl r) < length s"
proof -
  have "length (c # r) \<le> length s" using length_dropWhile_le [of P s] assms by metis
  then show ?thesis by simp
qed

text \<open>The loop of \<^verbatim>\<open>parseIPv6\<close>: the 16-bit groups read so far and where the ellipsis stood.\<close>

function v6_groups :: "string \<Rightarrow> int list \<Rightarrow> nat option \<Rightarrow> (int list \<times> nat option) option" where
  "v6_groups s gs e =
     (if 8 \<le> length gs then (if s = [] then Some (gs, e) else None)
      else let ds = takeWhile is_hex s; rest = dropWhile is_hex s; gs' = gs @ [hex_value ds] in
       if ds = [] \<or> 4 < length ds then None
       else (case rest of
           [] \<Rightarrow> Some (gs', e)
         | c # r \<Rightarrow>
             if c = CHR ''.'' then
               (if e = None \<and> length gs \<noteq> 6 \<or> 6 < length gs then None
                else case parse_v4 s of None \<Rightarrow> None | Some v \<Rightarrow> Some (gs @ [v div 65536, v mod 65536], e))
             else if c \<noteq> CHR '':'' \<or> r = [] then None
             else if hd r \<noteq> CHR '':'' then v6_groups r gs' e
             else if e \<noteq> None then None
             else if tl r = [] then Some (gs', Some (length gs'))
             else v6_groups (tl r) gs' (Some (length gs'))))"
  by pat_completeness auto

termination
  apply (relation "measure (\<lambda>(s, _, _). length s)")
    apply simp
   apply (drule (1) dropWhile_shorter, simp)
  apply (drule (1) dropWhile_shorter, simp)
  done

declare v6_groups.simps [simp del]

definition fill_groups :: "int list \<times> nat option \<Rightarrow> int list option" where
  "fill_groups p = (case p of (gs, e) \<Rightarrow>
     if length gs < 8
     then (case e of None \<Rightarrow> None | Some k \<Rightarrow> Some (take k gs @ replicate (8 - length gs) 0 @ drop k gs))
     else if e \<noteq> None then None else Some gs)"

definition groups_value :: "int list \<Rightarrow> int" where
  "groups_value gs = foldl (\<lambda>a g. a * 65536 + g) 0 gs"

definition parse_v6_body :: "string \<Rightarrow> int option" where
  "parse_v6_body s =
     map_option groups_value (Option.bind
       (if take 2 s = ''::'' then (if drop 2 s = [] then Some ([], Some 0) else v6_groups (drop 2 s) [] (Some 0))
        else v6_groups s [] None) fill_groups)"

definition parse_v6 :: "string \<Rightarrow> ip option" where
  "parse_v6 s = (case cut CHR ''%'' s of
     None \<Rightarrow> map_option (\<lambda>v. V6 (word_of_int v) []) (parse_v6_body s)
   | Some (body, zone) \<Rightarrow> if zone = [] then None else map_option (\<lambda>v. V6 (word_of_int v) zone) (parse_v6_body body))"

definition ParseAddr :: "string \<Rightarrow> ip option" where
  "ParseAddr s = (case find (\<lambda>c. c \<in> set ''.:%'') s of
     Some c \<Rightarrow> if c = CHR ''.'' then map_option (\<lambda>v. V4 (word_of_int v)) (parse_v4 s)
       else if c = CHR '':'' then parse_v6 s else None
   | None \<Rightarrow> None)"

text \<open>Cutting at the last occurrence.\<close>

definition rcut :: "char \<Rightarrow> string \<Rightarrow> (string \<times> string) option" where
  "rcut c s = map_option (\<lambda>(a, b). (rev b, rev a)) (cut c (rev s))"

definition addr_bits :: "ip \<Rightarrow> nat" where
  "addr_bits a = (case a of V4 _ \<Rightarrow> 32 | V6 _ _ \<Rightarrow> 128)"

definition ParsePrefix :: "string \<Rightarrow> ip_prefix option" where
  "ParsePrefix s = (case rcut CHR ''/'' s of None \<Rightarrow> None
   | Some (a, bs) \<Rightarrow> (case ParseAddr a of None \<Rightarrow> None
     | Some ip \<Rightarrow>
         if (case ip of V6 _ z \<Rightarrow> z \<noteq> [] | _ \<Rightarrow> False) then None
         else if 1 < length bs \<and> \<not> (hd bs \<in> set ''123456789'') then None
         else (case parse_int bs of None \<Rightarrow> None
           | Some n \<Rightarrow> if n < 0 \<or> int (addr_bits ip) < n then None else Some \<lparr>px_addr = ip, px_bits = nat n\<rparr>)))"

text \<open>\<^verbatim>\<open>net.SplitHostPort\<close>; the port is not used.\<close>

definition SplitHostPort :: "string \<Rightarrow> string option" where
  "SplitHostPort hp = (case rcut CHR '':'' hp of None \<Rightarrow> None
   | Some (pre, port) \<Rightarrow>
       if hd hp = CHR ''['' then
         (case cut CHR '']'' hp of None \<Rightarrow> None
          | Some (a, b) \<Rightarrow>
              if length a + 1 \<noteq> length pre \<or> CHR ''['' \<in> set (tl hp) \<or> CHR '']'' \<in> set b then None else Some (tl a))
       else if CHR '':'' \<in> set pre \<or> CHR ''['' \<in> set hp \<or> CHR '']'' \<in> set hp then None
       else Some pre)"

section \<open>Addresses and prefixes\<close>

definition Is4In6 :: "ip \<Rightarrow> bool" where
  "Is4In6 a = (case a of V6 w _ \<Rightarrow> drop_bit 32 w = 0xffff | V4 _ \<Rightarrow> False)"

definition Unmap :: "ip \<Rightarrow> ip" where
  "Unmap a = (case a of V6 w _ \<Rightarrow> if Is4In6 a then V4 (ucast w) else a | V4 _ \<Rightarrow> a)"

definition WithoutZone :: "ip \<Rightarrow> ip" where
  "WithoutZone a = (case a of V6 w _ \<Rightarrow> V6 w [] | V4 _ \<Rightarrow> a)"

definition Masked :: "ip_prefix \<Rightarrow> ip_prefix" where
  "Masked p = p\<lparr>px_addr := (case px_addr p of
     V4 w \<Rightarrow> V4 (push_bit (32 - px_bits p) (drop_bit (32 - px_bits p) w))
   | V6 w z \<Rightarrow> V6 (push_bit (128 - px_bits p) (drop_bit (128 - px_bits p) w)) [])\<rparr>"

definition Contains :: "ip_prefix \<Rightarrow> ip \<Rightarrow> bool" where
  "Contains p a = (case (px_addr p, a) of
     (V4 w, V4 v) \<Rightarrow> drop_bit (32 - px_bits p) (w XOR v) = 0
   | (V6 w _, V6 v z) \<Rightarrow> z = [] \<and> drop_bit (128 - px_bits p) (w XOR v) = 0
   | _ \<Rightarrow> False)"

section \<open>Printing\<close>

definition v4_string :: "int \<Rightarrow> string" where
  "v4_string n = dec_of_int (n div 16777216) @ ''.'' @ dec_of_int (n div 65536 mod 256) @ ''.'' @
     dec_of_int (n div 256 mod 256) @ ''.'' @ dec_of_int (n mod 256)"

definition v6_words :: "128 word \<Rightarrow> int list" where
  "v6_words w = map (\<lambda>i. uint w div 65536 ^ i mod 65536) [7, 6, 5, 4, 3, 2, 1, 0]"

definition hex_group :: "int \<Rightarrow> string" where
  "hex_group g = (let ds = map (\<lambda>i. g div 16 ^ i mod 16) [3, 2, 1, 0]; sig = dropWhile (\<lambda>d. d = 0) ds
     in map (\<lambda>d. hex_digits ! nat d) (if sig = [] then [0] else sig))"

fun join_groups :: "int list \<Rightarrow> string" where
  "join_groups [] = []"
| "join_groups [g] = hex_group g"
| "join_groups (g # gs) = hex_group g @ '':'' @ join_groups gs"

text \<open>The first longest run of at least two zero groups.\<close>

definition zero_run :: "int list \<Rightarrow> nat \<times> nat" where
  "zero_run gs = foldl (\<lambda>(s, e) i. let l = length (takeWhile (\<lambda>g. g = 0) (drop i gs)) in
     if 2 \<le> l \<and> e - s < l then (i, i + l) else (s, e)) (8, 8) [0..<8]"

definition v6_string :: "128 word \<Rightarrow> string" where
  "v6_string w = (let gs = v6_words w; (s, e) = zero_run gs in
     if s < e then join_groups (take s gs) @ ''::'' @ join_groups (drop e gs) else join_groups gs)"

definition addr_string :: "ip \<Rightarrow> string" where
  "addr_string a = (case a of
     V4 w \<Rightarrow> v4_string (uint w)
   | V6 w z \<Rightarrow> (if Is4In6 a then ''::ffff:'' @ v4_string (uint (ucast w :: 32 word)) else v6_string w) @
       (if z = [] then [] else CHR ''%'' # z))"

definition prefix_string :: "ip_prefix \<Rightarrow> string" where
  "prefix_string p = addr_string (px_addr p) @ ''/'' @ dec_of_int (int (px_bits p))"

end
