(* ===== verification/BridgeSettings.thy ===== *)
theory BridgeSettings
  imports GoLib Persist
begin

text \<open>
  The user's policy of a bridge, \<^verbatim>\<open>Settings\<close> of \<^verbatim>\<open>bridge/settings.go\<close>: its fields, its defaults, and
  the list of callable bots. The JSON tags are the shape of the file and not modelled.
\<close>

record Settings =
  Enabled :: bool
  TokenSet :: bool
  RecycleToken :: bool
  Mode :: string
  PerCallCapAtoms :: int64
  PerDayCapAtoms :: int64
  AllowedBots :: "string list"
  AllowedIPs :: "string list"
  ApprovalTimeoutSecs :: int64
  TipWaitSecs :: int64

definition no_settings :: Settings where
  "no_settings = \<lparr>Enabled = False, TokenSet = False, RecycleToken = False, Mode = '''', PerCallCapAtoms = 0,
     PerDayCapAtoms = 0, AllowedBots = [], AllowedIPs = [], ApprovalTimeoutSecs = 0, TipWaitSecs = 0\<rparr>"

definition withDefaults :: "Settings \<Rightarrow> Settings" where
  "withDefaults s =
     (let s = (if Mode s \<noteq> ''autopay'' then s\<lparr>Mode := ''approval''\<rparr> else s);
          s = (if ApprovalTimeoutSecs s \<le> 0 then s\<lparr>ApprovalTimeoutSecs := 120\<rparr> else s)
      in if TipWaitSecs s \<le> 0 then s\<lparr>TipWaitSecs := 180\<rparr> else s)"

definition uid_char :: "char \<Rightarrow> bool" where
  "uid_char c \<longleftrightarrow> c \<in> set hex_digits"

definition uidRe :: "string \<Rightarrow> bool" where
  "uidRe s \<longleftrightarrow> length s = 64 \<and> (\<forall>c \<in> set s. uid_char c)"

definition allowsBot :: "Settings \<Rightarrow> string \<Rightarrow> bool" where
  "allowsBot s uid \<longleftrightarrow> (\<exists>bot \<in> set (AllowedBots s). equal_fold bot uid)"

lemma withDefaults_sane:
  "Mode (withDefaults s) \<in> {''autopay'', ''approval''}"
  "0 < ApprovalTimeoutSecs (withDefaults s)" "0 < TipWaitSecs (withDefaults s)"
  by (auto simp: withDefaults_def Let_def)

lemma withDefaults_keeps [simp]:
  "Enabled (withDefaults s) = Enabled s" "RecycleToken (withDefaults s) = RecycleToken s"
  "PerCallCapAtoms (withDefaults s) = PerCallCapAtoms s" "PerDayCapAtoms (withDefaults s) = PerDayCapAtoms s"
  "AllowedBots (withDefaults s) = AllowedBots s" "AllowedIPs (withDefaults s) = AllowedIPs s"
  by (auto simp: withDefaults_def Let_def)

lemma withDefaults_idem [simp]: "withDefaults (withDefaults s) = withDefaults s"
  by (auto simp: withDefaults_def Let_def)

lemma allowsBot_fold: "equal_fold u v \<Longrightarrow> allowsBot s u = allowsBot s v"
  by (auto simp: allowsBot_def equal_fold_def)

end
