(* ===== verification/Gate.thy ===== *)
theory Gate
  imports NetAddr BridgeSettings
begin

text \<open>
  Who may use a bridge: the allowed addresses (\<^verbatim>\<open>bridge/allowlist.go\<close>), the bearer gate of
  \<^verbatim>\<open>bridge/http.go\<close>, and applying and loading settings (\<^verbatim>\<open>bridge/settings.go\<close>). SHA-256 is a parameter;
  the HTTP server, its listener and the source of randomness appear by their answers.
\<close>

section \<open>Allowed addresses\<close>

text \<open>\<open>None\<close> is the error that names the entry.\<close>

definition parseIPEntry :: "string \<Rightarrow> (string \<times> ip_prefix) option" where
  "parseIPEntry s =
     (if CHR ''/'' \<in> set s then
        (case ParsePrefix s of None \<Rightarrow> None
         | Some p \<Rightarrow>
             if Is4In6 (px_addr p) then
               (if px_bits p < 96 then None
                else let q = Masked \<lparr>px_addr = Unmap (px_addr p), px_bits = px_bits p - 96\<rparr> in Some (prefix_string q, q))
             else let q = Masked p in Some (prefix_string q, q))
      else (case ParseAddr s of None \<Rightarrow> None
         | Some a \<Rightarrow> let a = WithoutZone (Unmap a) in Some (addr_string a, \<lparr>px_addr = a, px_bits = addr_bits a\<rparr>)))"

fun parse_entries :: "string list \<Rightarrow> string + (string list \<times> ip_prefix list)" where
  "parse_entries [] = Inr ([], [])"
| "parse_entries (e # es) =
     (let t = trim_space e in
      if t = [] then parse_entries es
      else case parseIPEntry t of
          None \<Rightarrow> Inl t
        | Some (c, p) \<Rightarrow> (case parse_entries es of Inl x \<Rightarrow> Inl x | Inr (cs, ps) \<Rightarrow> Inr (c # cs, p # ps)))"

definition parseAllowedIPs :: "string list \<Rightarrow> string + (string list \<times> ip_prefix list)" where
  "parseAllowedIPs entries = parse_entries entries"

definition remoteIPAllowed :: "ip_prefix list \<Rightarrow> string \<Rightarrow> bool" where
  "remoteIPAllowed ps remote =
     (if ps = [] then True
      else case SplitHostPort remote of None \<Rightarrow> False
       | Some host \<Rightarrow> (case ParseAddr host of None \<Rightarrow> False
         | Some a \<Rightarrow> let a = WithoutZone (Unmap a) in \<exists>p \<in> set ps. Contains p a))"

definition deniedIP :: "string \<Rightarrow> string" where
  "deniedIP remote = (case SplitHostPort remote of None \<Rightarrow> remote
     | Some host \<Rightarrow> (case ParseAddr host of None \<Rightarrow> host
       | Some a \<Rightarrow> addr_string (WithoutZone (Unmap a))))"

section \<open>The bridge's configuration\<close>

text \<open>\<open>bc_hash\<close> is \<^verbatim>\<open>tokenHash\<close> guarded by \<^verbatim>\<open>hasToken\<close>; \<open>bc_listening\<close> says that \<^verbatim>\<open>httpSrv\<close> is not nil; a
  bot's link is its number.\<close>

record 'd bridge_conf =
  bc_settings :: Settings
  bc_hash :: "'d option"
  bc_prefixes :: "ip_prefix list"
  bc_denied :: "(string \<times> instant) option"
  bc_bots :: "(string, nat) gomap"
  bc_listening :: bool
  bc_closed :: bool
  bc_file :: "(Settings \<times> 'd option) plain_file"

definition botAllowed :: "'d bridge_conf \<Rightarrow> string \<Rightarrow> bool" where
  "botAllowed b uid = allowsBot (bc_settings b) uid"

definition LastDenied :: "'d bridge_conf \<Rightarrow> (string \<times> instant) option" where
  "LastDenied b = bc_denied b"

section \<open>The gate\<close>

definition trim_prefix :: "string \<Rightarrow> string \<Rightarrow> string" where
  "trim_prefix p s = (if take (length p) s = p then drop (length p) s else s)"

record request =
  rq_authorization :: string
  rq_remote :: string
  rq_path :: string

datatype http_response = NotFound | Unauthorized | UnknownBot | BotUnavailable | Serve string

definition request_uid :: "request \<Rightarrow> string" where
  "request_uid r = to_lower (trim_prefix ''/mcp/'' (rq_path r))"

definition token_ok :: "(string \<Rightarrow> 'd) \<Rightarrow> 'd bridge_conf \<Rightarrow> request \<Rightarrow> bool" where
  "token_ok sha b r \<longleftrightarrow> bc_hash b = Some (sha (trim_prefix ''Bearer '' (rq_authorization r)))"

text \<open>The middleware reads the settings under the mutex, checks without it, and asks again for the bot's
  permission and for the proxy: \<open>allowed\<close> and \<open>proxied\<close> are what those later calls answer.\<close>

definition authMiddleware :: "(string \<Rightarrow> 'd) \<Rightarrow> instant \<Rightarrow> (string \<Rightarrow> bool) \<Rightarrow> (string \<Rightarrow> bool) \<Rightarrow>
    request \<Rightarrow> 'd bridge_conf \<Rightarrow> http_response \<times> 'd bridge_conf" where
  "authMiddleware sha now allowed proxied r b =
     (if \<not> Enabled (bc_settings b) then (NotFound, b)
      else if \<not> token_ok sha b r then (Unauthorized, b)
      else if \<not> remoteIPAllowed (bc_prefixes b) (rq_remote r)
        then (Unauthorized, b\<lparr>bc_denied := Some (deniedIP (rq_remote r), now)\<rparr>)
      else let b' = b\<lparr>bc_denied := None\<rparr>; uid = request_uid r in
        if \<not> uidRe uid \<or> \<not> allowed uid then (UnknownBot, b')
        else if \<not> proxied uid then (BotUnavailable, b')
        else (Serve uid, b'))"

section \<open>Applying settings\<close>

datatype apply_error = BadBot string | BadAddress string | NoRandomness | NotWritten | NoListener

definition persistSettingsLocked :: "'d bridge_conf \<Rightarrow> bool \<times> 'd bridge_conf" where
  "persistSettingsLocked b =
     (let (ok, f) = write_file (bc_settings b, bc_hash b) (bc_file b) in (ok, b\<lparr>bc_file := f\<rparr>))"

text \<open>\<^verbatim>\<open>startListenerLocked\<close> succeeds if the address can be bound.\<close>

definition startListenerLocked :: "bool \<Rightarrow> 'd bridge_conf \<Rightarrow> bool \<times> 'd bridge_conf" where
  "startListenerLocked bound b = (if bound then (True, b\<lparr>bc_listening := True\<rparr>) else (False, b))"

definition stopListenerLocked :: "'d bridge_conf \<Rightarrow> 'd bridge_conf" where
  "stopListenerLocked b = b\<lparr>bc_listening := False\<rparr>"

definition adjust_listener :: "bool \<Rightarrow> bool \<Rightarrow> bool \<Rightarrow> 'd bridge_conf \<Rightarrow> bool \<times> 'd bridge_conf" where
  "adjust_listener own minted bound b =
     (if own \<and> \<not> bc_closed b then
        (if Enabled (bc_settings b) \<and> \<not> bc_listening b then startListenerLocked bound b
         else if \<not> Enabled (bc_settings b) \<and> bc_listening b then (True, stopListenerLocked b)
         else if Enabled (bc_settings b) \<and> minted then startListenerLocked bound (stopListenerLocked b)
         else (True, b))
      else (True, b))"

text \<open>The part under the mutex: the new policy is put in place, written, rolled back if that fails, and
  otherwise acted on. The result is the error of the listener and the links to close.\<close>

definition commit_settings :: "bool \<Rightarrow> bool \<Rightarrow> bool \<Rightarrow> Settings \<Rightarrow> 'd option \<Rightarrow> ip_prefix list \<Rightarrow> 'd bridge_conf \<Rightarrow>
    (apply_error option \<times> nat list) option \<times> 'd bridge_conf" where
  "commit_settings own mint bound s h prefixes b =
     (case persistSettingsLocked (b\<lparr>bc_settings := s, bc_hash := h, bc_prefixes := prefixes\<rparr>) of
        (False, b1) \<Rightarrow> (None, b\<lparr>bc_file := bc_file b1\<rparr>)
      | (True, b1) \<Rightarrow>
          (case adjust_listener own mint bound (b1\<lparr>bc_bots := filter (\<lambda>kv. allowsBot s (fst kv)) (bc_bots b1)\<rparr>) of
             (lok, b2) \<Rightarrow> (Some (if lok then None else Some NoListener,
                map snd (filter (\<lambda>kv. \<not> allowsBot s (fst kv)) (bc_bots b1))), b2)))"

text \<open>\<open>own\<close>: the bridge was configured with a listen address. \<open>fresh\<close>: the hex text of 16 random bytes,
  if there are any. A result holds the plaintext of a minted token, empty for none.\<close>

definition ApplySettings :: "(string \<Rightarrow> 'd) \<Rightarrow> bool \<Rightarrow> string option \<Rightarrow> bool \<Rightarrow> Settings \<Rightarrow> 'd bridge_conf \<Rightarrow>
    (apply_error + string \<times> apply_error option \<times> nat list) \<times> 'd bridge_conf" where
  "ApplySettings sha own fresh bound s0 b =
     (let s = withDefaults s0; mint = (RecycleToken s \<or> Enabled s \<and> bc_hash b = None) in
      case find (\<lambda>u. \<not> uidRe (to_lower u)) (AllowedBots s) of
        Some u \<Rightarrow> (Inl (BadBot u), b)
      | None \<Rightarrow> (case parseAllowedIPs (AllowedIPs s) of
          Inl e \<Rightarrow> (Inl (BadAddress e), b)
        | Inr (canonical, prefixes) \<Rightarrow>
            (case if mint then fresh else Some [] of
               None \<Rightarrow> (Inl NoRandomness, b)
             | Some minted \<Rightarrow>
                 let h = (if mint then Some (sha minted) else bc_hash b) in
                 (case commit_settings own mint bound
                    (s\<lparr>AllowedIPs := canonical, RecycleToken := False, TokenSet := h \<noteq> None\<rparr>) h prefixes b of
                    (None, b') \<Rightarrow> (Inl NotWritten, b')
                  | (Some (lerr, closing), b') \<Rightarrow> (Inr (minted, lerr, closing), b')))))"

text \<open>The first half of \<^verbatim>\<open>loadState\<close>.\<close>

fun load_entries :: "string list \<Rightarrow> string list \<times> ip_prefix list" where
  "load_entries [] = ([], [])"
| "load_entries (e # es) =
     (let t = trim_space e; (cs, ps) = load_entries es in
      if t = [] then (cs, ps)
      else case parseIPEntry t of None \<Rightarrow> (cs, ps) | Some (c, p) \<Rightarrow> (c # cs, p # ps))"

definition load_settings :: "'d bridge_conf \<Rightarrow> open_error + 'd bridge_conf" where
  "load_settings b = (case read_file (withDefaults no_settings, None) (pf_file (bc_file b)) of
     Inl e \<Rightarrow> Inl e
   | Inr (st, h) \<Rightarrow>
       let s = withDefaults st; (entries, prefixes) = load_entries (AllowedIPs s)
       in Inr (b\<lparr>bc_settings := s\<lparr>TokenSet := h \<noteq> None, RecycleToken := False, AllowedIPs := entries\<rparr>,
                 bc_hash := h, bc_prefixes := prefixes\<rparr>))"

section \<open>Start and close\<close>

definition Start :: "bool \<Rightarrow> bool \<Rightarrow> 'd bridge_conf \<Rightarrow> bool \<times> 'd bridge_conf" where
  "Start own bound b =
     (if Enabled (bc_settings b) \<and> own \<and> \<not> bc_closed b then startListenerLocked bound b else (True, b))"

definition Close :: "'d bridge_conf \<Rightarrow> 'd bridge_conf \<times> nat list" where
  "Close b =
     (if bc_closed b then (b, [])
      else ((stopListenerLocked b)\<lparr>bc_closed := True, bc_bots := []\<rparr>, map snd (bc_bots b)))"

section \<open>Properties\<close>

lemma uint_drop_bit: "uint (drop_bit n w) = uint w div 2 ^ n" for w :: "'a::len word"
  by transfer (simp add: drop_bit_eq_div take_bit_eq_mod take_bit_drop_bit
      flip: take_bit_eq_mod drop_bit_eq_div)

lemma xor_0_iff: "w XOR v = 0 \<longleftrightarrow> w = v" for w v :: "'a::len word"
  by (auto simp: bit_eq_iff bit_xor_iff)

lemma drop_bit_xor_0:
  "drop_bit n (w XOR v) = 0 \<longleftrightarrow> uint w div 2 ^ n = uint v div 2 ^ n" for w v :: "'a::len word"
proof -
  have "drop_bit n (w XOR v) = 0 \<longleftrightarrow> drop_bit n w = drop_bit n v"
    by (simp add: drop_bit_xor xor_0_iff)
  also have "\<dots> \<longleftrightarrow> uint (drop_bit n w) = uint (drop_bit n v)" by (simp add: word_uint_eq_iff)
  also have "\<dots> \<longleftrightarrow> uint w div 2 ^ n = uint v div 2 ^ n" by (simp only: uint_drop_bit)
  finally show ?thesis .
qed

text \<open>A client's address as the bridge sees it, and whether an allowed prefix covers it.\<close>

definition mapped_v4 :: "32 word \<Rightarrow> 128 word" where
  "mapped_v4 v = word_of_int (0xffff * 2 ^ 32 + uint v)"

lemma Unmap_mapped: "Unmap (V6 (mapped_v4 v) z) = V4 v"
proof -
  have "uint v < 2 ^ 32" using unsigned_less [of v, where ?'a = int] by simp
  then have u: "uint (mapped_v4 v) = 0xffff * 2 ^ 32 + uint v"
    unfolding mapped_v4_def by (subst uint_word_of_int) (simp add: mod_pos_pos_trivial)
  have "(uint v + 0xffff * 2 ^ 32) div 2 ^ 32 = 0xffff + uint v div 2 ^ 32" by (rule div_mult_self1) simp
  then have "uint (drop_bit 32 (mapped_v4 v)) = 0xffff"
    using \<open>uint v < 2 ^ 32\<close> unfolding uint_drop_bit u by (simp add: add.commute)
  then have a: "drop_bit 32 (mapped_v4 v) = 0xffff" by (simp add: word_uint_eq_iff)
  have "uint (ucast (mapped_v4 v) :: 32 word) = uint (mapped_v4 v) mod 2 ^ 32"
    by (simp add: unsigned_ucast_eq take_bit_eq_mod)
  also have "\<dots> = (uint v + 0xffff * 2 ^ 32) mod 2 ^ 32" unfolding u by (simp only: add.commute)
  also have "\<dots> = uint v mod 2 ^ 32" by (rule mod_mult_self1)
  also have "\<dots> = uint v" using \<open>uint v < 2 ^ 32\<close> by simp
  finally have "(ucast (mapped_v4 v) :: 32 word) = v" by (simp add: word_uint_eq_iff)
  then show ?thesis by (simp add: Unmap_def Is4In6_def a)
qed

lemma Contains_V4: "Contains p (V4 v) \<longleftrightarrow>
    (\<exists>w. px_addr p = V4 w \<and> uint w div 2 ^ (32 - px_bits p) = uint v div 2 ^ (32 - px_bits p))"
  by (auto simp: Contains_def drop_bit_xor_0 simp del: drop_bit_xor split: ip.splits)

lemma remote_v4:
  assumes "SplitHostPort hp = Some h" "ParseAddr h \<in> {Some (V4 v), Some (V6 (mapped_v4 v) z)}"
  shows "remoteIPAllowed ps hp \<longleftrightarrow> ps = [] \<or> (\<exists>p \<in> set ps. Contains p (V4 v))"
  using assms by (auto simp: remoteIPAllowed_def Unmap_mapped WithoutZone_def Let_def) (auto simp: Unmap_def)

text \<open>
  C31: An IPv4 client is judged by its number alone, however its address is written: as dotted quad or as an
  IPv4-mapped IPv6 address with or without a zone, it is let in exactly when the list is empty or some
  IPv4 prefix of the list agrees with it on its leading bits. An allowed entry in IPv4-mapped form is the
  IPv4 prefix with 96 bits less.
\<close>

theorem allowlist_by_number:
  assumes "SplitHostPort hp = Some h" "ParseAddr h = Some (V4 v) \<or> ParseAddr h = Some (V6 (mapped_v4 v) z)"
    and "ParsePrefix e = Some \<lparr>px_addr = V6 (mapped_v4 w) [], px_bits = n\<rparr>" "CHR ''/'' \<in> set e" "96 \<le> n"
  shows "remoteIPAllowed ps hp = (ps = [] \<or> (\<exists>p \<in> set ps. \<exists>x. px_addr p = V4 x \<and>
      uint x div 2 ^ (32 - px_bits p) = uint v div 2 ^ (32 - px_bits p))) \<and>
    map_option snd (parseIPEntry e) = Some (Masked \<lparr>px_addr = V4 w, px_bits = n - 96\<rparr>)"
proof -
  have "remoteIPAllowed ps hp \<longleftrightarrow> ps = [] \<or> (\<exists>p \<in> set ps. Contains p (V4 v))"
    by (rule remote_v4 [OF assms(1)]) (use assms(2) in auto)
  moreover have "Is4In6 (V6 (mapped_v4 w) [])"
    using Unmap_mapped [of w "[]"] by (auto simp: Unmap_def split: if_splits)
  ultimately show ?thesis using assms(3-5)
    by (simp add: Contains_V4 parseIPEntry_def Unmap_mapped Let_def)
qed

lemma allowlist_by_number_witness:
  "remoteIPAllowed [\<lparr>px_addr = V4 0x0A000000, px_bits = 8\<rparr>] ''[::ffff:10.1.2.3%eth0]:80'' \<and>
   map_option snd (parseIPEntry ''::ffff:10.0.0.0/104'') = Some (Masked \<lparr>px_addr = V4 0x0A000000, px_bits = 8\<rparr>)"
proof -
  let ?hp = "''[::ffff:10.1.2.3%eth0]:80''" and ?h = "''::ffff:10.1.2.3%eth0''" and ?e = "''::ffff:10.0.0.0/104''"
  have a: "SplitHostPort ?hp = Some ?h" by code_simp
  have b: "ParseAddr ?h = Some (V4 0x0A010203) \<or> ParseAddr ?h = Some (V6 (mapped_v4 0x0A010203) ''eth0'')" by code_simp
  have c: "ParsePrefix ?e = Some \<lparr>px_addr = V6 (mapped_v4 0x0A000000) [], px_bits = 104\<rparr>" by code_simp
  show ?thesis using allowlist_by_number [OF a b c, of "[\<lparr>px_addr = V4 0x0A000000, px_bits = 8\<rparr>]"] by simp
qed

lemma gate_serves:
  "fst (authMiddleware sha now allowed proxied r b) = Serve u \<longleftrightarrow>
     Enabled (bc_settings b) \<and> token_ok sha b r \<and> remoteIPAllowed (bc_prefixes b) (rq_remote r) \<and>
     u = request_uid r \<and> uidRe u \<and> allowed u \<and> proxied u"
  by (auto simp: authMiddleware_def Let_def)

lemma gate_keeps [simp]:
  "bc_settings (snd (authMiddleware sha now allowed proxied r b)) = bc_settings b"
  "bc_hash (snd (authMiddleware sha now allowed proxied r b)) = bc_hash b"
  "bc_prefixes (snd (authMiddleware sha now allowed proxied r b)) = bc_prefixes b"
  by (simp_all add: authMiddleware_def Let_def)

definition demo_conf :: "string bridge_conf" where
  "demo_conf = \<lparr>bc_settings = no_settings\<lparr>Enabled := True, AllowedBots := [replicate 64 CHR ''a'']\<rparr>, bc_hash = Some ''secret'',
     bc_prefixes = [\<lparr>px_addr = V4 0x0A000000, px_bits = 8\<rparr>], bc_denied = None,
     bc_bots = [(replicate 64 CHR ''a'', 0)], bc_listening = True,
     bc_closed = False, bc_file = \<lparr>pf_file = Absent, pf_script = []\<rparr>\<rparr>"

lemma adjust_listener_keeps [simp]:
  "bc_settings (snd (adjust_listener own m bd b)) = bc_settings b"
  "bc_hash (snd (adjust_listener own m bd b)) = bc_hash b"
  "bc_prefixes (snd (adjust_listener own m bd b)) = bc_prefixes b"
  "bc_bots (snd (adjust_listener own m bd b)) = bc_bots b"
  "bc_file (snd (adjust_listener own m bd b)) = bc_file b"
  "bc_closed (snd (adjust_listener own m bd b)) = bc_closed b"
  by (simp_all add: adjust_listener_def startListenerLocked_def stopListenerLocked_def)

lemma adjust_listener_state:
  "own \<Longrightarrow> \<not> bc_closed b \<Longrightarrow> fst (adjust_listener own m bd b) \<Longrightarrow>
    bc_listening (snd (adjust_listener own m bd b)) = Enabled (bc_settings b)"
  by (auto simp: adjust_listener_def startListenerLocked_def stopListenerLocked_def split: if_splits)

text \<open>Committing either rolls back or puts everything in place.\<close>

lemma commit_cases:
  assumes "commit_settings own mint bound s h prefixes b = (r, b')"
  obtains "r = None" "b' = b\<lparr>bc_file := bc_file b'\<rparr>"
  | lerr closing where "r = Some (lerr, closing)" "bc_settings b' = s" "bc_hash b' = h" "bc_prefixes b' = prefixes"
    "bc_bots b' = filter (\<lambda>kv. allowsBot s (fst kv)) (bc_bots b)"
    "closing = map snd (filter (\<lambda>kv. \<not> allowsBot s (fst kv)) (bc_bots b))"
    "pf_file (bc_file b') = Holds (s, h)" "own \<and> \<not> bc_closed b \<and> lerr = None \<longrightarrow> bc_listening b' = Enabled s"
proof -
  let ?b = "b\<lparr>bc_settings := s, bc_hash := h, bc_prefixes := prefixes\<rparr>"
  let ?f = "write_file (s, h) (bc_file b)"
  have p: "persistSettingsLocked ?b = (fst ?f, ?b\<lparr>bc_file := snd ?f\<rparr>)"
    by (simp add: persistSettingsLocked_def split: prod.splits)
  show ?thesis
  proof (cases "fst ?f")
    case False
    then have "r = None" "b' = b\<lparr>bc_file := snd ?f\<rparr>" using assms p by (auto simp: commit_settings_def)
    then show ?thesis using that(1) by simp
  next
    case True
    let ?b2 = "?b\<lparr>bc_file := snd ?f, bc_bots := filter (\<lambda>kv. allowsBot s (fst kv)) (bc_bots b)\<rparr>"
    obtain lok where l: "adjust_listener own mint bound ?b2 = (lok, b')"
      and r: "r = Some (if lok then None else Some NoListener, map snd (filter (\<lambda>kv. \<not> allowsBot s (fst kv)) (bc_bots b)))"
      using assms p True by (auto simp: commit_settings_def split: prod.splits)
    have b': "b' = snd (adjust_listener own mint bound ?b2)" "lok = fst (adjust_listener own mint bound ?b2)"
      using l by simp_all
    have "pf_file (snd ?f) = Holds (s, h)" using True by (rule write_file_ok)
    moreover have "bc_listening b' = Enabled s" if "own" "\<not> bc_closed b" "lok"
      using adjust_listener_state [of own ?b2 mint bound] that by (simp add: b')
    ultimately show ?thesis by (intro that(2) [OF r]) (simp_all add: b'(1) split: if_splits)
  qed
qed

lemma apply_cases [case_names bad dry good]:
  obtains e m where "x = (Inl e, m)" | c p where "x = (Inr (c, p), None)" | c p minted where "x = (Inr (c, p), Some minted)"
  by (metis old.prod.exhaust option.exhaust sum.exhaust)

lemma settings_applied_lemma:
  assumes "ApplySettings sha own fresh bound s b = (res, b')"
  shows "case res of
      Inl e \<Rightarrow> b' = b\<lparr>bc_file := bc_file b'\<rparr>
    | Inr (minted, lerr, closing) \<Rightarrow>
        AllowedBots (bc_settings b') = AllowedBots s \<and> (\<forall>u \<in> set (AllowedBots s). uidRe (to_lower u)) \<and>
        parseAllowedIPs (AllowedIPs s) = Inr (AllowedIPs (bc_settings b'), bc_prefixes b') \<and>
        bc_bots b' = filter (\<lambda>kv. botAllowed b' (fst kv)) (bc_bots b) \<and>
        closing = map snd (filter (\<lambda>kv. \<not> botAllowed b' (fst kv)) (bc_bots b)) \<and>
        (if RecycleToken s \<or> Enabled s \<and> bc_hash b = None
         then fresh = Some minted \<and> bc_hash b' = Some (sha minted)
         else minted = '''' \<and> bc_hash b' = bc_hash b) \<and>
        (Enabled (bc_settings b') \<longrightarrow> bc_hash b' \<noteq> None) \<and>
        pf_file (bc_file b') = Holds (bc_settings b', bc_hash b') \<and>
        (own \<and> \<not> bc_closed b \<and> lerr = None \<longrightarrow> bc_listening b' = Enabled s)"
proof -
  let ?s = "withDefaults s"
  let ?mint = "RecycleToken s \<or> Enabled s \<and> bc_hash b = None"
  show ?thesis
  proof (cases "find (\<lambda>u. \<not> uidRe (to_lower u)) (AllowedBots s)")
    case (Some u)
    then show ?thesis using assms by (auto simp: ApplySettings_def Let_def)
  next
    case None
    then have bots: "\<forall>u \<in> set (AllowedBots s). uidRe (to_lower u)" by (simp add: find_None_iff)
    show ?thesis
    proof (cases "(parseAllowedIPs (AllowedIPs s), if ?mint then fresh else Some [])" rule: apply_cases)
      case (bad e m)
      then show ?thesis using assms None by (auto simp: ApplySettings_def Let_def)
    next
      case (dry c p)
      then show ?thesis using assms None by (auto simp: ApplySettings_def Let_def)
    next
      case (good c p minted)
      define h where "h = (if ?mint then Some (sha minted) else bc_hash b)"
      obtain r b1 where cm: "commit_settings own ?mint bound
          (?s\<lparr>AllowedIPs := c, RecycleToken := False, TokenSet := h \<noteq> None\<rparr>) h p b = (r, b1)" by fastforce
      have run: "(res, b') = (case r of None \<Rightarrow> (Inl NotWritten, b1)
          | Some (lerr, closing) \<Rightarrow> (Inr (minted, lerr, closing), b1))"
        using assms None good cm by (simp add: ApplySettings_def Let_def h_def split: option.splits)
      from cm show ?thesis
      proof (cases rule: commit_cases)
        case 1
        then show ?thesis using run by simp
      next
        case (2 lerr closing)
        then have "res = Inr (minted, lerr, closing)" "b' = b1" using run by simp_all
        then show ?thesis using 2 bots good by (auto simp: botAllowed_def h_def split: if_splits)
      qed
    qed
  qed
qed


definition demo_apply :: Settings where
  "demo_apply = no_settings\<lparr>Enabled := True, RecycleToken := True, AllowedIPs := ['' 10.1.2.3/8 '']\<rparr>"


section \<open>The policy in force\<close>

text \<open>A life of the gate: settings are applied and requests arrive. Beside the bridge we keep what its user
  knows: the settings last applied without an error, and the token last handed out.\<close>

datatype gate_op = Apply Settings "string option" bool | Request request instant

type_synonym 'd gate_life = "'d bridge_conf \<times> Settings option \<times> string option"

fun gate_do :: "(string \<Rightarrow> 'd) \<Rightarrow> bool \<Rightarrow> (string \<Rightarrow> bool) \<Rightarrow> gate_op \<Rightarrow> 'd gate_life \<Rightarrow> 'd gate_life" where
  "gate_do sha own proxied (Apply s fresh bound) (b, pol, tok) =
     (case ApplySettings sha own fresh bound s b of
        (Inl e, b') \<Rightarrow> (b', pol, tok)
      | (Inr (minted, lerr, closing), b') \<Rightarrow> (b', Some s, if minted = '''' then tok else Some minted))"
| "gate_do sha own proxied (Request r now) (b, pol, tok) =
     (snd (authMiddleware sha now (botAllowed b) proxied r b), pol, tok)"

fun real_random :: "gate_op \<Rightarrow> bool" where
  "real_random (Apply s fresh bound) \<longleftrightarrow> fresh \<noteq> Some ''''"
| "real_random (Request r now) \<longleftrightarrow> True"

definition in_force :: "(string \<Rightarrow> 'd) \<Rightarrow> 'd gate_life \<Rightarrow> bool" where
  "in_force sha L \<longleftrightarrow> (case L of (b, pol, tok) \<Rightarrow> bc_hash b = map_option sha tok \<and>
     (case pol of
        None \<Rightarrow> \<not> Enabled (bc_settings b)
      | Some s \<Rightarrow> Enabled (bc_settings b) = Enabled s \<and> AllowedBots (bc_settings b) = AllowedBots s \<and>
          map_sum id snd (parseAllowedIPs (AllowedIPs s)) = Inr (bc_prefixes b)))"

lemma apply_Enabled:
  "ApplySettings sha own fresh bound s b = (Inr x, b') \<Longrightarrow> Enabled (bc_settings b') = Enabled s"
  by (auto simp: ApplySettings_def Let_def split: option.splits sum.splits prod.splits elim!: commit_cases)

lemma in_force_step:
  assumes "in_force sha L" "real_random x"
  shows "in_force sha (gate_do sha own proxied x L)"
proof -
  obtain b pol tok where L: "L = (b, pol, tok)" by (cases L) auto
  show ?thesis
  proof (cases x)
    case (Apply s fresh bound)
    obtain res b' where a: "ApplySettings sha own fresh bound s b = (res, b')" by fastforce
    note sa = settings_applied_lemma [OF a]
    show ?thesis
    proof (cases res)
      case (Inl e)
      have "b' = b\<lparr>bc_file := bc_file b'\<rparr>" using sa Inl by simp
      then obtain f where "b' = b\<lparr>bc_file := f\<rparr>" by blast
      then show ?thesis using assms(1) a Inl by (simp add: L Apply in_force_def cong: option.case_cong)
    next
      case (Inr y)
      then obtain minted lerr closing where y: "res = Inr (minted, lerr, closing)" by (cases y) auto
      have e: "Enabled (bc_settings b') = Enabled s" using apply_Enabled a y by blast
      have s: "AllowedBots (bc_settings b') = AllowedBots s"
        "parseAllowedIPs (AllowedIPs s) = Inr (AllowedIPs (bc_settings b'), bc_prefixes b')"
        "if RecycleToken s \<or> Enabled s \<and> bc_hash b = None then fresh = Some minted \<and> bc_hash b' = Some (sha minted)
         else minted = '''' \<and> bc_hash b' = bc_hash b"
        using sa by (simp_all add: y)
      have h: "bc_hash b' = map_option sha (if minted = '''' then tok else Some minted)"
        using s(3) assms Apply by (auto simp: L in_force_def split: if_splits)
      have "gate_do sha own proxied x L = (b', Some s, if minted = '''' then tok else Some minted)"
        using a y by (simp add: L Apply)
      then show ?thesis using e s(1,2) h by (simp add: in_force_def)
    qed
  next
    case (Request r now)
    then show ?thesis using assms(1) by (simp add: L in_force_def cong: option.case_cong)
  qed
qed

lemma in_force_fold:
  "in_force sha L \<Longrightarrow> \<forall>x \<in> set xs. real_random x \<Longrightarrow> in_force sha (fold (gate_do sha own proxied) xs L)"
  by (induction xs arbitrary: L) (simp_all add: in_force_step)

text \<open>
  C18: The gate follows the user. After any sequence of applied settings, failed or not, and requests, starting
  from a disabled bridge without a token, a request is served only if the settings that were last
  applied without an error enable the bridge, name the bot and allow the source address, and the bearer
  hashes like the token that was handed out last; a token handed out before is worth nothing once
  another one has been. A caller from a forbidden address gets the same answer with any bearer.
\<close>

theorem gate_follows_policy:
  assumes "fold (gate_do sha own proxied) xs (b0, None, None) = (b, pol, tok)" "\<forall>x \<in> set xs. real_random x"
    and "\<not> Enabled (bc_settings b0)" "bc_hash b0 = None"
    and "authMiddleware sha now (botAllowed b) proxied r b = (answer, b')"
  shows "(answer = Serve u \<longrightarrow> (\<exists>s t cs ps. pol = Some s \<and> tok = Some t \<and> Enabled s \<and> allowsBot s u \<and> uidRe u \<and>
      u = to_lower (trim_prefix ''/mcp/'' (rq_path r)) \<and> parseAllowedIPs (AllowedIPs s) = Inr (cs, ps) \<and>
      remoteIPAllowed ps (rq_remote r) \<and> sha (trim_prefix ''Bearer '' (rq_authorization r)) = sha t)) \<and>
    (\<not> remoteIPAllowed (bc_prefixes b) (rq_remote r) \<longrightarrow>
      answer = fst (authMiddleware sha now (botAllowed b) proxied (r\<lparr>rq_authorization := bearer\<rparr>) b))"
proof -
  have "in_force sha (b0, None, None)" using assms(3,4) by (simp add: in_force_def)
  from in_force_fold [OF this assms(2)] have f: "in_force sha (b, pol, tok)" using assms(1) by metis
  have a: "answer = fst (authMiddleware sha now (botAllowed b) proxied r b)" using assms(5) by simp
  have "\<exists>s t cs ps. pol = Some s \<and> tok = Some t \<and> Enabled s \<and> allowsBot s u \<and> uidRe u \<and>
      u = to_lower (trim_prefix ''/mcp/'' (rq_path r)) \<and> parseAllowedIPs (AllowedIPs s) = Inr (cs, ps) \<and>
      remoteIPAllowed ps (rq_remote r) \<and> sha (trim_prefix ''Bearer '' (rq_authorization r)) = sha t" if "answer = Serve u"
  proof -
    have g: "Enabled (bc_settings b)" "token_ok sha b r" "remoteIPAllowed (bc_prefixes b) (rq_remote r)"
      "u = request_uid r" "uidRe u" "botAllowed b u" using that unfolding a gate_serves by blast+
    obtain s where s: "pol = Some s" using f g(1) by (cases pol) (simp_all add: in_force_def)
    obtain t where t: "tok = Some t" using f g(2) by (cases tok) (simp_all add: in_force_def token_ok_def)
    obtain cs where "parseAllowedIPs (AllowedIPs s) = Inr (cs, bc_prefixes b)"
      using f s by (cases "parseAllowedIPs (AllowedIPs s)") (auto simp: in_force_def)
    then show ?thesis using f g s t
      by (auto simp: in_force_def token_ok_def request_uid_def botAllowed_def allowsBot_def)
  qed
  moreover have "\<not> remoteIPAllowed (bc_prefixes b) (rq_remote r) \<Longrightarrow>
      answer = fst (authMiddleware sha now (botAllowed b) proxied (r\<lparr>rq_authorization := bearer\<rparr>) b)"
    unfolding a by (simp add: authMiddleware_def token_ok_def)
  ultimately show ?thesis by blast
qed

definition demo_start :: "string bridge_conf" where
  "demo_start = demo_conf\<lparr>bc_settings := withDefaults no_settings, bc_hash := None, bc_prefixes := [], bc_bots := [], bc_listening := False\<rparr>"

definition demo_bot :: string where "demo_bot = replicate 64 CHR ''A''"
definition demo_uid :: string where "demo_uid = replicate 64 CHR ''a''"

lemma demo_bot_facts: "to_lower demo_bot = demo_uid" "uidRe demo_uid" "equal_fold demo_bot demo_uid"
  by code_simp+

definition demo_life :: "gate_op list" where
  "demo_life = [Apply (no_settings\<lparr>Enabled := True, AllowedBots := [demo_bot]\<rparr>) (Some ''one'') True,
     Apply (no_settings\<lparr>Enabled := True, AllowedIPs := [''10.0.0.0/33'']\<rparr>) (Some ''lost'') True,
     Apply (no_settings\<lparr>Enabled := True, RecycleToken := True, AllowedBots := [demo_bot], AllowedIPs := [''10.0.0.0/8'']\<rparr>)
       (Some ''two'') True]"

definition demo_request :: "string \<Rightarrow> request" where
  "demo_request t = \<lparr>rq_authorization = ''Bearer '' @ t, rq_remote = ''10.1.2.3:5000'', rq_path = ''/mcp/'' @ demo_bot\<rparr>"

lemma demo_addresses:
  "parseAllowedIPs [''10.0.0.0/33''] = Inl ''10.0.0.0/33''"
  "parseAllowedIPs [''10.0.0.0/8''] = Inr ([''10.0.0.0/8''], [\<lparr>px_addr = V4 0x0A000000, px_bits = 8\<rparr>])"
  "remoteIPAllowed [\<lparr>px_addr = V4 0x0A000000, px_bits = 8\<rparr>] ''10.1.2.3:5000''"
  by code_simp+

lemma gate_follows_policy_witness:
  "\<exists>b pol. fold (gate_do id True (\<lambda>_. True)) demo_life (demo_start, None, None) = (b, pol, Some ''two'') \<and>
    fst (authMiddleware id 0 (botAllowed b) (\<lambda>_. True) (demo_request ''one'') b) = Unauthorized \<and>
    fst (authMiddleware id 0 (botAllowed b) (\<lambda>_. True) (demo_request ''two'') b) = Serve demo_uid \<and>
    (\<exists>s. pol = Some s \<and> allowsBot s demo_uid)"
proof -
  let ?L = "fold (gate_do id True (\<lambda>_. True)) demo_life (demo_start, None, None)"
  have e: "parseAllowedIPs [] = Inr ([], [])" by (simp add: parseAllowedIPs_def)
  have ev: "\<exists>b pol. ?L = (b, pol, Some ''two'') \<and> bc_hash b = Some ''two'' \<and>
      bc_prefixes b = [\<lparr>px_addr = V4 0x0A000000, px_bits = 8\<rparr>] \<and> Enabled (bc_settings b) \<and> AllowedBots (bc_settings b) = [demo_bot]"
    by (simp add: demo_life_def demo_start_def demo_conf_def ApplySettings_def commit_settings_def persistSettingsLocked_def
        write_file_def adjust_listener_def startListenerLocked_def stopListenerLocked_def no_settings_def Let_def demo_bot_facts e demo_addresses)
  then obtain b pol where L: "?L = (b, pol, Some ''two'')" and b: "bc_hash b = Some ''two''"
    "bc_prefixes b = [\<lparr>px_addr = V4 0x0A000000, px_bits = 8\<rparr>]" "Enabled (bc_settings b)" "AllowedBots (bc_settings b) = [demo_bot]" by blast
  have t: "trim_prefix ''Bearer '' (''Bearer '' @ u) = u" "trim_prefix ''/mcp/'' (''/mcp/'' @ u) = u" for u
    by (simp_all add: trim_prefix_def)
  have m: "fst (authMiddleware id 0 (botAllowed b) (\<lambda>_. True) (demo_request ''one'') b) = Unauthorized"
    "fst (authMiddleware id 0 (botAllowed b) (\<lambda>_. True) (demo_request ''two'') b) = Serve demo_uid"
    using b t [of "''one''"] t [of "''two''"] t [of demo_bot]
    by (simp_all add: authMiddleware_def token_ok_def demo_request_def request_uid_def demo_bot_facts demo_addresses
        botAllowed_def allowsBot_def Let_def)
  obtain b' where a: "authMiddleware id 0 (botAllowed b) (\<lambda>_. True) (demo_request ''two'') b = (Serve demo_uid, b')"
    using m(2) by (metis prod.collapse)
  have r: "\<forall>x \<in> set demo_life. real_random x" by (simp add: demo_life_def)
  have i: "\<not> Enabled (bc_settings demo_start)" "bc_hash demo_start = None"
    by (simp_all add: demo_start_def no_settings_def demo_conf_def)
  have "\<exists>s. pol = Some s \<and> allowsBot s demo_uid"
    using conjunct1 [OF gate_follows_policy [OF L r i a, of demo_uid "''''"]] by blast
  then show ?thesis using L m by blast
qed

end
