(* ===== verification/Relay.thy ===== *)
theory Relay
  imports Payment Gate
begin

text \<open>
  The relay of \<^verbatim>\<open>bridge/session.go\<close>: the link to a bot, its proxy, and the loop of \<^verbatim>\<open>passthrough\<close>. What the
  router, the MCP client and the settlement answer is an environment, functions on a state of the world;
  the loop runs over any environment and is shown to end in all of them.
\<close>

section \<open>Links\<close>

text \<open>Connections and sessions are objects named by numbers; a proxy serves a list of tools.\<close>

record botLink =
  lk_uid :: string
  lk_conn :: "nat option"
  lk_session :: "nat option"
  lk_proxy :: "string list option"

definition new_link :: "string \<Rightarrow> botLink" where
  "new_link uid = \<lparr>lk_uid = uid, lk_conn = None, lk_session = None, lk_proxy = None\<rparr>"

definition link_reset :: "botLink \<Rightarrow> botLink \<times> nat list \<times> nat list" where
  "link_reset l = (l\<lparr>lk_session := None, lk_conn := None, lk_proxy := None\<rparr>,
     (case lk_session l of None \<Rightarrow> [] | Some s \<Rightarrow> [s]), (case lk_conn l of None \<Rightarrow> [] | Some c \<Rightarrow> [c]))"

text \<open>\<open>dialed\<close> is what \<^verbatim>\<open>router.Dial\<close> answers, \<open>connected\<close> the MCP handshake on the connection; the last
  component is the connection to close.\<close>

definition dialLocked :: "string + nat \<Rightarrow> (nat \<Rightarrow> string + nat) \<Rightarrow> botLink \<Rightarrow> (string + nat) \<times> botLink \<times> nat list" where
  "dialLocked dialed connected l = (case lk_session l of
     Some s \<Rightarrow> (Inr s, l, [])
   | None \<Rightarrow> (case dialed of
       Inl e \<Rightarrow> (Inl e, l, [])
     | Inr c \<Rightarrow> (case connected c of
         Inl e \<Rightarrow> (Inl (''connect to bot: '' @ e), l, [c])
       | Inr s \<Rightarrow> (Inr s, l\<lparr>lk_conn := Some c, lk_session := Some s\<rparr>, []))))"

text \<open>The bridge's map from bots to links; links are objects in a list.\<close>

record links =
  ls_closed :: bool
  ls_bots :: "(string, nat) gomap"
  ls_objs :: "botLink list"

definition link_of :: "string \<Rightarrow> links \<Rightarrow> nat \<times> links" where
  "link_of uid b = (case map_of (ls_bots b) uid of
     Some i \<Rightarrow> (i, b)
   | None \<Rightarrow> (length (ls_objs b), b\<lparr>ls_bots := gput uid (length (ls_objs b)) (ls_bots b), ls_objs := ls_objs b @ [new_link uid]\<rparr>))"

definition proxyServerFor :: "string + nat \<Rightarrow> (nat \<Rightarrow> string + nat) \<Rightarrow> (nat \<Rightarrow> string + string list) \<Rightarrow>
    string \<Rightarrow> links \<Rightarrow> (string + string list) \<times> links" where
  "proxyServerFor dialed connected tools uid b =
     (if ls_closed b then (Inl ''bridge closed'', b)
      else case link_of uid b of (i, b) \<Rightarrow>
        (case lk_proxy (ls_objs b ! i) of
           Some p \<Rightarrow> (Inr p, b)
         | None \<Rightarrow> (case dialLocked dialed connected (ls_objs b ! i) of
             (Inl e, l, _) \<Rightarrow> (Inl e, b\<lparr>ls_objs := (ls_objs b)[i := l]\<rparr>)
           | (Inr s, l, _) \<Rightarrow> (case tools s of
               Inl e \<Rightarrow> (Inl (''list tools: '' @ e), b\<lparr>ls_objs := (ls_objs b)[i := fst (link_reset l)]\<rparr>)
             | Inr ts \<Rightarrow> (Inr ts, b\<lparr>ls_objs := (ls_objs b)[i := l\<lparr>lk_proxy := Some ts\<rparr>]\<rparr>)))))"

section \<open>The loop\<close>

text \<open>\<open>re_dial\<close>: \<^verbatim>\<open>dialLocked\<close> under the link's mutex. \<open>re_call\<close>: one \<^verbatim>\<open>CallTool\<close> carrying a key. \<open>re_settle\<close>:
  \<^verbatim>\<open>settle\<close>, nil for paid. \<open>re_wait\<close>: the three-second pause, or the error of the ended context.\<close>

record 'w relay_env =
  re_dial :: "'w \<Rightarrow> (string + nat) \<times> 'w"
  re_call :: "nat \<Rightarrow> string \<Rightarrow> 'w \<Rightarrow> (string + CallToolResult) \<times> 'w"
  re_reset :: "'w \<Rightarrow> 'w"
  re_settle :: "PaymentRequired \<Rightarrow> 'w \<Rightarrow> string option \<times> 'w"
  re_wait :: "'w \<Rightarrow> string option \<times> 'w"

datatype relay_event = Called string | Settled PaymentRequired "string option"

type_synonym 'w relay_out = "(string + CallToolResult) \<times> relay_event list \<times> 'w"

definition note_refusal :: "string \<Rightarrow> string \<Rightarrow> CallToolResult \<Rightarrow> CallToolResult" where
  "note_refusal brand e res =
     res\<lparr>cr_content := cr_content res @ [TextContent (brand @ '': payment not made: '' @ e)]\<rparr>"

definition traced :: "relay_event list \<Rightarrow> 'w relay_out \<Rightarrow> 'w relay_out" where
  "traced tr x = (case x of (r, tr', w) \<Rightarrow> (r, tr @ tr', w))"

function relay_loop :: "'w relay_env \<Rightarrow> (string \<Rightarrow> PaymentRequired option) \<Rightarrow> string \<Rightarrow> string \<Rightarrow>
    nat \<Rightarrow> bool \<Rightarrow> 'w \<Rightarrow> 'w relay_out" where
  "relay_loop E unmarshal brand key attempt paid w =
     (case re_dial E w of
        (Inl e, w) \<Rightarrow> (Inl e, [], w)
      | (Inr session, w) \<Rightarrow>
          (case re_call E session key w of
             (Inl e, w) \<Rightarrow>
               if attempt = 0 then traced [Called key] (relay_loop E unmarshal brand key (attempt + 1) paid (re_reset E w))
               else (Inl e, [Called key], re_reset E w)
           | (Inr res, w) \<Rightarrow>
               (case ParsePaymentRequired unmarshal (Some res) of
                  None \<Rightarrow> (Inr res, [Called key], w)
                | Some pr \<Rightarrow>
                    if paid then
                      (if attempt < 6 then
                         (case re_wait E w of
                            (Some e, w) \<Rightarrow> (Inl e, [Called key], w)
                          | (None, w) \<Rightarrow> traced [Called key] (relay_loop E unmarshal brand key (attempt + 1) paid w))
                       else (Inr res, [Called key], w))
                    else
                      (case re_settle E pr w of
                         (Some e, w) \<Rightarrow> (Inr (note_refusal brand e res), [Called key, Settled pr (Some e)], w)
                       | (None, w) \<Rightarrow> traced [Called key, Settled pr None] (relay_loop E unmarshal brand key (attempt + 1) True w)))))"
  by pat_completeness auto

termination
  by (relation "measures [\<lambda>(_, _, _, _, _, paid, _). if paid then 0 else 1, \<lambda>(_, _, _, _, attempt, _, _). 7 - attempt]") auto

declare relay_loop.simps [simp del]

text \<open>\<open>rand\<close>: the hex text of the 16 random bytes of the key, if there are any.\<close>

definition passthrough :: "'w relay_env \<Rightarrow> (string \<Rightarrow> PaymentRequired option) \<Rightarrow> string \<Rightarrow> string option \<Rightarrow> 'w \<Rightarrow> 'w relay_out" where
  "passthrough E unmarshal brand rand w = (case rand of
     None \<Rightarrow> (Inl ''rand'', [], w)
   | Some key \<Rightarrow> relay_loop E unmarshal brand key 0 False w)"

section \<open>Bounds\<close>

definition calls_in :: "relay_event list \<Rightarrow> nat" where
  "calls_in tr = length (filter (\<lambda>e. case e of Called _ \<Rightarrow> True | _ \<Rightarrow> False) tr)"

definition settles_in :: "relay_event list \<Rightarrow> nat" where
  "settles_in tr = length (filter (\<lambda>e. case e of Settled _ _ \<Rightarrow> True | _ \<Rightarrow> False) tr)"

lemma counts [simp]:
  "calls_in [] = 0" "settles_in [] = 0" "calls_in (Called k # tr) = Suc (calls_in tr)" "calls_in (Settled p e # tr) = calls_in tr"
  "settles_in (Called k # tr) = settles_in tr" "settles_in (Settled p e # tr) = Suc (settles_in tr)"
  by (simp_all add: calls_in_def settles_in_def)

lemma traced_simps [simp]: "fst (traced tr x) = fst x" "fst (snd (traced tr x)) = tr @ fst (snd x)"
  by (simp_all add: traced_def split: prod.splits)

definition good_trace :: "string \<Rightarrow> nat \<Rightarrow> bool \<Rightarrow> relay_event list \<Rightarrow> bool" where
  "good_trace key attempt paid tr \<longleftrightarrow> calls_in tr \<le> 7 - attempt \<and> settles_in tr \<le> (if paid then 0 else 1) \<and>
     (\<forall>e \<in> set tr. case e of Called k \<Rightarrow> k = key | _ \<Rightarrow> True)"

lemma relay_loop_trace:
  "attempt \<le> 6 \<Longrightarrow> (\<not> paid \<longrightarrow> attempt \<le> 1) \<Longrightarrow>
    good_trace key attempt paid (fst (snd (relay_loop E unmarshal brand key attempt paid w)))"
proof (induction E unmarshal brand key attempt paid w rule: relay_loop.induct)
  case (1 E unmarshal brand key attempt paid w)
  note hyps = "1.IH" and pre = "1.prems"
  show ?case
  proof (cases "re_dial E w")
    case dial: (Pair d w1)
    show ?thesis
    proof (cases d)
      case (Inl e)
      then show ?thesis by (simp add: relay_loop.simps [of E] dial good_trace_def)
    next
      case ses: (Inr session)
      obtain c w2 where call: "re_call E session key w1 = (c, w2)" by fastforce
      show ?thesis
      proof (cases c)
        case (Inl e)
        show ?thesis
        proof (cases "attempt = 0")
          case True
          have "good_trace key 1 paid (fst (snd (relay_loop E unmarshal brand key 1 paid (re_reset E w2))))"
            using hyps(1) [OF dial [symmetric] ses call [symmetric] Inl True] True by simp
          then show ?thesis using True
            by (simp add: relay_loop.simps [of E _ _ _ 0] dial ses call Inl good_trace_def)
        next
          case False
          then show ?thesis using pre by (simp add: relay_loop.simps [of E _ _ _ attempt] dial ses call Inl good_trace_def)
        qed
      next
        case res: (Inr res)
        show ?thesis
        proof (cases "ParsePaymentRequired unmarshal (Some res)")
          case None
          then show ?thesis using pre by (simp add: relay_loop.simps [of E _ _ _ attempt] dial ses call res good_trace_def)
        next
          case pr: (Some pr)
          show ?thesis
          proof (cases paid)
            case True
            obtain x w3 where wait: "re_wait E w2 = (x, w3)" by fastforce
            show ?thesis
            proof (cases "attempt < 6 \<and> x = None")
              case go: True
              have "good_trace key (attempt + 1) paid (fst (snd (relay_loop E unmarshal brand key (attempt + 1) paid w3)))"
                using hyps(2) [OF dial [symmetric] ses call [symmetric] res pr True _ wait [symmetric]] go True pre by simp
              then show ?thesis using go True
                by (auto simp: relay_loop.simps [of E _ _ _ attempt] dial ses call res pr wait good_trace_def)
            next
              case False
              then show ?thesis using True pre
                by (auto simp: relay_loop.simps [of E _ _ _ attempt] dial ses call res pr wait good_trace_def split: option.splits)
            qed
          next
            case False
            obtain x w3 where st: "re_settle E pr w2 = (x, w3)" by fastforce
            show ?thesis
            proof (cases x)
              case None
              have "good_trace key (attempt + 1) True (fst (snd (relay_loop E unmarshal brand key (attempt + 1) True w3)))"
                using hyps(3) [OF dial [symmetric] ses call [symmetric] res pr False st [symmetric] None] False pre by simp
              then show ?thesis using False None pre
                by (auto simp: relay_loop.simps [of E _ _ _ attempt] dial ses call res pr st good_trace_def)
            next
              case (Some e)
              then show ?thesis using False pre
                by (auto simp: relay_loop.simps [of E _ _ _ attempt] dial ses call res pr st good_trace_def)
            qed
          qed
        qed
      qed
    qed
  qed
qed

section \<open>Property\<close>

text \<open>
  C32: Relaying one tool call always ends, whatever the bot, the network, the settlement and the clock answer:
  after at most seven calls to the bot and at most one settlement. Every one of those calls, the retry
  on a fresh session and the repeats after a payment alike, carries the one idempotency key of the
  relayed call, so the bot can tell them from new calls. Without randomness for a key nothing is sent.
\<close>

theorem passthrough_ends:
  assumes "passthrough E unmarshal brand rand w = (out, tr, w')"
  shows "calls_in tr \<le> 7 \<and> settles_in tr \<le> 1 \<and> (\<forall>k. Called k \<in> set tr \<longrightarrow> rand = Some k) \<and> (rand = None \<longrightarrow> tr = [])"
proof (cases rand)
  case None
  then show ?thesis using assms by (simp add: passthrough_def)
next
  case (Some key)
  have "good_trace key 0 False (fst (snd (relay_loop E unmarshal brand key 0 False w)))"
    by (rule relay_loop_trace) simp_all
  then have "good_trace key 0 False tr" using assms Some by (simp add: passthrough_def)
  then show ?thesis using Some by (auto simp: good_trace_def)
qed

text \<open>A bot that loses its first answer and asks for money for ever: one reset, one payment, five pauses.\<close>

definition refusal_result :: CallToolResult where
  "refusal_result = \<lparr>cr_isError = True, cr_content = [TextContent ''pay'']\<rparr>"

definition greedy_bot :: "(nat list) relay_env" where
  "greedy_bot = \<lparr>re_dial = \<lambda>w. (Inr 0, w), re_call = \<lambda>s k w. (if w = [] then Inl ''lost'' else Inr refusal_result, 1 # w),
     re_reset = \<lambda>w. w, re_settle = \<lambda>pr w. (None, w), re_wait = \<lambda>w. (None, w)\<rparr>"

definition read_pay :: "string \<Rightarrow> PaymentRequired option" where
  "read_pay s = Some \<lparr>pr_error = ''payment_required'', pr_tool = ''t'', pr_price = 1, pr_balance = 0, pr_shortfall = 1, pr_rails = []\<rparr>"

lemma passthrough_ends_witness:
  "\<exists>out tr w. passthrough greedy_bot read_pay ''b'' (Some ''k'') [] = (out, tr, w) \<and> calls_in tr = 7 \<and> settles_in tr = 1 \<and> calls_in tr \<le> 7"
proof -
  obtain out tr w where p: "passthrough greedy_bot read_pay ''b'' (Some ''k'') [] = (out, tr, w)" by (metis prod_cases3)
  have "(\<lambda>(out, tr, w). (calls_in tr, settles_in tr)) (passthrough greedy_bot read_pay ''b'' (Some ''k'') []) = (7, 1)"
    by code_simp
  then show ?thesis using passthrough_ends [OF p] p by simp
qed

end
