(* ===== verification/SpendLog.thy ===== *)
theory SpendLog
  imports BridgeSettings
begin

text \<open>
  The bridge's spend log, \<^verbatim>\<open>bridge/payment.go\<close>: entries, the rolling total that the daily cap is held
  against, the operations that append and mark entries, the pruning on every write, and the file
  \<^verbatim>\<open>mcpspend.json\<close>. Everything here runs under the bridge's mutex; the instant of a call is an argument.

  The sequence number of an entry is not exported, so a reloaded entry has number 0.
\<close>

section \<open>Entries\<close>

definition spendPending :: string where "spendPending = ''pending''"
definition spendPaid :: string where "spendPaid = ''paid''"
definition spendFailed :: string where "spendFailed = ''failed''"
definition spendRefused :: string where "spendRefused = ''refused''"
definition spendKeep :: nat where "spendKeep = 1000"

lemmas spend_strings = spendPending_def spendPaid_def spendFailed_def spendRefused_def

record SpendEntry =
  se_ts :: int64
  se_bot :: string
  se_tool :: string
  se_rail :: string
  se_atoms :: int64
  se_status :: string
  se_err :: string
  se_seq :: int64

record spend_log =
  sp_entries :: "SpendEntry list"
  sp_seq :: int64
  sp_file :: "SpendEntry list plain_file"

definition countsTowardCap :: "string \<Rightarrow> bool" where
  "countsTowardCap status \<longleftrightarrow> status \<noteq> spendFailed \<and> status \<noteq> spendRefused"

definition day :: duration where "day = 24 * hour"

text \<open>The loop of \<^verbatim>\<open>spentSinceLocked\<close>, with its \<^verbatim>\<open>int64\<close> additions.\<close>

fun spent_from :: "int64 \<Rightarrow> int64 \<Rightarrow> SpendEntry list \<Rightarrow> int64" where
  "spent_from lim acc [] = acc"
| "spent_from lim acc (e # es) =
     spent_from lim (if lim \<le> se_ts e \<and> countsTowardCap (se_status e) then add64 acc (se_atoms e) else acc) es"

definition spentSinceLocked :: "instant \<Rightarrow> spend_log \<Rightarrow> int64" where
  "spentSinceLocked cutoff s = spent_from (unix cutoff) 0 (sp_entries s)"

definition SpendLog :: "instant \<Rightarrow> spend_log \<Rightarrow> SpendEntry list \<times> int64" where
  "SpendLog now s = (sp_entries s, spentSinceLocked (now - day) s)"

section \<open>Writing\<close>

definition protected_entry :: "int64 \<Rightarrow> SpendEntry \<Rightarrow> bool" where
  "protected_entry lim e \<longleftrightarrow> lim \<le> se_ts e \<and> countsTowardCap (se_status e) \<or> se_status e = spendPending"

text \<open>The index at which pruning stops: the loop of \<^verbatim>\<open>persistSpendLocked\<close>.\<close>

fun prune_at :: "int64 \<Rightarrow> nat \<Rightarrow> SpendEntry list \<Rightarrow> nat" where
  "prune_at lim (Suc n) (e # es) = (if protected_entry lim e then 0 else Suc (prune_at lim n es))"
| "prune_at lim n es = 0"

definition prune :: "instant \<Rightarrow> SpendEntry list \<Rightarrow> SpendEntry list" where
  "prune now es =
     (if spendKeep < length es
      then drop (prune_at (unix (now - day)) (length es - spendKeep) es) es
      else es)"

definition stored_entry :: "SpendEntry \<Rightarrow> SpendEntry" where
  "stored_entry e = e\<lparr>se_seq := 0\<rparr>"

definition persistSpendLocked :: "instant \<Rightarrow> spend_log \<Rightarrow> bool \<times> spend_log" where
  "persistSpendLocked now s =
     (let es = prune now (sp_entries s);
          (ok, f) = write_file (map stored_entry es) (sp_file s)
      in (ok, s\<lparr>sp_entries := es, sp_file := f\<rparr>))"

text \<open>The second half of \<^verbatim>\<open>loadState\<close>.\<close>

definition load_spend :: "spend_log \<Rightarrow> open_error + spend_log" where
  "load_spend s = (case read_file [] (pf_file (sp_file s)) of
     Inl e \<Rightarrow> Inl e
   | Inr es \<Rightarrow> Inr (s\<lparr>sp_entries := es, sp_seq := 0\<rparr>))"

section \<open>Operations\<close>

definition append_entry :: "instant \<Rightarrow> string \<Rightarrow> string \<Rightarrow> string \<Rightarrow> int64 \<Rightarrow> string \<Rightarrow> string \<Rightarrow> spend_log \<Rightarrow> spend_log" where
  "append_entry now uid tool rail atoms status err s =
     (let seq = add64 (sp_seq s) 1 in
      snd (persistSpendLocked now (s\<lparr>sp_seq := seq, sp_entries := sp_entries s @
        [\<lparr>se_ts = unix now, se_bot = uid, se_tool = tool, se_rail = rail, se_atoms = atoms, se_status = status,
          se_err = err, se_seq = seq\<rparr>]\<rparr>)))"

definition recordSpendLocked :: "instant \<Rightarrow> string \<Rightarrow> string \<Rightarrow> string \<Rightarrow> int64 \<Rightarrow> spend_log \<Rightarrow> spend_log \<times> int64" where
  "recordSpendLocked now uid tool rail atoms s =
     (append_entry now uid tool rail atoms spendPending '''' s, add64 (sp_seq s) 1)"

definition refuse :: "instant \<Rightarrow> string \<Rightarrow> string \<Rightarrow> int64 \<Rightarrow> string \<Rightarrow> spend_log \<Rightarrow> spend_log" where
  "refuse now uid tool atoms reason s = append_entry now uid tool ''tip'' atoms spendRefused reason s"

text \<open>Rewriting the first entry that satisfies a test.\<close>

fun update_first :: "('a \<Rightarrow> bool) \<Rightarrow> ('a \<Rightarrow> 'a) \<Rightarrow> 'a list \<Rightarrow> 'a list option" where
  "update_first P f [] = None"
| "update_first P f (x # xs) = (if P x then Some (f x # xs) else map_option ((#) x) (update_first P f xs))"

definition markSpendLocked :: "instant \<Rightarrow> int64 \<Rightarrow> string \<Rightarrow> string \<Rightarrow> spend_log \<Rightarrow> spend_log" where
  "markSpendLocked now seq status err s =
     (case update_first (\<lambda>e. se_seq e = seq \<and> seq \<noteq> 0) (\<lambda>e. e\<lparr>se_status := status, se_err := err\<rparr>) (sp_entries s) of
        None \<Rightarrow> s
      | Some es \<Rightarrow> snd (persistSpendLocked now (s\<lparr>sp_entries := es\<rparr>)))"

definition late_match :: "string \<Rightarrow> int64 \<Rightarrow> SpendEntry \<Rightarrow> bool" where
  "late_match uid atoms e \<longleftrightarrow> se_status e = spendPending \<and> se_atoms e = atoms \<and> equal_fold (se_bot e) uid"

definition late_outcome :: "string option \<Rightarrow> SpendEntry \<Rightarrow> SpendEntry" where
  "late_outcome err e = (case err of
     Some x \<Rightarrow> e\<lparr>se_status := spendFailed, se_err := x\<rparr>
   | None \<Rightarrow> e\<lparr>se_status := spendPaid, se_err := ''''\<rparr>)"

definition ResolveSpend :: "instant \<Rightarrow> string \<Rightarrow> int64 \<Rightarrow> string option \<Rightarrow> spend_log \<Rightarrow> spend_log \<times> bool" where
  "ResolveSpend now uid atoms err s =
     (case update_first (late_match uid atoms) (late_outcome err) (sp_entries s) of
        None \<Rightarrow> (s, False)
      | Some es \<Rightarrow> (snd (persistSpendLocked now (s\<lparr>sp_entries := es\<rparr>)), True))"

section \<open>The exact total\<close>

text \<open>What an entry adds to a rolling total, and the total without wrap-around.\<close>

definition weight :: "int64 \<Rightarrow> SpendEntry \<Rightarrow> int" where
  "weight lim e = (if lim \<le> se_ts e \<and> countsTowardCap (se_status e) then se_atoms e else 0)"

definition spent :: "int64 \<Rightarrow> SpendEntry list \<Rightarrow> int" where
  "spent lim es = (\<Sum>e \<leftarrow> es. weight lim e)"

lemma spent_simps [simp]:
  "spent lim [] = 0" "spent lim (e # es) = weight lim e + spent lim es"
  "spent lim (es @ fs) = spent lim es + spent lim fs"
  by (simp_all add: spent_def)

lemma spent_from_cong: "wrap64 (spent_from lim acc es) = wrap64 (acc + spent lim es)"
proof (induction es arbitrary: acc)
  case Nil
  then show ?case by simp
next
  case (Cons e es)
  have "wrap64 (wrap64 (acc + a) + b) = wrap64 (acc + a + b)" for a b
    using wrap64_diff_add [of "acc + a + b" b] by simp
  then show ?case by (simp add: Cons.IH weight_def add64_def add.assoc)
qed

lemma spent_from_in64: "in64 acc \<Longrightarrow> in64 (spent_from lim acc es)"
  by (induction es arbitrary: acc) simp_all

text \<open>The code's total is exact whenever the exact total is an \<^verbatim>\<open>int64\<close>.\<close>

lemma spentSince_exact:
  "in64 (spent (unix t) (sp_entries s)) \<Longrightarrow> spentSinceLocked t s = spent (unix t) (sp_entries s)"
  using spent_from_cong [of "unix t" 0 "sp_entries s"] spent_from_in64 [of 0 "unix t" "sp_entries s"]
  by (simp add: spentSinceLocked_def)

definition entries_ok :: "SpendEntry list \<Rightarrow> bool" where
  "entries_ok es \<longleftrightarrow> (\<forall>e \<in> set es. 0 \<le> se_atoms e)"

lemma weight_nonneg: "0 \<le> se_atoms e \<Longrightarrow> 0 \<le> weight lim e"
  by (simp add: weight_def)

lemma spent_nonneg: "entries_ok es \<Longrightarrow> 0 \<le> spent lim es"
  by (induction es) (auto simp: entries_ok_def weight_nonneg)

text \<open>As time passes entries only leave the window.\<close>

lemma spent_antimono: "entries_ok es \<Longrightarrow> lim \<le> lim' \<Longrightarrow> spent lim' es \<le> spent lim es"
  by (induction es) (auto simp: entries_ok_def weight_def)

section \<open>Pruning\<close>

lemma prune_at_le: "prune_at lim n es \<le> n"
  by (induction lim n es rule: prune_at.induct) auto

lemma prune_at_unprotected: "e \<in> set (take (prune_at lim n es) es) \<Longrightarrow> \<not> protected_entry lim e"
  by (induction lim n es rule: prune_at.induct) (auto split: if_splits)

lemma prune_at_stops:
  "prune_at lim n es < n \<Longrightarrow> n \<le> length es \<Longrightarrow> protected_entry lim (es ! prune_at lim n es)"
  by (induction lim n es rule: prune_at.induct) (auto split: if_splits)

lemma prune_split:
  obtains ds where "es = ds @ prune now es" "\<forall>e \<in> set ds. \<not> protected_entry (unix (now - day)) e"
proof
  let ?n = "if spendKeep < length es then prune_at (unix (now - day)) (length es - spendKeep) es else 0"
  show "es = take ?n es @ prune now es" by (simp add: prune_def)
  show "\<forall>e \<in> set (take ?n es). \<not> protected_entry (unix (now - day)) e"
    by (auto dest: prune_at_unprotected split: if_splits)
qed

lemma spent_unprotected:
  "\<forall>e \<in> set ds. \<not> protected_entry lim e \<Longrightarrow> lim \<le> lim' \<Longrightarrow> spent lim' ds = 0"
  by (induction ds) (auto simp: protected_entry_def weight_def)

lemma spent_prune:
  assumes "unix (now - day) \<le> lim"
  shows "spent lim (prune now es) = spent lim es"
proof -
  obtain ds where "es = ds @ prune now es" "\<forall>e \<in> set ds. \<not> protected_entry (unix (now - day)) e"
    by (rule prune_split)
  then show ?thesis using spent_unprotected [OF _ assms] by (metis add_0 spent_simps(3))
qed

lemma prune_pending: "filter (\<lambda>e. se_status e = spendPending) (prune now es) = filter (\<lambda>e. se_status e = spendPending) es"
proof -
  obtain ds where d: "es = ds @ prune now es" "\<forall>e \<in> set ds. \<not> protected_entry (unix (now - day)) e"
    by (rule prune_split)
  then have "filter (\<lambda>e. se_status e = spendPending) ds = []"
    by (auto simp: protected_entry_def filter_empty_conv)
  then show ?thesis using arg_cong [OF d(1), of "filter (\<lambda>e. se_status e = spendPending)"] by simp
qed

lemma set_prune: "set (prune now es) \<subseteq> set es"
  by (auto simp: prune_def dest: in_set_dropD)

lemma prune_bound:
  "length (prune now es) \<le> spendKeep \<or> protected_entry (unix (now - day)) (hd (prune now es))"
proof (cases "spendKeep < length es")
  case True
  let ?n = "length es - spendKeep" and ?lim = "unix (now - day)"
  have k: "prune_at ?lim ?n es \<le> ?n" by (rule prune_at_le)
  show ?thesis
  proof (cases "prune_at ?lim ?n es = ?n")
    case True
    then show ?thesis using \<open>spendKeep < length es\<close> by (simp add: prune_def)
  next
    case False
    then have "protected_entry ?lim (es ! prune_at ?lim ?n es)"
      using k True by (intro prune_at_stops) simp_all
    moreover have "prune_at ?lim ?n es < length es" using k True False by linarith
    ultimately show ?thesis using True by (simp add: prune_def hd_drop_conv_nth)
  qed
next
  case False
  then show ?thesis by (simp add: prune_def)
qed

lemma persistSpend_simps [simp]:
  "sp_entries (snd (persistSpendLocked now s)) = prune now (sp_entries s)"
  "sp_seq (snd (persistSpendLocked now s)) = sp_seq s"
  by (simp_all add: persistSpendLocked_def Let_def split: prod.splits)

lemma append_entry_simps [simp]:
  "sp_seq (append_entry now uid tool rail atoms status err s) = add64 (sp_seq s) 1"
  "sp_entries (append_entry now uid tool rail atoms status err s) = prune now (sp_entries s @
     [\<lparr>se_ts = unix now, se_bot = uid, se_tool = tool, se_rail = rail, se_atoms = atoms, se_status = status,
       se_err = err, se_seq = add64 (sp_seq s) 1\<rparr>])"
  by (simp_all add: append_entry_def Let_def)

lemma update_first_None: "update_first P f xs = None \<longleftrightarrow> (\<forall>x \<in> set xs. \<not> P x)"
  by (induction xs) auto

lemma update_first_Some:
  "update_first P f xs = Some ys \<Longrightarrow> \<exists>as x bs. xs = as @ x # bs \<and> ys = as @ f x # bs \<and> P x \<and> (\<forall>a \<in> set as. \<not> P a)"
proof (induction xs arbitrary: ys)
  case Nil
  then show ?case by simp
next
  case (Cons z zs)
  show ?case
  proof (cases "P z")
    case True
    then show ?thesis using Cons.prems by (intro exI [of _ "[]"] exI [of _ z] exI [of _ zs]) auto
  next
    case False
    then obtain ws where w: "update_first P f zs = Some ws" "ys = z # ws" using Cons.prems by auto
    then obtain as x bs where "zs = as @ x # bs" "ws = as @ f x # bs" "P x" "\<forall>a \<in> set as. \<not> P a"
      using Cons.IH by blast
    then show ?thesis using False w(2) by (intro exI [of _ "z # as"] exI [of _ x] exI [of _ bs]) simp
  qed
qed

end
