(* ===== verification/Settle.thy ===== *)
theory Settle
  imports SpendLog Payment
begin

text \<open>
  Settling payment refusals: \<^verbatim>\<open>settle\<close>, \<^verbatim>\<open>awaitApproval\<close>, \<^verbatim>\<open>PendingPayments\<close> and \<^verbatim>\<open>ResolvePayment\<close> of
  \<^verbatim>\<open>bridge/payment.go\<close>. \<^verbatim>\<open>settle\<close> releases the bridge's mutex several times, so a settlement is a record
  of its local variables and the point it has reached, and \<open>settle_step\<close> lets any number of them, the
  human, the late outcomes and the clock take turns.

  The rail (\<^verbatim>\<open>Payer\<close>) is the host's: its answer is part of the event, and so is whether the payment's
  context had ended by then.
\<close>

section \<open>Deciding\<close>

definition settle_amount :: "PaymentRequired \<Rightarrow> int64" where
  "settle_amount pr = (if pr_shortfall pr \<le> 0 then pr_price pr else pr_shortfall pr)"

definition per_call_error :: "int64 \<Rightarrow> Settings \<Rightarrow> string" where
  "per_call_error atoms s =
     dec_of_int atoms @ '' atoms exceeds the per-call cap ('' @ dec_of_int (PerCallCapAtoms s) @ '')''"

definition per_day_error :: "int64 \<Rightarrow> int64 \<Rightarrow> Settings \<Rightarrow> string" where
  "per_day_error atoms spentToday s =
     dec_of_int atoms @ '' atoms would exceed the daily cap ('' @ dec_of_int spentToday @ '' spent of '' @
     dec_of_int (PerDayCapAtoms s) @ '')''"

text \<open>\<open>%s\<close> of a duration of whole seconds.\<close>

definition seconds_string :: "int64 \<Rightarrow> string" where
  "seconds_string n =
     (if n < 60 then dec_of_int n @ ''s''
      else if n < 3600 then dec_of_int (n div 60) @ ''m'' @ dec_of_int (n mod 60) @ ''s''
      else dec_of_int (n div 3600) @ ''h'' @ dec_of_int (n div 60 mod 60) @ ''m'' @ dec_of_int (n mod 60) @ ''s'')"

definition timeout_error :: "Settings \<Rightarrow> string" where
  "timeout_error s = ''approval timed out after '' @ seconds_string (ApprovalTimeoutSecs s)"

datatype settle_phase =
    Refusing string
  | Parking
  | Parked
  | Unparking "string option"
  | Launching
  | Paying int64
  | Finished "string option"

text \<open>The checks between the first unlock and the branch on the mode.\<close>

definition judge :: "Settings \<Rightarrow> int64 \<Rightarrow> int64 \<Rightarrow> settle_phase" where
  "judge s spentToday atoms =
     (if PerCallCapAtoms s \<le> 0 \<or> PerCallCapAtoms s < atoms then Refusing (per_call_error atoms s)
      else if PerDayCapAtoms s \<le> 0 \<or> PerDayCapAtoms s < add64 spentToday atoms then Refusing (per_day_error atoms spentToday s)
      else if Mode s = ''approval'' then Parking
      else Launching)"

section \<open>Settlements\<close>

text \<open>\<open>sc_decision\<close> is the buffered channel of a parked payment together with its \<^verbatim>\<open>sync.Once\<close>.\<close>

record settlement =
  sc_bot :: string
  sc_tool :: string
  sc_atoms :: int64
  sc_settings :: Settings
  sc_spent :: int64
  sc_id :: string
  sc_created :: int64
  sc_decision :: "bool option"
  sc_phase :: settle_phase

record bridge_money =
  bm_settings :: Settings
  bm_log :: spend_log
  bm_pending :: "(string, nat) gomap"
  bm_calls :: "settlement list"
  bm_now :: instant

text \<open>\<^verbatim>\<open>settle\<close> up to its first blocking point.\<close>

definition settle_begin :: "string \<Rightarrow> string \<Rightarrow> PaymentRequired \<Rightarrow> bridge_money \<Rightarrow> settlement" where
  "settle_begin uid tool pr b =
     (let atoms = settle_amount pr; s = bm_settings b; spentToday = spentSinceLocked (bm_now b - day) (bm_log b)
      in \<lparr>sc_bot = uid, sc_tool = tool, sc_atoms = atoms, sc_settings = s, sc_spent = spentToday,
          sc_id = '''', sc_created = 0, sc_decision = None,
          sc_phase = (if atoms \<le> 0 then Finished (Some ''bot requested a nonpositive amount'')
                      else judge s spentToday atoms)\<rparr>)"

definition set_call :: "nat \<Rightarrow> settlement \<Rightarrow> bridge_money \<Rightarrow> bridge_money" where
  "set_call i c b = b\<lparr>bm_calls := (bm_calls b)[i := c]\<rparr>"

definition settle_refuse :: "nat \<Rightarrow> bridge_money \<Rightarrow> bridge_money option" where
  "settle_refuse i b = (let c = bm_calls b ! i in case sc_phase c of
     Refusing reason \<Rightarrow> Some (set_call i (c\<lparr>sc_phase := Finished (Some reason)\<rparr>)
       (b\<lparr>bm_log := refuse (bm_now b) (sc_bot c) (sc_tool c) (sc_atoms c) reason (bm_log b)\<rparr>))
   | _ \<Rightarrow> None)"

text \<open>\<^verbatim>\<open>awaitApproval\<close>: parking under a fresh id (\<open>None\<close>: no randomness), the \<^verbatim>\<open>select\<close>, and the deferred
  removal.\<close>

definition park :: "nat \<Rightarrow> string option \<Rightarrow> bridge_money \<Rightarrow> bridge_money option" where
  "park i rid b = (let c = bm_calls b ! i in case sc_phase c of
     Parking \<Rightarrow> (case rid of
         None \<Rightarrow> Some (set_call i (c\<lparr>sc_phase := Refusing ''rand''\<rparr>) b)
       | Some pid \<Rightarrow> Some (set_call i (c\<lparr>sc_id := pid, sc_created := unix (bm_now b), sc_phase := Parked\<rparr>)
           (b\<lparr>bm_pending := gput pid i (bm_pending b)\<rparr>)))
   | _ \<Rightarrow> None)"

datatype approval_end = Decision | TimedOut | CtxDone string

definition approval_ends :: "nat \<Rightarrow> approval_end \<Rightarrow> bridge_money \<Rightarrow> bridge_money option" where
  "approval_ends i how b = (let c = bm_calls b ! i in case sc_phase c of
     Parked \<Rightarrow> (case how of
         Decision \<Rightarrow> (case sc_decision c of
             None \<Rightarrow> None
           | Some True \<Rightarrow> Some (set_call i (c\<lparr>sc_phase := Unparking None\<rparr>) b)
           | Some False \<Rightarrow> Some (set_call i (c\<lparr>sc_phase := Unparking (Some ''payment denied by the user'')\<rparr>) b))
       | TimedOut \<Rightarrow> Some (set_call i (c\<lparr>sc_phase := Unparking (Some (timeout_error (sc_settings c)))\<rparr>) b)
       | CtxDone e \<Rightarrow> Some (set_call i (c\<lparr>sc_phase := Unparking (Some e)\<rparr>) b))
   | _ \<Rightarrow> None)"

definition unpark :: "nat \<Rightarrow> bridge_money \<Rightarrow> bridge_money option" where
  "unpark i b = (let c = bm_calls b ! i in case sc_phase c of
     Unparking err \<Rightarrow> Some (set_call i (c\<lparr>sc_phase := (case err of None \<Rightarrow> Launching | Some e \<Rightarrow> Refusing e)\<rparr>)
       (b\<lparr>bm_pending := gdel (sc_id c) (bm_pending b)\<rparr>))
   | _ \<Rightarrow> None)"

definition launch :: "nat \<Rightarrow> bridge_money \<Rightarrow> bridge_money option" where
  "launch i b = (let c = bm_calls b ! i in case sc_phase c of
     Launching \<Rightarrow> (case recordSpendLocked (bm_now b) (sc_bot c) (sc_tool c) ''tip'' (sc_atoms c) (bm_log b) of
       (l, seq) \<Rightarrow> Some (set_call i (c\<lparr>sc_phase := Paying seq\<rparr>) (b\<lparr>bm_log := l\<rparr>)))
   | _ \<Rightarrow> None)"

text \<open>The payer answers with an error or nil; \<open>expired\<close> is \<^verbatim>\<open>payCtx.Err() != nil\<close>.\<close>

definition pay_returns :: "nat \<Rightarrow> string option \<Rightarrow> bool \<Rightarrow> bridge_money \<Rightarrow> bridge_money option" where
  "pay_returns i res expired b = (let c = bm_calls b ! i in case sc_phase c of
     Paying seq \<Rightarrow> Some (set_call i (c\<lparr>sc_phase := Finished res\<rparr>) (b\<lparr>bm_log :=
       (case res of
          Some e \<Rightarrow> if expired then bm_log b else markSpendLocked (bm_now b) seq spendFailed e (bm_log b)
        | None \<Rightarrow> markSpendLocked (bm_now b) seq spendPaid '''' (bm_log b))\<rparr>))
   | _ \<Rightarrow> None)"

section \<open>The human's side\<close>

record PendingPayment =
  pp_ID :: string
  pp_bot :: string
  pp_tool :: string
  pp_atoms :: int64
  pp_created :: int64

definition pending_payment :: "settlement \<Rightarrow> PendingPayment" where
  "pending_payment c = \<lparr>pp_ID = sc_id c, pp_bot = sc_bot c, pp_tool = sc_tool c, pp_atoms = sc_atoms c, pp_created = sc_created c\<rparr>"

text \<open>The order of the listing: by creation, then by id, compared as byte strings.\<close>

fun string_less :: "string \<Rightarrow> string \<Rightarrow> bool" where
  "string_less _ [] = False"
| "string_less [] (_ # _) = True"
| "string_less (c # cs) (d # ds) =
     (of_char c < (of_char d :: nat) \<or> c = d \<and> string_less cs ds)"

definition listed_before :: "PendingPayment \<Rightarrow> PendingPayment \<Rightarrow> bool" where
  "listed_before p q \<longleftrightarrow>
     (if pp_created p \<noteq> pp_created q then pp_created p < pp_created q else string_less (pp_ID p) (pp_ID q))"

fun insert_listed :: "PendingPayment \<Rightarrow> PendingPayment list \<Rightarrow> PendingPayment list" where
  "insert_listed p [] = [p]"
| "insert_listed p (q # qs) = (if listed_before q p then q # insert_listed p qs else p # q # qs)"

definition PendingPayments :: "bridge_money \<Rightarrow> PendingPayment list" where
  "PendingPayments b =
     foldr (\<lambda>(_, i). insert_listed (pending_payment (bm_calls b ! i))) (bm_pending b) []"

definition ResolvePayment :: "string \<Rightarrow> bool \<Rightarrow> bridge_money \<Rightarrow> bridge_money \<times> bool" where
  "ResolvePayment pid approve b = (case map_of (bm_pending b) pid of
     None \<Rightarrow> (b, False)
   | Some i \<Rightarrow> (let c = bm_calls b ! i in
       (case sc_decision c of
          None \<Rightarrow> (set_call i (c\<lparr>sc_decision := Some approve\<rparr>) b, True)
        | Some _ \<Rightarrow> (b, True))))"

section \<open>Any order\<close>

datatype settle_event =
    Begin string string PaymentRequired
  | RecordRefusal nat
  | Park nat "string option"
  | Decide string bool
  | ApprovalEnds nat approval_end
  | Unpark nat
  | Launch nat
  | PayReturns nat "string option" bool
  | LateOutcome string int64 "string option"
  | Tick duration

definition settle_step :: "settle_event \<Rightarrow> bridge_money \<Rightarrow> bridge_money option" where
  "settle_step e b = (case e of
     Begin uid tool pr \<Rightarrow> Some (b\<lparr>bm_calls := bm_calls b @ [settle_begin uid tool pr b]\<rparr>)
   | RecordRefusal i \<Rightarrow> if i < length (bm_calls b) then settle_refuse i b else None
   | Park i rid \<Rightarrow> if i < length (bm_calls b) then park i rid b else None
   | Decide pid approve \<Rightarrow> Some (fst (ResolvePayment pid approve b))
   | ApprovalEnds i how \<Rightarrow> if i < length (bm_calls b) then approval_ends i how b else None
   | Unpark i \<Rightarrow> if i < length (bm_calls b) then unpark i b else None
   | Launch i \<Rightarrow> if i < length (bm_calls b) then launch i b else None
   | PayReturns i res expired \<Rightarrow> if i < length (bm_calls b) then pay_returns i res expired b else None
   | LateOutcome uid atoms res \<Rightarrow> Some (b\<lparr>bm_log := fst (ResolveSpend (bm_now b) uid atoms res (bm_log b))\<rparr>)
   | Tick d \<Rightarrow> if 0 \<le> d then Some (b\<lparr>bm_now := bm_now b + d\<rparr>) else None)"

fun settle_exec :: "settle_event list \<Rightarrow> bridge_money \<Rightarrow> bridge_money option" where
  "settle_exec [] b = Some b"
| "settle_exec (e # es) b = (case settle_step e b of None \<Rightarrow> None | Some b' \<Rightarrow> settle_exec es b')"

section \<open>What every settlement has passed\<close>

text \<open>The local variables say which checks lie behind a settlement.\<close>

definition within_caps :: "settlement \<Rightarrow> bool" where
  "within_caps c \<longleftrightarrow> 0 < sc_atoms c \<and> sc_atoms c \<le> PerCallCapAtoms (sc_settings c) \<and>
     add64 (sc_spent c) (sc_atoms c) \<le> PerDayCapAtoms (sc_settings c) \<and> 0 < PerDayCapAtoms (sc_settings c)"

definition approved :: "settlement \<Rightarrow> bool" where
  "approved c \<longleftrightarrow> (Mode (sc_settings c) = ''approval'' \<longrightarrow> sc_decision c = Some True)"

fun call_ok :: "settle_phase \<Rightarrow> settlement \<Rightarrow> bool" where
  "call_ok Parking c = (within_caps c \<and> sc_decision c = None)"
| "call_ok Parked c = within_caps c"
| "call_ok (Unparking err) c = (within_caps c \<and> (err = None \<longrightarrow> approved c))"
| "call_ok Launching c = (within_caps c \<and> approved c)"
| "call_ok (Paying seq) c = (within_caps c \<and> approved c)"
| "call_ok (Finished err) c = (err = None \<longrightarrow> within_caps c \<and> approved c)"
| "call_ok (Refusing r) c = True"

definition waiting :: "settle_phase \<Rightarrow> bool" where
  "waiting ph \<longleftrightarrow> ph = Parked \<or> (\<exists>e. ph = Unparking e)"

definition money_ok :: "settle_event list \<Rightarrow> bridge_money \<Rightarrow> bool" where
  "money_ok es b \<longleftrightarrow> gmap_ok (bm_pending b) \<and>
     (\<forall>c \<in> set (bm_calls b). call_ok (sc_phase c) c \<and> (\<forall>d. sc_decision c = Some d \<longrightarrow> Decide (sc_id c) d \<in> set es)) \<and>
     (\<forall>pid i. map_of (bm_pending b) pid = Some i \<longrightarrow> i < length (bm_calls b) \<and> sc_id (bm_calls b ! i) = pid \<and>
        waiting (sc_phase (bm_calls b ! i)))"

lemma money_ok_update:
  assumes "money_ok es b" "i < length (bm_calls b)"
    "call_ok (sc_phase c) c" "\<forall>d. sc_decision c = Some d \<longrightarrow> Decide (sc_id c) d \<in> set es"
    "gmap_ok (bm_pending b')" "bm_calls b' = (bm_calls b)[i := c]"
    "\<And>pid j. map_of (bm_pending b') pid = Some j \<Longrightarrow>
      (if j = i then sc_id c = pid \<and> waiting (sc_phase c) else map_of (bm_pending b) pid = Some j)"
  shows "money_ok es b'"
  unfolding money_ok_def
proof (intro conjI allI impI)
  show "gmap_ok (bm_pending b')" by (rule assms(5))
  show "\<forall>c \<in> set (bm_calls b'). call_ok (sc_phase c) c \<and> (\<forall>d. sc_decision c = Some d \<longrightarrow> Decide (sc_id c) d \<in> set es)"
    using assms(1,3,4) unfolding assms(6) by (auto simp: money_ok_def dest!: set_update_subset_insert [THEN subsetD])
next
  fix pid j
  assume m: "map_of (bm_pending b') pid = Some j"
  show "j < length (bm_calls b')" "sc_id (bm_calls b' ! j) = pid" "waiting (sc_phase (bm_calls b' ! j))"
    using assms(7) [OF m] assms(1,2) unfolding assms(6)
    by (auto simp: money_ok_def nth_list_update split: if_splits)
qed

text \<open>Most steps change one settlement and leave the queue of parked ones alone.\<close>

lemma money_ok_phase:
  assumes "money_ok es b" "i < length (bm_calls b)" "c = (bm_calls b ! i)\<lparr>sc_phase := ph\<rparr>"
    "call_ok ph c" "waiting (sc_phase (bm_calls b ! i)) \<Longrightarrow> waiting ph"
  shows "money_ok es (set_call i c (b\<lparr>bm_log := l\<rparr>))" and "money_ok es (set_call i c b)"
proof -
  have d: "\<forall>d. sc_decision c = Some d \<longrightarrow> Decide (sc_id c) d \<in> set es"
    using assms(1-3) by (auto simp: money_ok_def)
  have p: "map_of (bm_pending b) pid = Some j \<Longrightarrow>
      (if j = i then sc_id c = pid \<and> waiting (sc_phase c) else map_of (bm_pending b) pid = Some j)" for pid j
    using assms(1,3,5) by (auto simp: money_ok_def)
  have k: "call_ok (sc_phase c) c" and g: "gmap_ok (bm_pending b)"
    using assms(1,3,4) by (simp_all add: money_ok_def)
  have upd: "money_ok es b'" if "bm_pending b' = bm_pending b" "bm_calls b' = (bm_calls b)[i := c]" for b'
    by (rule money_ok_update [OF assms(1,2) k d]) (unfold that, rule g, rule refl, rule p)
  show "money_ok es (set_call i c (b\<lparr>bm_log := l\<rparr>))" "money_ok es (set_call i c b)"
    by (rule upd; simp add: set_call_def)+
qed

lemma money_okD:
  assumes "money_ok es b"
  shows "i < length (bm_calls b) \<Longrightarrow> call_ok (sc_phase (bm_calls b ! i)) (bm_calls b ! i)"
    and "map_of (bm_pending b) pid = Some i \<Longrightarrow>
      i < length (bm_calls b) \<and> sc_id (bm_calls b ! i) = pid \<and> waiting (sc_phase (bm_calls b ! i))"
  using assms by (simp_all add: money_ok_def)

lemma money_ok_mono: "money_ok es b \<Longrightarrow> money_ok (es @ fs) b"
  by (force simp: money_ok_def)

lemma call_ok_begin:
  assumes "c = settle_begin u t pr b"
  shows "call_ok (sc_phase c) c" "sc_decision c = None"
  using assms by (auto simp: settle_begin_def judge_def Let_def within_caps_def approved_def)

lemma money_ok_step:
  assumes "money_ok es b" "settle_step e b = Some b'"
  shows "money_ok (es @ [e]) b'"
proof (cases e)
  case (Begin u t pr)
  have "call_ok (sc_phase (settle_begin u t pr b)) (settle_begin u t pr b)" "sc_decision (settle_begin u t pr b) = None"
    by (rule call_ok_begin, rule refl)+
  then show ?thesis using assms Begin
    by (auto simp: settle_step_def money_ok_def nth_append less_Suc_eq)
next
  case (RecordRefusal i)
  then have i: "i < length (bm_calls b)" and r: "settle_refuse i b = Some b'"
    using assms(2) by (auto simp: settle_step_def split: if_splits)
  from r have "\<exists>r l. b' = set_call i ((bm_calls b ! i)\<lparr>sc_phase := Finished (Some r)\<rparr>) (b\<lparr>bm_log := l\<rparr>) \<and> \<not> waiting (sc_phase (bm_calls b ! i))"
    by (auto simp: settle_refuse_def Let_def waiting_def split: settle_phase.splits)
  then obtain r l where b': "b' = set_call i ((bm_calls b ! i)\<lparr>sc_phase := Finished (Some r)\<rparr>) (b\<lparr>bm_log := l\<rparr>)"
    and w: "\<not> waiting (sc_phase (bm_calls b ! i))" by blast
  show ?thesis unfolding b' by (rule money_ok_phase [OF money_ok_mono [OF assms(1)] i refl]) (use w in simp_all)
next
  case (Park i rid)
  then have i: "i < length (bm_calls b)" and r: "park i rid b = Some b'"
    using assms(2) by (auto simp: settle_step_def split: if_splits)
  then have ph: "sc_phase (bm_calls b ! i) = Parking" by (auto simp: park_def Let_def split: settle_phase.splits)
  then have c: "within_caps (bm_calls b ! i)" "sc_decision (bm_calls b ! i) = None"
    using money_okD(1) [OF assms(1) i] ph by simp_all
  have no: "map_of (bm_pending b) pid \<noteq> Some i" for pid
  proof
    assume "map_of (bm_pending b) pid = Some i"
    then have "waiting (sc_phase (bm_calls b ! i))" using money_okD(2) [OF assms(1)] by blast
    then show False by (simp add: ph waiting_def)
  qed
  show ?thesis
  proof (cases rid)
    case None
    then have b': "b' = set_call i ((bm_calls b ! i)\<lparr>sc_phase := Refusing ''rand''\<rparr>) b"
      using r ph by (simp add: park_def)
    show ?thesis unfolding b'
      by (rule money_ok_phase(2) [OF money_ok_mono [OF assms(1)] i refl]) (simp_all add: ph waiting_def)
  next
    case (Some pid)
    then have b': "b' = set_call i ((bm_calls b ! i)\<lparr>sc_id := pid, sc_created := unix (bm_now b), sc_phase := Parked\<rparr>)
        (b\<lparr>bm_pending := gput pid i (bm_pending b)\<rparr>)"
      using r ph by (simp add: park_def)
    show ?thesis unfolding b'
      by (rule money_ok_update [OF money_ok_mono [OF assms(1)] i, rotated 4])
        (use assms(1) no c in \<open>auto simp: set_call_def waiting_def within_caps_def money_ok_def split: if_splits\<close>)
  qed
next
  case (Decide pid approve)
  then have b': "b' = fst (ResolvePayment pid approve b)" using assms(2) by (simp add: settle_step_def)
  show ?thesis
  proof (cases "map_of (bm_pending b) pid")
    case None
    then show ?thesis using b' money_ok_mono [OF assms(1)] by (simp add: ResolvePayment_def)
  next
    case (Some i)
    then have i: "i < length (bm_calls b)" "sc_id (bm_calls b ! i) = pid" "waiting (sc_phase (bm_calls b ! i))"
      using money_okD(2) [OF assms(1)] by blast+
    then have ok: "call_ok (sc_phase (bm_calls b ! i)) (bm_calls b ! i)" using assms(1) by (simp add: money_ok_def)
    show ?thesis
    proof (cases "sc_decision (bm_calls b ! i)")
      case None
      then have e: "b' = set_call i ((bm_calls b ! i)\<lparr>sc_decision := Some approve\<rparr>) b"
        using b' Some by (simp add: ResolvePayment_def Let_def)
      have "call_ok (sc_phase (bm_calls b ! i)) ((bm_calls b ! i)\<lparr>sc_decision := Some approve\<rparr>)"
        using i(3) ok None by (auto simp: waiting_def within_caps_def approved_def)
      then show ?thesis unfolding e
        by (intro money_ok_update [OF money_ok_mono [OF assms(1)] i(1), rotated 4])
          (use assms(1) i Decide in \<open>auto simp: set_call_def money_ok_def\<close>)
    next
      case (Some d)
      then have "b' = b" using b' \<open>map_of (bm_pending b) pid = Some i\<close> by (simp add: ResolvePayment_def Let_def)
      then show ?thesis using money_ok_mono [OF assms(1)] by simp
    qed
  qed
next
  case (ApprovalEnds i how)
  then have i: "i < length (bm_calls b)" and r: "approval_ends i how b = Some b'"
    using assms(2) by (auto simp: settle_step_def split: if_splits)
  have "\<exists>err. b' = set_call i ((bm_calls b ! i)\<lparr>sc_phase := Unparking err\<rparr>) b \<and> sc_phase (bm_calls b ! i) = Parked \<and>
      (err = None \<longrightarrow> approved (bm_calls b ! i))"
    using r by (auto simp: approval_ends_def Let_def approved_def split: settle_phase.splits approval_end.splits option.splits bool.splits)
  then obtain err where b': "b' = set_call i ((bm_calls b ! i)\<lparr>sc_phase := Unparking err\<rparr>) b"
    and p: "sc_phase (bm_calls b ! i) = Parked" "err = None \<longrightarrow> approved (bm_calls b ! i)" by blast
  then have "within_caps (bm_calls b ! i)" using money_okD(1) [OF assms(1) i] p by simp
  then show ?thesis unfolding b' using p
    by (intro money_ok_phase(2) [OF money_ok_mono [OF assms(1)] i refl]) (auto simp: waiting_def within_caps_def approved_def)
next
  case (Unpark i)
  then have i: "i < length (bm_calls b)" and r: "unpark i b = Some b'"
    using assms(2) by (auto simp: settle_step_def split: if_splits)
  then obtain err where ph: "sc_phase (bm_calls b ! i) = Unparking err" and
    b': "b' = set_call i ((bm_calls b ! i)\<lparr>sc_phase := (case err of None \<Rightarrow> Launching | Some e \<Rightarrow> Refusing e)\<rparr>)
       (b\<lparr>bm_pending := gdel (sc_id (bm_calls b ! i)) (bm_pending b)\<rparr>)"
    by (auto simp: unpark_def Let_def split: settle_phase.splits)
  have ok: "call_ok (Unparking err) (bm_calls b ! i)" using money_okD(1) [OF assms(1) i] ph by simp
  have own: "map_of (bm_pending b) pid = Some i \<Longrightarrow> sc_id (bm_calls b ! i) = pid" for pid
    using money_okD(2) [OF assms(1)] by blast
  show ?thesis unfolding b'
    by (rule money_ok_update [OF money_ok_mono [OF assms(1)] i, rotated 4])
      (use assms(1) own ok i in \<open>auto simp: set_call_def within_caps_def approved_def money_ok_def split: if_splits option.splits\<close>)
next
  case (Launch i)
  then have i: "i < length (bm_calls b)" and r: "launch i b = Some b'"
    using assms(2) by (auto simp: settle_step_def split: if_splits)
  then obtain seq l where ph: "sc_phase (bm_calls b ! i) = Launching" and
    b': "b' = set_call i ((bm_calls b ! i)\<lparr>sc_phase := Paying seq\<rparr>) (b\<lparr>bm_log := l\<rparr>)"
    by (auto simp: launch_def recordSpendLocked_def Let_def split: settle_phase.splits)
  have ok: "call_ok Launching (bm_calls b ! i)" using money_okD(1) [OF assms(1) i] ph by simp
  then show ?thesis unfolding b'
    by (intro money_ok_phase [OF money_ok_mono [OF assms(1)] i refl]) (auto simp: ph waiting_def within_caps_def approved_def)
next
  case (PayReturns i res expired)
  then have i: "i < length (bm_calls b)" and r: "pay_returns i res expired b = Some b'"
    using assms(2) by (auto simp: settle_step_def split: if_splits)
  then obtain seq l where ph: "sc_phase (bm_calls b ! i) = Paying seq" and
    b': "b' = set_call i ((bm_calls b ! i)\<lparr>sc_phase := Finished res\<rparr>) (b\<lparr>bm_log := l\<rparr>)"
    by (auto simp: pay_returns_def Let_def split: settle_phase.splits)
  have ok: "call_ok (Paying seq) (bm_calls b ! i)" using money_okD(1) [OF assms(1) i] ph by simp
  then show ?thesis unfolding b'
    by (intro money_ok_phase [OF money_ok_mono [OF assms(1)] i refl]) (auto simp: ph waiting_def within_caps_def approved_def)
next
  case (LateOutcome u a r)
  then show ?thesis using assms money_ok_mono [OF assms(1)] by (auto simp: settle_step_def money_ok_def)
next
  case (Tick d)
  then show ?thesis using assms money_ok_mono [OF assms(1)] by (auto simp: settle_step_def money_ok_def split: if_splits)
qed

lemma money_ok_exec: "settle_exec es b = Some b' \<Longrightarrow> money_ok fs b \<Longrightarrow> money_ok (fs @ es) b'"
proof (induction es arbitrary: b fs)
  case Nil
  then show ?case by simp
next
  case (Cons e es)
  then obtain t where "settle_step e b = Some t" "settle_exec es t = Some b'" by (auto split: option.splits)
  then show ?case using Cons.IH [of t "fs @ [e]"] money_ok_step Cons.prems(2) by simp
qed

end
