(* ===== verification/DailyCap.thy ===== *)
theory DailyCap
  imports Settle
begin

text \<open>
  What the caps of \<^verbatim>\<open>bridge/payment.go\<close> guarantee. Settlements that do not overlap keep the rolling total
  under the daily cap, whatever late outcomes arrive in between and however the log is pruned;
  overlapping ones do not.
\<close>

section \<open>The total with one payment in flight\<close>

text \<open>While a payment is in flight its entry can be marked failed by a late outcome and paid by its own
  settlement afterwards, so it is counted whatever its status.\<close>

definition forced :: "int64 \<Rightarrow> int64 \<Rightarrow> SpendEntry \<Rightarrow> int" where
  "forced q lim e = (if lim \<le> se_ts e \<and> (countsTowardCap (se_status e) \<or> se_seq e = q) then se_atoms e else 0)"

definition forced_sum :: "int64 \<Rightarrow> int64 \<Rightarrow> SpendEntry list \<Rightarrow> int" where
  "forced_sum q lim es = (\<Sum>e \<leftarrow> es. forced q lim e)"

lemma forced_sum_simps [simp]:
  "forced_sum q lim [] = 0" "forced_sum q lim (e # es) = forced q lim e + forced_sum q lim es"
  "forced_sum q lim (es @ fs) = forced_sum q lim es + forced_sum q lim fs"
  by (simp_all add: forced_sum_def)

lemma spent_le_forced: "entries_ok es \<Longrightarrow> spent lim es \<le> forced_sum q lim es"
  by (induction es) (auto simp: entries_ok_def weight_def forced_def)

lemma forced_nonneg: "entries_ok es \<Longrightarrow> 0 \<le> forced_sum q lim es"
  using spent_le_forced spent_nonneg by (rule order_trans [rotated])

lemma forced_antimono: "entries_ok es \<Longrightarrow> lim \<le> lim' \<Longrightarrow> forced_sum q lim' es \<le> forced_sum q lim es"
  by (induction es) (auto simp: entries_ok_def forced_def)

lemma forced_prune: "entries_ok es \<Longrightarrow> forced_sum q lim (prune now es) \<le> forced_sum q lim es"
proof -
  assume ok: "entries_ok es"
  obtain ds where d: "es = ds @ prune now es" using prune_split by blast
  then have "entries_ok ds" using ok by (metis UnCI entries_ok_def set_append)
  then have "forced_sum q lim (prune now es) \<le> forced_sum q lim (ds @ prune now es)"
    by (simp add: forced_nonneg)
  then show ?thesis using d by simp
qed

text \<open>Without an entry of that number nothing is forced.\<close>

lemma forced_fresh: "\<forall>e \<in> set es. se_seq e \<noteq> q \<Longrightarrow> forced_sum q lim es = spent lim es"
  by (induction es) (auto simp: forced_def weight_def)

section \<open>How the operations change it\<close>

definition log_ok :: "spend_log \<Rightarrow> bool" where
  "log_ok s \<longleftrightarrow> entries_ok (sp_entries s) \<and> 0 \<le> sp_seq s \<and> (\<forall>e \<in> set (sp_entries s). se_seq e \<le> sp_seq s)"

lemma log_ok_persist:
  "entries_ok es \<Longrightarrow> 0 \<le> sp_seq s \<Longrightarrow> \<forall>e \<in> set es. se_seq e \<le> sp_seq s \<Longrightarrow>
    log_ok (snd (persistSpendLocked now (s\<lparr>sp_entries := es\<rparr>)))"
  using set_prune by (fastforce simp: log_ok_def entries_ok_def)

lemma log_ok_append:
  assumes "log_ok s" "sp_seq s < max64" "0 \<le> atoms"
  shows "log_ok (append_entry now uid tool rail atoms status err s)"
proof -
  have "add64 (sp_seq s) 1 = sp_seq s + 1"
    using assms by (intro add64_exact) (auto simp: log_ok_def range64)
  then show ?thesis using assms set_prune by (fastforce simp: log_ok_def entries_ok_def)
qed

lemma spent_append:
  "spent (unix (now - day)) (sp_entries (append_entry now uid tool rail atoms status err s)) =
    spent (unix (now - day)) (sp_entries s) + (if countsTowardCap status then atoms else 0)"
proof -
  have "unix (now - day) \<le> unix now" by (rule unix_mono) (simp add: day_def durations)
  then show ?thesis by (simp add: spent_prune weight_def)
qed

text \<open>Launching a payment forces exactly its own entry.\<close>

lemma forced_record:
  assumes "log_ok s" "sp_seq s < max64" "0 \<le> atoms" "recordSpendLocked now uid tool rail atoms s = (s', q)"
  shows "forced_sum q (unix (now - day)) (sp_entries s') \<le> spent (unix (now - day)) (sp_entries s) + atoms" "0 < q"
proof -
  have q: "q = sp_seq s + 1" and s': "s' = append_entry now uid tool rail atoms spendPending '''' s"
    using assms by (auto simp: recordSpendLocked_def log_ok_def range64 intro!: add64_exact)
  then show "0 < q" using assms(1) by (simp add: log_ok_def)
  let ?e = "\<lparr>se_ts = unix now, se_bot = uid, se_tool = tool, se_rail = rail, se_atoms = atoms,
    se_status = spendPending, se_err = '''', se_seq = q\<rparr>"
  have es: "sp_entries s' = prune now (sp_entries s @ [?e])"
    using assms(4) by (auto simp: recordSpendLocked_def)
  have "entries_ok (sp_entries s @ [?e])" using assms(1,3) by (auto simp: entries_ok_def log_ok_def)
  from forced_prune [OF this] have "forced_sum q (unix (now - day)) (sp_entries s') \<le>
      forced_sum q (unix (now - day)) (sp_entries s @ [?e])" unfolding es .
  moreover have "forced_sum q (unix (now - day)) (sp_entries s) = spent (unix (now - day)) (sp_entries s)"
    by (rule forced_fresh) (use assms(1) q in \<open>auto simp: log_ok_def\<close>)
  moreover have "forced q (unix (now - day)) ?e \<le> atoms" using assms(3) by (simp add: forced_def)
  ultimately show "forced_sum q (unix (now - day)) (sp_entries s') \<le> spent (unix (now - day)) (sp_entries s) + atoms"
    by simp
qed

text \<open>A marking rewrites one entry, keeping its time, amount and number.\<close>

lemma marked_ok:
  assumes "update_first P f (sp_entries s) = Some es" "log_ok s"
    "\<And>e. se_atoms (f e) = se_atoms e \<and> se_seq (f e) = se_seq e \<and> se_ts (f e) = se_ts e"
  shows "log_ok (snd (persistSpendLocked now (s\<lparr>sp_entries := es\<rparr>)))"
proof -
  obtain as x bs where d: "sp_entries s = as @ x # bs" "es = as @ f x # bs"
    using update_first_Some [OF assms(1)] by blast
  show ?thesis by (rule log_ok_persist) (use assms(2,3) in \<open>auto simp: d log_ok_def entries_ok_def\<close>)
qed

lemma forced_mark:
  assumes "log_ok s"
  shows "log_ok (markSpendLocked now q status err s)"
    and "forced_sum q lim (sp_entries (markSpendLocked now q status err s)) \<le> forced_sum q lim (sp_entries s)"
proof -
  let ?f = "\<lambda>e. e\<lparr>se_status := status, se_err := err\<rparr>" and ?P = "\<lambda>e. se_seq e = q \<and> q \<noteq> 0"
  show "log_ok (markSpendLocked now q status err s)"
    using assms marked_ok [of ?P ?f s] by (auto simp: markSpendLocked_def split: option.splits)
  show "forced_sum q lim (sp_entries (markSpendLocked now q status err s)) \<le> forced_sum q lim (sp_entries s)"
  proof (cases "update_first ?P ?f (sp_entries s)")
    case None
    then show ?thesis by (simp add: markSpendLocked_def)
  next
    case (Some es)
    obtain as x bs where d: "sp_entries s = as @ x # bs" "es = as @ ?f x # bs" "se_seq x = q"
      using update_first_Some [OF Some] by blast
    then have "forced_sum q lim es = forced_sum q lim (sp_entries s)" by (simp add: forced_def)
    moreover have "entries_ok es" using assms d by (auto simp: log_ok_def entries_ok_def)
    ultimately show ?thesis using Some forced_prune [of es q lim now] by (simp add: markSpendLocked_def)
  qed
qed

lemma late_resolve:
  assumes "log_ok s"
  shows "log_ok (fst (ResolveSpend now u n r s))"
    and "forced_sum q lim (sp_entries (fst (ResolveSpend now u n r s))) \<le> forced_sum q lim (sp_entries s)"
    and "unix (now - day) \<le> lim \<Longrightarrow> spent lim (sp_entries (fst (ResolveSpend now u n r s))) \<le> spent lim (sp_entries s)"
proof -
  have f: "se_atoms (late_outcome r e) = se_atoms e \<and> se_seq (late_outcome r e) = se_seq e \<and> se_ts (late_outcome r e) = se_ts e" for e
    by (simp add: late_outcome_def split: option.splits)
  show "log_ok (fst (ResolveSpend now u n r s))"
    using assms marked_ok [of "late_match u n" "late_outcome r" s, OF _ _ f] by (auto simp: ResolveSpend_def split: option.splits)
  have "forced_sum q lim (sp_entries (fst (ResolveSpend now u n r s))) \<le> forced_sum q lim (sp_entries s) \<and>
    (unix (now - day) \<le> lim \<longrightarrow> spent lim (sp_entries (fst (ResolveSpend now u n r s))) \<le> spent lim (sp_entries s))"
  proof (cases "update_first (late_match u n) (late_outcome r) (sp_entries s)")
    case None
    then show ?thesis by (simp add: ResolveSpend_def)
  next
    case (Some es)
    obtain as x bs where d: "sp_entries s = as @ x # bs" "es = as @ late_outcome r x # bs" "late_match u n x"
      using update_first_Some [OF Some] by blast
    have "0 \<le> se_atoms x" using assms d by (auto simp: log_ok_def entries_ok_def)
    then have "forced q lim (late_outcome r x) \<le> forced q lim x" "weight lim (late_outcome r x) \<le> weight lim x"
      using d(3) by (auto simp: forced_def weight_def late_outcome_def late_match_def countsTowardCap_def spend_strings split: option.splits)
    then have "forced_sum q lim es \<le> forced_sum q lim (sp_entries s)" "spent lim es \<le> spent lim (sp_entries s)"
      using d by simp_all
    moreover have "entries_ok es" using assms d f by (auto simp: log_ok_def entries_ok_def)
    ultimately show ?thesis using Some forced_prune [of es q lim now] spent_prune [of now lim es]
      by (auto simp: ResolveSpend_def)
  qed
  then show "forced_sum q lim (sp_entries (fst (ResolveSpend now u n r s))) \<le> forced_sum q lim (sp_entries s)"
    "unix (now - day) \<le> lim \<Longrightarrow> spent lim (sp_entries (fst (ResolveSpend now u n r s))) \<le> spent lim (sp_entries s)"
    by blast+
qed

section \<open>Settlements one at a time\<close>

definition busy :: "settlement \<Rightarrow> bool" where
  "busy c \<longleftrightarrow> (case sc_phase c of Finished _ \<Rightarrow> False | _ \<Rightarrow> True)"

text \<open>What a settlement may still add to the total, included.\<close>

fun reserve_at :: "settle_phase \<Rightarrow> int64 \<Rightarrow> int64 \<Rightarrow> SpendEntry list \<Rightarrow> int" where
  "reserve_at (Paying q) atoms lim es = forced_sum q lim es"
| "reserve_at (Refusing _) atoms lim es = spent lim es"
| "reserve_at (Finished _) atoms lim es = spent lim es"
| "reserve_at (Unparking (Some _)) atoms lim es = spent lim es"
| "reserve_at ph atoms lim es = spent lim es + atoms"

definition window :: "bridge_money \<Rightarrow> int64" where
  "window b = unix (bm_now b - day)"

definition reserve :: "bridge_money \<Rightarrow> settlement \<Rightarrow> int" where
  "reserve b c = reserve_at (sc_phase c) (sc_atoms c) (window b) (sp_entries (bm_log b))"

definition rolling :: "bridge_money \<Rightarrow> int" where
  "rolling b = spent (window b) (sp_entries (bm_log b))"

definition cap_inv :: "Settings \<Rightarrow> bridge_money \<Rightarrow> bool" where
  "cap_inv S b \<longleftrightarrow> bm_settings b = S \<and> log_ok (bm_log b) \<and> rolling b \<le> PerDayCapAtoms S \<and>
     (\<forall>i < length (bm_calls b). busy (bm_calls b ! i) \<longrightarrow>
        reserve b (bm_calls b ! i) \<le> PerDayCapAtoms S \<and> 0 \<le> sc_atoms (bm_calls b ! i) \<and>
        (\<forall>j < length (bm_calls b). busy (bm_calls b ! j) \<longrightarrow> j = i))"

fun starts :: "settle_event \<Rightarrow> bool" where
  "starts (Begin _ _ _) = True"
| "starts _ = False"

text \<open>A schedule in which a settlement begins only when no other one is unfinished.\<close>

fun serial :: "settle_event list \<Rightarrow> bridge_money \<Rightarrow> bool" where
  "serial [] b = True"
| "serial (e # es) b = ((starts e \<longrightarrow> (\<forall>c \<in> set (bm_calls b). \<not> busy c)) \<and>
     (case settle_step e b of None \<Rightarrow> True | Some b' \<Rightarrow> serial es b'))"

lemma reserve_at_ge: "0 \<le> atoms \<Longrightarrow> entries_ok es \<Longrightarrow> spent lim es \<le> reserve_at ph atoms lim es"
  by (cases "(ph, atoms, lim, es)" rule: reserve_at.cases) (auto simp: spent_le_forced)

lemma cap_invD:
  assumes "cap_inv S b"
  shows "bm_settings b = S" "log_ok (bm_log b)" "rolling b \<le> PerDayCapAtoms S"
    and "i < length (bm_calls b) \<Longrightarrow> busy (bm_calls b ! i) \<Longrightarrow>
      reserve b (bm_calls b ! i) \<le> PerDayCapAtoms S \<and> 0 \<le> sc_atoms (bm_calls b ! i)"
    and "i < length (bm_calls b) \<Longrightarrow> busy (bm_calls b ! i) \<Longrightarrow>
      j < length (bm_calls b) \<Longrightarrow> busy (bm_calls b ! j) \<Longrightarrow> j = i"
  using assms unfolding cap_inv_def by blast+

lemma cap_inv_update:
  assumes "cap_inv S b" "i < length (bm_calls b)" "busy (bm_calls b ! i)"
    "bm_settings b' = bm_settings b" "bm_calls b' = (bm_calls b)[i := c]" "log_ok (bm_log b')"
    "reserve b' c \<le> PerDayCapAtoms S" "sc_atoms c = sc_atoms (bm_calls b ! i)"
  shows "cap_inv S b'"
proof -
  have a: "0 \<le> sc_atoms c" using cap_invD(4) [OF assms(1-3)] assms(8) by simp
  have "rolling b' \<le> reserve b' c"
    using a assms(6) unfolding rolling_def reserve_def log_ok_def by (intro reserve_at_ge) simp_all
  then have r: "rolling b' \<le> PerDayCapAtoms S" using assms(7) by linarith
  have s: "bm_settings b' = S" "bm_calls b' ! i = c"
    using assms(2,4,5) cap_invD(1) [OF assms(1)] by simp_all
  have i: "k = i" if k: "k < length (bm_calls b')" "busy (bm_calls b' ! k)" for k
  proof (rule ccontr)
    assume "k \<noteq> i"
    then have "k < length (bm_calls b)" "busy (bm_calls b ! k)" using k assms(5) by simp_all
    from cap_invD(5) [OF assms(1-3) this] \<open>k \<noteq> i\<close> show False by simp
  qed
  show ?thesis unfolding cap_inv_def
  proof (intro conjI allI impI)
    fix k assume "k < length (bm_calls b')" "busy (bm_calls b' ! k)"
    then have k: "k = i" by (rule i)
    show "reserve b' (bm_calls b' ! k) \<le> PerDayCapAtoms S" "0 \<le> sc_atoms (bm_calls b' ! k)"
      using assms(7) a s k by simp_all
    show "j = k" if "j < length (bm_calls b')" "busy (bm_calls b' ! j)" for j
      using i [OF that] k by simp
  qed (rule s r assms(6))+
qed

text \<open>Steps that leave the log and the clock alone.\<close>

lemma cap_inv_phase:
  assumes "cap_inv S b" "i < length (bm_calls b)" "busy (bm_calls b ! i)"
    "bm_settings b' = bm_settings b" "bm_log b' = bm_log b" "bm_now b' = bm_now b"
    "bm_calls b' = (bm_calls b)[i := c]" "sc_atoms c = sc_atoms (bm_calls b ! i)"
    "reserve_at (sc_phase c) (sc_atoms c) (window b) (sp_entries (bm_log b)) \<le> reserve b (bm_calls b ! i)"
  shows "cap_inv S b'"
proof (rule cap_inv_update [OF assms(1-4,7)])
  show "reserve b' c \<le> PerDayCapAtoms S"
    using assms(5,6,9) cap_invD(4) [OF assms(1-3)] by (simp add: reserve_def window_def)
qed (use assms(5,8) cap_invD(2) [OF assms(1)] in simp_all)

lemma reserve_phase_mono:
  assumes "entries_ok es" "0 \<le> a"
  shows "reserve_at (Finished r) a lim es \<le> reserve_at ph a lim es" "reserve_at (Refusing x) a lim es \<le> reserve_at ph a lim es"
    "reserve_at (Unparking (Some y)) a lim es \<le> reserve_at ph a lim es"
    "reserve_at Parked a lim es = reserve_at Parking a lim es" "reserve_at (Unparking None) a lim es = reserve_at Parked a lim es"
    "reserve_at Launching a lim es = reserve_at (Unparking None) a lim es"
  using reserve_at_ge [OF assms(2,1)] by simp_all

lemma cap_inv_begin:
  assumes "cap_inv S b" "\<forall>c \<in> set (bm_calls b). \<not> busy c" "0 \<le> PerDayCapAtoms S" "PerDayCapAtoms S + PerCallCapAtoms S \<le> max64"
    "b' = b\<lparr>bm_calls := bm_calls b @ [settle_begin u t pr b]\<rparr>"
  shows "cap_inv S b'"
proof -
  let ?c = "settle_begin u t pr b" and ?a = "settle_amount pr"
  have r: "0 \<le> rolling b" "rolling b \<le> PerDayCapAtoms S"
    using assms(1) by (auto simp: cap_inv_def rolling_def log_ok_def spent_nonneg)
  have "in64 (rolling b)" if "0 < ?a" "?a \<le> PerCallCapAtoms S"
    using r that assms(4) by (simp add: range64)
  then have ex: "spentSinceLocked (bm_now b - day) (bm_log b) = rolling b" if "0 < ?a" "?a \<le> PerCallCapAtoms S"
    using that spentSince_exact [of "bm_now b - day" "bm_log b"] by (simp add: rolling_def window_def)
  have add: "add64 (rolling b) ?a = rolling b + ?a" if "0 < ?a" "?a \<le> PerCallCapAtoms S"
    using r that assms(4) by (intro add64_exact) (simp add: range64)
  have "busy ?c \<Longrightarrow> reserve b ?c \<le> PerDayCapAtoms S \<and> 0 \<le> sc_atoms ?c"
    using r assms(1) ex add
    by (auto simp: busy_def settle_begin_def judge_def Let_def reserve_def rolling_def cap_inv_def split: if_splits)
  moreover have "reserve b' c = reserve b c" for c by (simp add: assms(5) reserve_def window_def)
  ultimately show ?thesis using assms(1,2)
    by (auto simp: assms(5) cap_inv_def rolling_def window_def nth_append less_Suc_eq)
qed

lemma reserve_at_mono:
  assumes "\<And>q. forced_sum q lim' es' \<le> forced_sum q lim es" "spent lim' es' \<le> spent lim es"
  shows "reserve_at ph a lim' es' \<le> reserve_at ph a lim es"
  using assms by (cases "(ph, a, lim, es)" rule: reserve_at.cases) auto

text \<open>Steps that only make totals smaller.\<close>

lemma cap_inv_shrink:
  assumes "cap_inv S b" "bm_settings b' = bm_settings b" "bm_calls b' = bm_calls b" "log_ok (bm_log b')"
    "\<And>q. forced_sum q (window b') (sp_entries (bm_log b')) \<le> forced_sum q (window b) (sp_entries (bm_log b))"
    "spent (window b') (sp_entries (bm_log b')) \<le> spent (window b) (sp_entries (bm_log b))"
  shows "cap_inv S b'"
  unfolding cap_inv_def
proof (intro conjI allI impI)
  show "bm_settings b' = S" "log_ok (bm_log b')" using assms(2,4) cap_invD(1) [OF assms(1)] by simp_all
  show "rolling b' \<le> PerDayCapAtoms S" using assms(6) cap_invD(3) [OF assms(1)] by (simp add: rolling_def)
next
  fix i assume i: "i < length (bm_calls b')" "busy (bm_calls b' ! i)"
  have "reserve b' (bm_calls b ! i) \<le> reserve b (bm_calls b ! i)"
    unfolding reserve_def by (rule reserve_at_mono [OF assms(5,6)])
  then show "reserve b' (bm_calls b' ! i) \<le> PerDayCapAtoms S" "0 \<le> sc_atoms (bm_calls b' ! i)"
    using cap_invD(4) [OF assms(1)] i unfolding assms(3) by force+
  show "j = i" if "j < length (bm_calls b')" "busy (bm_calls b' ! j)" for j
    using cap_invD(5) [OF assms(1)] i that unfolding assms(3) by blast
qed

text \<open>A human's decision changes neither a phase nor an amount.\<close>

lemma cap_inv_decision:
  assumes "cap_inv S b"
  shows "cap_inv S (set_call i ((bm_calls b ! i)\<lparr>sc_decision := d\<rparr>) b)" (is "cap_inv S ?b")
proof -
  have n: "sc_phase (bm_calls ?b ! j) = sc_phase (bm_calls b ! j) \<and> sc_atoms (bm_calls ?b ! j) = sc_atoms (bm_calls b ! j)" for j
    by (cases "i < length (bm_calls b)") (auto simp: set_call_def nth_list_update list_update_beyond)
  then have "busy (bm_calls ?b ! j) = busy (bm_calls b ! j)" "reserve ?b (bm_calls ?b ! j) = reserve b (bm_calls b ! j)" for j
    by (simp_all add: busy_def reserve_def window_def set_call_def)
  then show ?thesis using assms n unfolding cap_inv_def by (simp add: rolling_def window_def set_call_def)
qed

lemma cap_inv_step:
  assumes "cap_inv S b" "0 \<le> PerDayCapAtoms S" "PerDayCapAtoms S + PerCallCapAtoms S \<le> max64"
    "sp_seq (bm_log b) < max64" "starts e \<longrightarrow> (\<forall>c \<in> set (bm_calls b). \<not> busy c)" "settle_step e b = Some b'"
  shows "cap_inv S b' \<and> sp_seq (bm_log b') \<le> sp_seq (bm_log b) + 1"
proof -
  have es: "entries_ok (sp_entries (bm_log b))" and lok: "log_ok (bm_log b)" "0 \<le> sp_seq (bm_log b)"
    using cap_invD(2) [OF assms(1)] by (auto simp: log_ok_def)
  have seq: "add64 (sp_seq (bm_log b)) 1 = sp_seq (bm_log b) + 1"
    using lok assms(4) by (intro add64_exact) (auto simp: range64)
  have busy_at: "0 \<le> sc_atoms (bm_calls b ! i)" "reserve b (bm_calls b ! i) \<le> PerDayCapAtoms S"
    if "i < length (bm_calls b)" "busy (bm_calls b ! i)" for i
    using cap_invD(4) [OF assms(1) that] by simp_all
  have ph: "cap_inv S (set_call i (c\<lparr>sc_phase := ph\<rparr>) b0)"
    if "i < length (bm_calls b)" "busy (bm_calls b ! i)" "bm_settings b0 = bm_settings b" "bm_log b0 = bm_log b"
      "bm_now b0 = bm_now b" "bm_calls b0 = bm_calls b" "sc_atoms c = sc_atoms (bm_calls b ! i)"
      "reserve_at ph (sc_atoms (bm_calls b ! i)) (window b) (sp_entries (bm_log b)) \<le>
       reserve_at (sc_phase (bm_calls b ! i)) (sc_atoms (bm_calls b ! i)) (window b) (sp_entries (bm_log b))" for i c ph b0
    by (rule cap_inv_phase [OF assms(1) that(1,2), where c = "c\<lparr>sc_phase := ph\<rparr>"])
      (use that in \<open>simp_all add: set_call_def reserve_def\<close>)
  note mono = reserve_phase_mono [OF es]
  show ?thesis
  proof (cases e)
    case (Begin u t pr)
    then have "b' = b\<lparr>bm_calls := bm_calls b @ [settle_begin u t pr b]\<rparr>" "\<forall>c \<in> set (bm_calls b). \<not> busy c"
      using assms(5,6) by (simp_all add: settle_step_def)
    then show ?thesis using cap_inv_begin [OF assms(1) _ assms(2,3), of b' u t pr] by simp
  next
    case (RecordRefusal i)
    then obtain r where i: "i < length (bm_calls b)" "sc_phase (bm_calls b ! i) = Refusing r"
      and b': "b' = set_call i ((bm_calls b ! i)\<lparr>sc_phase := Finished (Some r)\<rparr>) (b\<lparr>bm_log :=
        refuse (bm_now b) (sc_bot (bm_calls b ! i)) (sc_tool (bm_calls b ! i)) (sc_atoms (bm_calls b ! i)) r (bm_log b)\<rparr>)"
      using assms(6) by (auto simp: settle_step_def settle_refuse_def Let_def split: if_splits settle_phase.splits)
    have bu: "busy (bm_calls b ! i)" using i by (simp add: busy_def)
    have "cap_inv S b'"
    proof (rule cap_inv_update [OF assms(1) i(1) bu, where c = "(bm_calls b ! i)\<lparr>sc_phase := Finished (Some r)\<rparr>"])
      show "log_ok (bm_log b')" using log_ok_append [OF lok(1) assms(4)] busy_at [OF i(1) bu] by (simp add: b' set_call_def refuse_def)
      have "spent (unix (bm_now b - day)) (sp_entries (refuse (bm_now b) u t a r (bm_log b))) = rolling b" for u t a
        unfolding refuse_def spent_append by (simp add: rolling_def window_def countsTowardCap_def)
      then show "reserve b' ((bm_calls b ! i)\<lparr>sc_phase := Finished (Some r)\<rparr>) \<le> PerDayCapAtoms S"
        using cap_invD(3) [OF assms(1)] by (simp add: reserve_def b' set_call_def window_def)
    qed (simp_all add: b' set_call_def)
    then show ?thesis by (simp add: b' set_call_def refuse_def seq)
  next
    case (Park i rid)
    then have i: "i < length (bm_calls b)" "sc_phase (bm_calls b ! i) = Parking" and r: "park i rid b = Some b'"
      using assms(6) by (auto simp: settle_step_def park_def Let_def split: if_splits settle_phase.splits)
    have bu: "busy (bm_calls b ! i)" using i by (simp add: busy_def)
    note a = busy_at(1) [OF i(1) bu]
    show ?thesis
    proof (cases rid)
      case None
      then show ?thesis using r i a ph [OF i(1) bu, of b "bm_calls b ! i" "Refusing ''rand''"] by (auto simp: park_def set_call_def)
    next
      case (Some pid)
      then show ?thesis using r i ph [OF i(1) bu, of "b\<lparr>bm_pending := gput pid i (bm_pending b)\<rparr>"
          "(bm_calls b ! i)\<lparr>sc_id := pid, sc_created := unix (bm_now b)\<rparr>" Parked] by (auto simp: park_def set_call_def)
    qed
  next
    case (Decide pid approve)
    then have "b' = fst (ResolvePayment pid approve b)" using assms(6) by (simp add: settle_step_def)
    then show ?thesis using assms(1) cap_inv_decision [OF assms(1)]
      by (auto simp: ResolvePayment_def Let_def set_call_def split: option.splits)
  next
    case (ApprovalEnds i how)
    then have i: "i < length (bm_calls b)" "sc_phase (bm_calls b ! i) = Parked" and r: "approval_ends i how b = Some b'"
      using assms(6) by (auto simp: settle_step_def approval_ends_def Let_def split: if_splits settle_phase.splits)
    have bu: "busy (bm_calls b ! i)" using i by (simp add: busy_def)
    note a = busy_at(1) [OF i(1) bu]
    obtain err where b': "b' = set_call i ((bm_calls b ! i)\<lparr>sc_phase := Unparking err\<rparr>) b"
      using r by (auto simp: approval_ends_def Let_def split: settle_phase.splits approval_end.splits option.splits bool.splits)
    have "cap_inv S b'" unfolding b' by (rule ph [OF i(1) bu]) (use i mono(3) [OF a] a in \<open>cases err; simp\<close>)+
    then show ?thesis by (simp add: b' set_call_def)
  next
    case (Unpark i)
    then obtain err where i: "i < length (bm_calls b)" "sc_phase (bm_calls b ! i) = Unparking err"
      and b': "b' = set_call i ((bm_calls b ! i)\<lparr>sc_phase := (case err of None \<Rightarrow> Launching | Some e \<Rightarrow> Refusing e)\<rparr>)
         (b\<lparr>bm_pending := gdel (sc_id (bm_calls b ! i)) (bm_pending b)\<rparr>)"
      using assms(6) by (auto simp: settle_step_def unpark_def Let_def split: if_splits settle_phase.splits)
    have bu: "busy (bm_calls b ! i)" using i by (simp add: busy_def)
    have "cap_inv S b'" unfolding b' by (rule ph [OF i(1) bu]) (use i in \<open>cases err; simp\<close>)+
    then show ?thesis by (simp add: b' set_call_def)
  next
    case (Launch i)
    then have i: "i < length (bm_calls b)" "sc_phase (bm_calls b ! i) = Launching" and r: "launch i b = Some b'"
      using assms(6) by (auto simp: settle_step_def launch_def Let_def split: if_splits settle_phase.splits)
    have bu: "busy (bm_calls b ! i)" using i by (simp add: busy_def)
    obtain l q where rec: "recordSpendLocked (bm_now b) (sc_bot (bm_calls b ! i)) (sc_tool (bm_calls b ! i)) ''tip''
        (sc_atoms (bm_calls b ! i)) (bm_log b) = (l, q)" by fastforce
    then have b': "b' = set_call i ((bm_calls b ! i)\<lparr>sc_phase := Paying q\<rparr>) (b\<lparr>bm_log := l\<rparr>)"
      using r i by (simp add: launch_def Let_def)
    have l: "l = append_entry (bm_now b) (sc_bot (bm_calls b ! i)) (sc_tool (bm_calls b ! i)) ''tip''
        (sc_atoms (bm_calls b ! i)) spendPending '''' (bm_log b)" using rec by (simp add: recordSpendLocked_def)
    have "cap_inv S b'"
    proof (rule cap_inv_update [OF assms(1) i(1) bu, where c = "(bm_calls b ! i)\<lparr>sc_phase := Paying q\<rparr>"])
      show "log_ok (bm_log b')" using log_ok_append [OF lok(1) assms(4)] busy_at [OF i(1) bu] by (simp add: b' set_call_def l)
      show "reserve b' ((bm_calls b ! i)\<lparr>sc_phase := Paying q\<rparr>) \<le> PerDayCapAtoms S"
        using forced_record(1) [OF lok(1) assms(4) busy_at(1) [OF i(1) bu] rec] busy_at(2) [OF i(1) bu] i(2)
        by (simp add: reserve_def b' set_call_def window_def)
    qed (simp_all add: b' set_call_def)
    then show ?thesis by (simp add: b' set_call_def l seq)
  next
    case (PayReturns i res expired)
    then obtain q where i: "i < length (bm_calls b)" "sc_phase (bm_calls b ! i) = Paying q"
      and r: "pay_returns i res expired b = Some b'"
      using assms(6) by (auto simp: settle_step_def pay_returns_def Let_def split: if_splits settle_phase.splits)
    have bu: "busy (bm_calls b ! i)" using i by (simp add: busy_def)
    define l where "l = (case res of
        Some e \<Rightarrow> if expired then bm_log b else markSpendLocked (bm_now b) q spendFailed e (bm_log b)
      | None \<Rightarrow> markSpendLocked (bm_now b) q spendPaid '''' (bm_log b))"
    then have b': "b' = set_call i ((bm_calls b ! i)\<lparr>sc_phase := Finished res\<rparr>) (b\<lparr>bm_log := l\<rparr>)"
      using r i by (simp add: pay_returns_def Let_def)
    have l: "l = bm_log b \<or> (\<exists>st x. l = markSpendLocked (bm_now b) q st x (bm_log b))"
      unfolding l_def by (auto split: option.splits)
    then have lok': "log_ok l" and f: "forced_sum q (window b) (sp_entries l) \<le> forced_sum q (window b) (sp_entries (bm_log b))"
      using lok forced_mark [OF lok(1)] by auto
    have sq: "sp_seq l = sp_seq (bm_log b)" using l by (auto simp: markSpendLocked_def split: option.splits)
    have "cap_inv S b'"
    proof (rule cap_inv_update [OF assms(1) i(1) bu, where c = "(bm_calls b ! i)\<lparr>sc_phase := Finished res\<rparr>"])
      show "log_ok (bm_log b')" using lok' by (simp add: b' set_call_def)
      have "spent (window b) (sp_entries l) \<le> forced_sum q (window b) (sp_entries l)"
        using lok' by (intro spent_le_forced) (simp add: log_ok_def)
      then show "reserve b' ((bm_calls b ! i)\<lparr>sc_phase := Finished res\<rparr>) \<le> PerDayCapAtoms S"
        using f busy_at(2) [OF i(1) bu] i(2) by (simp add: reserve_def b' set_call_def window_def)
    qed (simp_all add: b' set_call_def)
    then show ?thesis by (simp add: b' set_call_def sq)
  next
    case (LateOutcome u a r)
    then have b': "b' = b\<lparr>bm_log := fst (ResolveSpend (bm_now b) u a r (bm_log b))\<rparr>"
      using assms(6) by (simp add: settle_step_def)
    have sq: "sp_seq (fst (ResolveSpend (bm_now b) u a r (bm_log b))) = sp_seq (bm_log b)"
      by (simp add: ResolveSpend_def split: option.splits)
    have "cap_inv S b'"
      by (rule cap_inv_shrink [OF assms(1)]) (simp_all add: b' window_def late_resolve [OF lok(1)])
    then show ?thesis by (simp add: b' sq)
  next
    case (Tick d)
    then have b': "b' = b\<lparr>bm_now := bm_now b + d\<rparr>" "0 \<le> d" using assms(6) by (auto simp: settle_step_def split: if_splits)
    then have w: "window b \<le> window b'" by (simp add: window_def unix_mono)
    have "cap_inv S b'"
      by (rule cap_inv_shrink [OF assms(1)])
        (use b' lok forced_antimono [OF es w] spent_antimono [OF es w] in simp_all)
    then show ?thesis by (simp add: b')
  qed
qed

lemma cap_inv_exec:
  assumes "settle_exec es b = Some b'" "serial es b" "cap_inv S b" "0 \<le> PerDayCapAtoms S"
    "PerDayCapAtoms S + PerCallCapAtoms S \<le> max64" "sp_seq (bm_log b) + int (length es) \<le> max64"
  shows "cap_inv S b'"
  using assms(1-3,6)
proof (induction es arbitrary: b)
  case Nil
  then show ?case by simp
next
  case (Cons e es)
  then obtain t where t: "settle_step e b = Some t" "settle_exec es t = Some b'" by (auto split: option.splits)
  have "cap_inv S t \<and> sp_seq (bm_log t) \<le> sp_seq (bm_log b) + 1"
    by (rule cap_inv_step [OF Cons.prems(3) assms(4,5) _ _ t(1)]) (use Cons.prems(2,4) in auto)
  then show ?case using Cons.IH [OF t(2)] Cons.prems(2,4) t(1) by simp
qed

section \<open>Properties\<close>


definition demo_settings :: "string \<Rightarrow> Settings" where
  "demo_settings mode = no_settings\<lparr>Mode := mode, PerCallCapAtoms := 10, PerDayCapAtoms := 10,
     ApprovalTimeoutSecs := 120, TipWaitSecs := 180\<rparr>"

definition demo_money :: "string \<Rightarrow> bridge_money" where
  "demo_money mode = \<lparr>bm_settings = demo_settings mode,
     bm_log = \<lparr>sp_entries = [], sp_seq = 0, sp_file = \<lparr>pf_file = Absent, pf_script = []\<rparr>\<rparr>,
     bm_pending = [], bm_calls = [], bm_now = 1000000000000000\<rparr>"

definition demo_refusal :: PaymentRequired where
  "demo_refusal = \<lparr>pr_error = ''payment_required'', pr_tool = ''t'', pr_price = 10, pr_balance = 0,
     pr_shortfall = 10, pr_rails = []\<rparr>"

definition approve_and_pay :: "settle_event list" where
  "approve_and_pay = [Begin ''peer'' ''t'' demo_refusal, Park 0 (Some ''a1''), Decide ''a1'' True, ApprovalEnds 0 Decision,
     Unpark 0, Launch 0]"


text \<open>
  C9: The daily cap holds when settlements come one after the other: in every schedule in which a
  settlement begins only when the others have returned, with payments that fail, succeed or stay
  unknown, late outcomes of any kind arriving at any time, and the log pruned at each write, the rolling
  twenty-four-hour total that \<^verbatim>\<open>SpendLog\<close> reports is the exact sum, without wrap-around, and never above the
  cap.
\<close>

theorem daily_cap_kept:
  assumes "settle_exec es b = Some b'" "serial es b"
    and "bm_calls b = []" "bm_settings b = S" "log_ok (bm_log b)" "rolling b \<le> PerDayCapAtoms S"
    and "0 \<le> PerDayCapAtoms S" "PerDayCapAtoms S + PerCallCapAtoms S \<le> max64" "0 \<le> PerCallCapAtoms S"
    and "sp_seq (bm_log b) + int (length es) \<le> max64"
  shows "snd (SpendLog (bm_now b') (bm_log b')) = rolling b' \<and> 0 \<le> rolling b' \<and> rolling b' \<le> PerDayCapAtoms S"
proof -
  have "cap_inv S b" using assms(3-6) by (simp add: cap_inv_def)
  from cap_inv_exec [OF assms(1,2) this assms(7,8,10)] have r: "rolling b' \<le> PerDayCapAtoms S" "log_ok (bm_log b')"
    by (simp_all add: cap_inv_def)
  then have "0 \<le> rolling b'" by (simp add: rolling_def log_ok_def spent_nonneg)
  moreover from this r have "in64 (rolling b')" using assms(8,9) by (simp add: range64)
  ultimately show ?thesis using r spentSince_exact [of "bm_now b' - day" "bm_log b'"]
    by (simp add: SpendLog_def rolling_def window_def)
qed

definition pay_twice :: "settle_event list" where
  "pay_twice = [Begin ''peer'' ''t'' demo_refusal, Launch 0, PayReturns 0 (Some ''offline'') False,
     Begin ''peer'' ''t'' demo_refusal, Launch 1, PayReturns 1 (Some ''late'') True, Begin ''peer'' ''t'' demo_refusal,
     RecordRefusal 2, LateOutcome ''PEER'' 10 None]"

lemma daily_cap_kept_witness:
  "\<exists>b'. settle_exec pay_twice (demo_money ''autopay'') = Some b' \<and> snd (SpendLog (bm_now b') (bm_log b')) = 10 \<and>
    map se_status (sp_entries (bm_log b')) = [''failed'', ''paid'', ''refused''] \<and> rolling b' \<le> 10"
proof -
  let ?x = "settle_exec pay_twice (demo_money ''autopay'')"
  have "map_option (\<lambda>b. (snd (SpendLog (bm_now b) (bm_log b)), map se_status (sp_entries (bm_log b)))) ?x =
      Some (10, [''failed'', ''paid'', ''refused''])" by code_simp
  then obtain b' where b: "?x = Some b'" "snd (SpendLog (bm_now b') (bm_log b')) = 10"
    "map se_status (sp_entries (bm_log b')) = [''failed'', ''paid'', ''refused'']" by auto
  have "serial pay_twice (demo_money ''autopay'')" by code_simp
  from daily_cap_kept [OF b(1) this _ refl] show ?thesis using b
    by (simp add: demo_money_def demo_settings_def log_ok_def entries_ok_def rolling_def max64_def pay_twice_def)
qed

definition overlap_auto :: "settle_event list" where
  "overlap_auto = [Begin ''peer'' ''t'' demo_refusal, Begin ''peer'' ''t'' demo_refusal, Launch 0, Launch 1,
     PayReturns 0 None False, PayReturns 1 None False]"

definition overlap_approval :: "settle_event list" where
  "overlap_approval = [Begin ''peer'' ''t'' demo_refusal, Park 0 (Some ''a1''), Begin ''peer'' ''t'' demo_refusal, Park 1 (Some ''b2''),
     Decide ''a1'' True, ApprovalEnds 0 Decision, Unpark 0, Launch 0, PayReturns 0 None False, Tick 60000000000,
     Decide ''b2'' True, ApprovalEnds 1 Decision, Unpark 1, Launch 1, PayReturns 1 None False]"


text \<open>
  A late outcome marks exactly one entry, the oldest pending one of that payee (however capitalised) and
  amount, as paid or failed with the reason; when there is none the call reports so and changes nothing.
  It adds nothing to the rolling total, and a failure takes the entry's amount out of it.
\<close>

lemma late_outcome_oldest:
  assumes "ResolveSpend now uid atoms err s = (s', found)"
  shows "if \<exists>e \<in> set (sp_entries s). late_match uid atoms e
    then found \<and> (\<exists>as e bs. sp_entries s = as @ e # bs \<and> late_match uid atoms e \<and> (\<forall>a \<in> set as. \<not> late_match uid atoms a) \<and>
      sp_entries s' = prune now (as @ late_outcome err e # bs) \<and>
      spent (unix (now - day)) (sp_entries s') =
        spent (unix (now - day)) (sp_entries s) - (if err = None \<or> se_ts e < unix (now - day) then 0 else atoms))
    else \<not> found \<and> s' = s"
proof (cases "update_first (late_match uid atoms) (late_outcome err) (sp_entries s)")
  case None
  then have "\<not> found \<and> s' = s" using assms by (simp add: ResolveSpend_def)
  then show ?thesis using None by (simp add: update_first_None)
next
  case (Some es)
  obtain as e bs where d: "sp_entries s = as @ e # bs" "es = as @ late_outcome err e # bs"
    "late_match uid atoms e" "\<forall>a \<in> set as. \<not> late_match uid atoms a"
    using update_first_Some [OF Some] by blast
  have s': "found" "sp_entries s' = prune now es" using assms Some by (auto simp: ResolveSpend_def)
  have "weight l (late_outcome err e) = weight l e - (if err = None \<or> se_ts e < l then 0 else atoms)" for l
    using d(3) by (auto simp: weight_def late_outcome_def late_match_def countsTowardCap_def spend_strings split: option.splits)
  then have "spent (unix (now - day)) (sp_entries s') =
      spent (unix (now - day)) (sp_entries s) - (if err = None \<or> se_ts e < unix (now - day) then 0 else atoms)"
    unfolding s' by (simp add: spent_prune d)
  moreover have "\<exists>e \<in> set (sp_entries s). late_match uid atoms e" using d by auto
  moreover have "sp_entries s' = prune now (as @ late_outcome err e # bs)" using s'(2) d(2) by simp
  ultimately show ?thesis using d(1,3,4) s'(1) by (simp only: if_True) blast
qed

lemma late_outcome_oldest_witness:
  "\<exists>b found. settle_exec [Begin ''peer'' ''t'' demo_refusal, Launch 0] (demo_money ''autopay'') = Some b \<and>
    snd (ResolveSpend (bm_now b) ''Peer'' 10 (Some ''no route'') (bm_log b)) = found \<and> found"
proof -
  let ?x = "settle_exec [Begin ''peer'' ''t'' demo_refusal, Launch 0] (demo_money ''autopay'')"
  have "map_option (\<lambda>b. list_ex (late_match ''Peer'' 10) (sp_entries (bm_log b))) ?x = Some True" by code_simp
  then obtain b where b: "?x = Some b" "\<exists>e \<in> set (sp_entries (bm_log b)). late_match ''Peer'' 10 e"
    by (auto simp: list_ex_iff)
  obtain s' f where r: "ResolveSpend (bm_now b) ''Peer'' 10 (Some ''no route'') (bm_log b) = (s', f)" by fastforce
  show ?thesis using b late_outcome_oldest [OF r] r by simp
qed

text \<open>
  Pruning is invisible to everything that reads the log. After a write at an instant, the entries still
  pending are all there, the total of any later window is unchanged, only entries of the log are
  left, and the log has at most a thousand entries unless its oldest one is still needed; a write that is
  reported as done can be loaded again, with the same entries under number 0.
\<close>

lemma spend_log_pruned:
  assumes "persistSpendLocked now s = (ok, s')" "unix (now - day) \<le> lim"
  shows "spent lim (sp_entries s') = spent lim (sp_entries s) \<and>
    filter (\<lambda>e. se_status e = spendPending) (sp_entries s') = filter (\<lambda>e. se_status e = spendPending) (sp_entries s) \<and>
    set (sp_entries s') \<subseteq> set (sp_entries s) \<and>
    (length (sp_entries s') \<le> spendKeep \<or> protected_entry (unix (now - day)) (hd (sp_entries s'))) \<and>
    (ok \<longrightarrow> load_spend s' = Inr (s'\<lparr>sp_entries := map stored_entry (sp_entries s'), sp_seq := 0\<rparr>))"
proof -
  have e: "sp_entries s' = prune now (sp_entries s)" using assms(1) persistSpend_simps(1) [of now s] by simp
  have "ok \<Longrightarrow> pf_file (sp_file s') = Holds (map stored_entry (sp_entries s'))"
    using assms(1) write_file_ok [of "map stored_entry (prune now (sp_entries s))" "sp_file s"]
    by (auto simp: persistSpendLocked_def Let_def split: prod.splits)
  then show ?thesis unfolding e
    using spent_prune [OF assms(2)] prune_pending set_prune prune_bound by (simp add: load_spend_def e)
qed

lemma spend_log_pruned_witness:
  "\<exists>s'. persistSpendLocked 0 (bm_log (demo_money ''autopay'')) = (True, s') \<and> load_spend s' = Inr s'"
proof -
  let ?l = "bm_log (demo_money ''autopay'')"
  obtain ok s' where p: "persistSpendLocked 0 ?l = (ok, s')" by fastforce
  have ok: "fst (persistSpendLocked 0 ?l)" "sp_entries (snd (persistSpendLocked 0 ?l)) = []"
    "sp_seq (snd (persistSpendLocked 0 ?l)) = 0" by code_simp+
  then show ?thesis using spend_log_pruned [OF p order_refl] p by simp
qed

end
