(* ===== verification/Wire.thy ===== *)
theory Wire
  imports GoLib
begin

text \<open>
  The envelope codec, \<^verbatim>\<open>wire/wire.go\<close>: \<open>encode\<close> frames a payload into one message body per
  part, \<open>parse\<close> decodes one body. A random identifier (\<^verbatim>\<open>NewID\<close>) is a function of the eight
  bytes the system's random source returned, so \<open>encode\<close> takes those bytes as an argument; a
  deadline is \<open>None\<close> where the code has the zero \<^verbatim>\<open>time.Time\<close>.
\<close>

section \<open>Constants, errors, parts\<close>

definition Version :: int where "Version = 1"
definition DefaultChunkSize :: int where "DefaultChunkSize = 200 * 1024"
definition MaxParts :: int where "MaxParts = 64"

datatype wire_error = ErrExpired | ErrTooLarge | ErrOverflow
  | ErrInvalidSid string | ErrEmptyPayload | ErrInconsistent string | PanicMakeSlice

record part =
  SID :: string
  MID :: string
  Seq :: int
  Total :: int
  Exp :: int64
  Chunk :: "byte list"

definition Expired :: "part \<Rightarrow> instant \<Rightarrow> bool" where
  "Expired p now \<longleftrightarrow> Exp p > 0 \<and> unix now > Exp p"

definition idRE :: "string \<Rightarrow> bool" where
  "idRE s \<longleftrightarrow> 1 \<le> length s \<and> length s \<le> 32 \<and> list_all (\<lambda>c. c \<in> set hex_digits) s"

definition NewID :: "byte list \<Rightarrow> string" where
  "NewID b = hex_of_bytes b"

section \<open>Encoding\<close>

definition num_parts :: "int \<Rightarrow> int \<Rightarrow> int" where
  "num_parts len chunkSize = quot64 (sub64 (add64 len chunkSize) 1) chunkSize"

definition chunk_at :: "byte list \<Rightarrow> int \<Rightarrow> nat \<Rightarrow> byte list" where
  "chunk_at payload chunkSize i = take (nat chunkSize) (drop (i * nat chunkSize) payload)"

definition part_head :: "string \<Rightarrow> string \<Rightarrow> int \<Rightarrow> int \<Rightarrow> int64 \<Rightarrow> string" where
  "part_head sid mid i tot expUnix =
     ''v='' @ dec_of_int Version @ '',sid='' @ sid @ '',mid='' @ mid @ '',seq='' @ dec_of_int i @
     ''/'' @ dec_of_int tot @ '',exp='' @ dec_of_int expUnix"

definition part_body :: "string \<Rightarrow> string \<Rightarrow> int \<Rightarrow> int \<Rightarrow> int64 \<Rightarrow> byte list \<Rightarrow> string" where
  "part_body sid mid i tot expUnix chunk =
     ''--mcp['' @ part_head sid mid i tot expUnix @ '']--'' @ b64_encode chunk"

text \<open>A chunk size near \<^verbatim>\<open>MaxInt64\<close> wraps the rounding-up sum to a negative count, on which
  \<^verbatim>\<open>make\<close> panics.\<close>

definition encode ::
  "string \<Rightarrow> byte list \<Rightarrow> instant option \<Rightarrow> int \<Rightarrow> byte list \<Rightarrow> wire_error + string list" where
  "encode sid payload exp chunkSize rnd =
     (if \<not> idRE sid then Inl (ErrInvalidSid sid)
      else let chunkSize = (if chunkSize \<le> 0 then DefaultChunkSize else chunkSize)
      in if payload = [] then Inl ErrEmptyPayload
      else let tot = num_parts (int (length payload)) chunkSize
      in if tot > MaxParts then Inl ErrTooLarge
      else let expUnix = (case exp of None \<Rightarrow> 0 | Some t \<Rightarrow> unix t); mid = NewID rnd
      in if tot < 0 then Inl PanicMakeSlice
      else Inr (map (\<lambda>i. part_body sid mid (int i + 1) tot expUnix (chunk_at payload chunkSize i))
                 [0..<nat tot]))"

section \<open>Parsing\<close>

definition regexp_space :: string where
  "regexp_space = [CHR 0x09, CHR 0x0A, CHR 0x0C, CHR 0x0D, CHR 0x20]"

definition payload_char :: "char \<Rightarrow> bool" where
  "payload_char c \<longleftrightarrow> c \<in> set b64_alphabet \<or> c = CHR ''='' \<or> c \<in> set regexp_space"

text \<open>The submatches of \<open>^--mcp\[([^\]]*)\]--([A-Za-z0-9+/=\s]*)$\<close>: the first group cannot
  hold a closing bracket, so it ends at the first one.\<close>

definition partRE :: "string \<Rightarrow> (string \<times> string) option" where
  "partRE s =
     (if take 6 s = ''--mcp['' then
        let r = drop 6 s; m1 = takeWhile (\<lambda>c. c \<noteq> CHR '']'') r; r2 = dropWhile (\<lambda>c. c \<noteq> CHR '']'') r
        in if take 3 r2 = '']--'' \<and> list_all payload_char (drop 3 r2) then Some (m1, drop 3 r2) else None
      else None)"

definition zero_part :: part where
  "zero_part = \<lparr>SID = [], MID = [], Seq = 0, Total = 0, Exp = 0, Chunk = []\<rparr>"

text \<open>One \<^verbatim>\<open>k=v\<close> pair: \<open>None\<close> is the early \<^verbatim>\<open>return nil, false\<close>. An unknown key is skipped, a
  repeated key overwrites.\<close>

definition parse_kv :: "string \<Rightarrow> int \<times> part \<Rightarrow> (int \<times> part) option" where
  "parse_kv kv st =
     (case cut (CHR ''='') kv of None \<Rightarrow> None
      | Some (k, v) \<Rightarrow>
         let (version, p) = st in
         if k = ''v'' then
           (case parse_int v of None \<Rightarrow> None | Some n \<Rightarrow> Some (n, p))
         else if k = ''sid'' then if idRE v then Some (version, p\<lparr>SID := v\<rparr>) else None
         else if k = ''mid'' then if idRE v then Some (version, p\<lparr>MID := v\<rparr>) else None
         else if k = ''seq'' then
           (case cut (CHR ''/'') v of None \<Rightarrow> None
            | Some (seq, tot) \<Rightarrow>
               (case parse_int seq of None \<Rightarrow> None
                | Some a \<Rightarrow>
                   (case parse_int tot of None \<Rightarrow> None
                    | Some b \<Rightarrow> Some (version, p\<lparr>Seq := a, Total := b\<rparr>))))
         else if k = ''exp'' then
           (case parse_int v of None \<Rightarrow> None | Some n \<Rightarrow> Some (version, p\<lparr>Exp := n\<rparr>))
         else Some (version, p))"

fun parse_kvs :: "string list \<Rightarrow> int \<times> part \<Rightarrow> (int \<times> part) option" where
  "parse_kvs [] st = Some st"
| "parse_kvs (kv # kvs) st =
     (case parse_kv kv st of None \<Rightarrow> None | Some st' \<Rightarrow> parse_kvs kvs st')"

definition parse :: "string \<Rightarrow> part option" where
  "parse text =
     (case partRE (trim_space text) of None \<Rightarrow> None
      | Some (m1, m2) \<Rightarrow>
         (case parse_kvs (split_on (CHR '','') m1) (0, zero_part) of None \<Rightarrow> None
          | Some (version, p) \<Rightarrow>
             if version \<noteq> Version \<or> SID p = [] \<or> MID p = [] then None
             else if Seq p < 1 \<or> Total p < 1 \<or> Seq p > Total p \<or> Total p > MaxParts then None
             else (case b64_decode (concat (strings_fields m2)) of None \<Rightarrow> None
                   | Some chunk \<Rightarrow> if chunk = [] then None else Some (p\<lparr>Chunk := chunk\<rparr>))))"

text \<open>The predicate hosts use to keep envelopes out of their chat commands (\<^verbatim>\<open>transport.go\<close>).\<close>

definition IsEnvelope :: "string \<Rightarrow> bool" where
  "IsEnvelope text \<longleftrightarrow> parse text \<noteq> None"

section \<open>What a parsed part guarantees\<close>

definition part_ok :: "part \<Rightarrow> bool" where
  "part_ok p \<longleftrightarrow> idRE (SID p) \<and> idRE (MID p) \<and> 1 \<le> Seq p \<and> Seq p \<le> Total p \<and>
     Total p \<le> MaxParts \<and> in64 (Exp p) \<and> Chunk p \<noteq> []"

definition ids_ok :: "part \<Rightarrow> bool" where
  "ids_ok p \<longleftrightarrow> (SID p = [] \<or> idRE (SID p)) \<and> (MID p = [] \<or> idRE (MID p)) \<and> in64 (Exp p)"

lemma parse_kv_ids_ok: "parse_kv kv (n, p) = Some (n', p') \<Longrightarrow> ids_ok p \<Longrightarrow> ids_ok p'"
  by (auto simp: parse_kv_def ids_ok_def split: option.splits if_splits; erule parse_int_in64)

lemma parse_kvs_ids_ok: "parse_kvs kvs (n, p) = Some (n', p') \<Longrightarrow> ids_ok p \<Longrightarrow> ids_ok p'"
  by (induction kvs arbitrary: n p) (auto split: option.splits intro: parse_kv_ids_ok)

lemma ids_ok_zero: "ids_ok zero_part"
  by (simp add: ids_ok_def zero_part_def)

lemma parse_part_ok: "parse text = Some p \<Longrightarrow> part_ok p"
proof -
  assume "parse text = Some p"
  then obtain kvs q chunk where
    q: "parse_kvs kvs (0, zero_part) = Some (Version, q)" and p: "p = q\<lparr>Chunk := chunk\<rparr>"
    and rest: "SID q \<noteq> []" "MID q \<noteq> []" "1 \<le> Seq q" "Seq q \<le> Total q" "Total q \<le> MaxParts" "chunk \<noteq> []"
    by (auto simp: parse_def split: option.splits if_splits)
  from q ids_ok_zero have "ids_ok q" by (rule parse_kvs_ids_ok)
  with rest show ?thesis by (simp add: part_ok_def ids_ok_def p)
qed

section \<open>Parsing what was encoded\<close>

lemma idRE_set: "idRE s \<Longrightarrow> set s \<subseteq> set hex_digits"
  by (auto simp: idRE_def list_all_iff)

lemma idRE_nonempty: "idRE s \<Longrightarrow> s \<noteq> []"
  by (auto simp: idRE_def)

lemma hex_digits_clean: "c \<in> {CHR '']'', CHR '','', CHR ''='', CHR ''/''} \<Longrightarrow> c \<notin> set hex_digits"
  by (auto simp: hex_digits_def)

lemma idRE_clean: "idRE s \<Longrightarrow> c \<in> {CHR '']'', CHR '','', CHR ''='', CHR ''/''} \<Longrightarrow> c \<notin> set s"
  using idRE_set hex_digits_clean by blast

lemma dec_clean: "c \<in> {CHR '']'', CHR '','', CHR ''='', CHR ''/''} \<Longrightarrow> c \<notin> set (dec_of_int i)"
  using dec_of_int_chars [of i] by (auto simp: dec_digits_def)

lemmas clean = idRE_clean dec_clean

lemma NewID_ok: "1 \<le> length b \<Longrightarrow> length b \<le> 16 \<Longrightarrow> idRE (NewID b)"
  using hex_of_bytes_chars [of b]
  by (auto simp: idRE_def NewID_def length_hex_of_bytes list_all_iff)

lemma part_head_no_bracket:
  "idRE sid \<Longrightarrow> idRE mid \<Longrightarrow> CHR '']'' \<notin> set (part_head sid mid i tot e)"
  by (simp add: part_head_def clean)

lemma payload_char_b64: "list_all payload_char (b64_encode bs)"
  using b64_encode_chars [of bs] by (auto simp: list_all_iff payload_char_def)

lemma takeWhile_bracket: "c \<notin> set xs \<Longrightarrow> takeWhile (\<lambda>x. x \<noteq> c) (xs @ c # ys) = xs"
  "c \<notin> set xs \<Longrightarrow> dropWhile (\<lambda>x. x \<noteq> c) (xs @ c # ys) = c # ys"
  by (induction xs) auto

lemma partRE_body:
  assumes "idRE sid" "idRE mid"
  shows "partRE (part_body sid mid i tot e bs) = Some (part_head sid mid i tot e, b64_encode bs)"
  using part_head_no_bracket [OF assms, of i tot e]
  by (simp add: partRE_def part_body_def takeWhile_bracket payload_char_b64)

lemma space_ends:
  "list_all (\<lambda>c. c \<notin> last ` set space_encodings) (CHR ''='' # b64_alphabet)"
  "CHR ''-'' \<notin> hd ` set space_encodings"
  by code_simp+

lemma trim_space_body: "bs \<noteq> [] \<Longrightarrow> trim_space (part_body sid mid i tot e bs) = part_body sid mid i tot e bs"
proof (rule trim_space_id)
  assume bs: "bs \<noteq> []"
  show "part_body sid mid i tot e bs \<noteq> []" by (simp add: part_body_def)
  have "hd (part_body sid mid i tot e bs) = CHR ''-''" by (simp add: part_body_def)
  then show "hd (part_body sid mid i tot e bs) \<notin> hd ` set space_encodings"
    using space_ends(2) by simp
  have "last (part_body sid mid i tot e bs) = last (b64_encode bs)"
    using bs by (simp add: part_body_def)
  moreover have "last (b64_encode bs) \<in> set (CHR ''='' # b64_alphabet)"
    using bs b64_encode_chars [of bs] last_in_set [of "b64_encode bs"] by (simp only: b64_encode_nonempty list.set(2)) blast
  ultimately show "last (part_body sid mid i tot e bs) \<notin> last ` set space_encodings"
    using space_ends(1) by (metis list_all_iff)
qed

lemma no_space_b64: "list_all (\<lambda>c. c \<notin> set ascii_space) (CHR ''='' # b64_alphabet)"
  by code_simp

lemma fields_b64: "concat (strings_fields (b64_encode bs)) = b64_encode bs"
proof -
  have "\<forall>c \<in> set (b64_encode bs). c \<notin> set ascii_space"
    using b64_encode_chars [of bs] no_space_b64 by (auto simp: list_all_iff)
  then show ?thesis by (simp add: concat_strings_fields filter_id_conv)
qed

lemma split_head:
  assumes "idRE sid" "idRE mid"
  shows "split_on (CHR '','') (part_head sid mid i tot e) =
    [''v='' @ dec_of_int Version, ''sid='' @ sid, ''mid='' @ mid,
     ''seq='' @ dec_of_int i @ ''/'' @ dec_of_int tot, ''exp='' @ dec_of_int e]"
proof -
  have no_comma: "CHR '','' \<notin> set (''v='' @ dec_of_int Version)" "CHR '','' \<notin> set (''sid='' @ sid)"
    "CHR '','' \<notin> set (''mid='' @ mid)" "CHR '','' \<notin> set (''exp='' @ dec_of_int e)"
    "CHR '','' \<notin> set (''seq='' @ dec_of_int i @ ''/'' @ dec_of_int tot)"
    using assms by (simp_all add: clean)
  have "part_head sid mid i tot e =
    (''v='' @ dec_of_int Version) @ CHR '','' # (''sid='' @ sid) @ CHR '','' # (''mid='' @ mid) @ CHR '','' #
    (''seq='' @ dec_of_int i @ ''/'' @ dec_of_int tot) @ CHR '','' # (''exp='' @ dec_of_int e)"
    by (simp add: part_head_def)
  then show ?thesis
    by (simp only: split_on_sep [OF no_comma(1)] split_on_sep [OF no_comma(2)]
        split_on_sep [OF no_comma(3)] split_on_sep [OF no_comma(5)] split_on_last [OF no_comma(4)])
qed

lemma cut_kv:
  "cut (CHR ''='') (''v='' @ v) = Some (''v'', v)"
  "cut (CHR ''='') (''sid='' @ v) = Some (''sid'', v)"
  "cut (CHR ''='') (''mid='' @ v) = Some (''mid'', v)"
  "cut (CHR ''='') (''seq='' @ v) = Some (''seq'', v)"
  "cut (CHR ''='') (''exp='' @ v) = Some (''exp'', v)"
  by (simp_all add: cut_def)

lemma cut_seq: "cut (CHR ''/'') (dec_of_int i @ CHR ''/'' # v) = Some (dec_of_int i, v)"
  by (rule cut_sep) (simp add: dec_clean)

lemma parse_kvs_head:
  assumes "idRE sid" "idRE mid" "in64 i" "in64 tot" "in64 e"
  shows "parse_kvs (split_on (CHR '','') (part_head sid mid i tot e)) (0, zero_part) =
    Some (Version, \<lparr>SID = sid, MID = mid, Seq = i, Total = tot, Exp = e, Chunk = []\<rparr>)"
proof -
  have "in64 Version" by (simp add: Version_def)
  then show ?thesis
    using assms
    by (simp add: split_head parse_kv_def cut_kv [simplified] cut_seq parse_int_dec zero_part_def)
qed

text \<open>Every body the encoder can emit parses back to the part it stands for.\<close>

lemma parse_part_body:
  assumes "idRE sid" "idRE mid" "1 \<le> i" "i \<le> tot" "tot \<le> MaxParts" "in64 e" "bs \<noteq> []"
  shows "parse (part_body sid mid i tot e bs) =
    Some \<lparr>SID = sid, MID = mid, Seq = i, Total = tot, Exp = e, Chunk = bs\<rparr>"
proof -
  have "in64 i" "in64 tot" using assms(3-5) by (simp_all add: range64 MaxParts_def)
  with assms show ?thesis
    by (simp add: parse_def trim_space_body partRE_body parse_kvs_head fields_b64 b64_decode_encode
        idRE_nonempty)
qed

section \<open>Chunking\<close>

lemma chunk_at_concat:
  assumes "0 < c"
  shows "concat (map (chunk_at payload c) [0..<n]) = take (n * nat c) payload"
proof (induction n)
  case 0
  then show ?case by simp
next
  case (Suc n)
  have "take (n * nat c + nat c) payload = take (n * nat c) payload @ take (nat c) (drop (n * nat c) payload)"
    by (rule take_add)
  then show ?case using Suc by (simp add: chunk_at_def algebra_simps)
qed

lemma num_parts_exact:
  assumes "0 < n" "0 < c" "n + c \<le> max64"
  shows "num_parts n c = (n + c - 1) div c"
proof -
  have "in64 (n + c)" "in64 (n + c - 1)" using assms by (simp_all add: range64)
  moreover have "(n + c - 1) div c \<le> n + c - 1"
    using zdiv_mono2 [of "n + c - 1" 1 c] assms by simp
  moreover have "0 \<le> (n + c - 1) div c" using assms by (simp add: pos_imp_zdiv_nonneg_iff)
  ultimately have "in64 ((n + c - 1) div c)" using assms by (simp add: range64)
  then show ?thesis
    using assms \<open>in64 (n + c)\<close> \<open>in64 (n + c - 1)\<close>
    by (simp add: num_parts_def add64_exact sub64_exact quot64_def sgn_if)
qed

lemma ceil_div:
  fixes n c :: int
  assumes "0 < n" "0 < c"
  defines "k \<equiv> (n + c - 1) div c"
  shows "0 < k" "n \<le> k * c" "(k - 1) * c < n" "k \<le> m \<longleftrightarrow> n \<le> m * c"
proof -
  have eq: "n + c - 1 = k * c + (n + c - 1) mod c" by (simp add: k_def)
  have r: "0 \<le> (n + c - 1) mod c" "(n + c - 1) mod c < c" using assms by simp_all
  show up: "n \<le> k * c" using eq r by linarith
  show lo: "(k - 1) * c < n" using eq r by (simp add: left_diff_distrib)
  show "0 < k"
  proof (rule ccontr)
    assume "\<not> 0 < k"
    then have "k * c \<le> 0" using assms by (simp add: mult_le_0_iff)
    with up assms show False by linarith
  qed
  show "k \<le> m \<longleftrightarrow> n \<le> m * c"
  proof
    assume "k \<le> m"
    then have "k * c \<le> m * c" using assms by simp
    with up show "n \<le> m * c" by linarith
  next
    assume "n \<le> m * c"
    with lo have "(k - 1) * c < m * c" by linarith
    then show "k \<le> m" using assms by (simp add: mult_less_cancel_right)
  qed
qed

lemma chunk_at_nonempty:
  assumes "0 < c" "int i * c < int (length payload)"
  shows "chunk_at payload c i \<noteq> []"
proof -
  have "int (i * nat c) = int i * c" using assms(1) by simp
  then have "i * nat c < length payload" using assms(2) by linarith
  then show ?thesis using assms(1) by (simp add: chunk_at_def)
qed

text \<open>The chunk size the code uses, and the parts one call of \<open>encode\<close> stands for.\<close>

definition eff_chunk :: "int \<Rightarrow> int" where
  "eff_chunk cs = (if cs \<le> 0 then DefaultChunkSize else cs)"

definition parts_of :: "string \<Rightarrow> string \<Rightarrow> int64 \<Rightarrow> byte list \<Rightarrow> int \<Rightarrow> part list" where
  "parts_of sid mid e payload cs =
     (let k = num_parts (int (length payload)) cs
      in map (\<lambda>i. \<lparr>SID = sid, MID = mid, Seq = int i + 1, Total = k, Exp = e,
                  Chunk = chunk_at payload cs i\<rparr>) [0..<nat k])"

definition exp_unix :: "instant option \<Rightarrow> int64" where
  "exp_unix exp = (case exp of None \<Rightarrow> 0 | Some t \<Rightarrow> unix t)"

lemma eff_chunk_pos [simp]: "0 < eff_chunk cs"
  by (simp add: eff_chunk_def DefaultChunkSize_def)

lemma parts_of_chunks:
  assumes "payload \<noteq> []" "0 < cs" "int (length payload) + cs \<le> max64"
  shows "concat (map Chunk (parts_of sid mid e payload cs)) = payload"
    "\<forall>p \<in> set (parts_of sid mid e payload cs). Chunk p \<noteq> []"
    "int (length (parts_of sid mid e payload cs)) = num_parts (int (length payload)) cs"
proof -
  let ?n = "int (length payload)"
  have n: "0 < ?n" using assms(1) by simp
  let ?k = "num_parts ?n cs"
  have k: "?k = (?n + cs - 1) div cs" using n assms by (simp add: num_parts_exact)
  note ceil = ceil_div [OF n assms(2), folded k]
  have "int (length payload) \<le> int (nat ?k) * int (nat cs)" using ceil(1,2) assms(2) by simp
  then have "length payload \<le> nat ?k * nat cs" by (simp only: of_nat_le_iff flip: of_nat_mult)
  then have "concat (map (chunk_at payload cs) [0..<nat ?k]) = payload"
    using chunk_at_concat [OF assms(2), of payload "nat ?k"] by simp
  then show "concat (map Chunk (parts_of sid mid e payload cs)) = payload"
    by (simp add: parts_of_def Let_def comp_def)
  show "\<forall>p \<in> set (parts_of sid mid e payload cs). Chunk p \<noteq> []"
  proof
    fix p assume "p \<in> set (parts_of sid mid e payload cs)"
    then obtain i where i: "i < nat ?k" and p: "Chunk p = chunk_at payload cs i"
      by (auto simp: parts_of_def Let_def)
    have "int i * cs \<le> (?k - 1) * cs" using i assms(2) by (intro mult_right_mono) linarith+
    then show "Chunk p \<noteq> []" unfolding p using ceil(3) assms(2) by (intro chunk_at_nonempty) linarith+
  qed
  show "int (length (parts_of sid mid e payload cs)) = ?k"
    using ceil(1) by (simp add: parts_of_def Let_def)
qed

lemma encode_eq:
  assumes "idRE sid" "payload \<noteq> []" "int (length payload) + eff_chunk cs \<le> max64"
  shows "encode sid payload exp cs rnd =
    (if int (length payload) \<le> MaxParts * eff_chunk cs
     then Inr (map (\<lambda>p. part_body (SID p) (MID p) (Seq p) (Total p) (Exp p) (Chunk p))
                 (parts_of sid (NewID rnd) (exp_unix exp) payload (eff_chunk cs)))
     else Inl ErrTooLarge)"
proof -
  let ?n = "int (length payload)" and ?c = "eff_chunk cs"
  have n: "0 < ?n" using assms(2) by simp
  have k: "num_parts ?n ?c = (?n + ?c - 1) div ?c" using n assms by (simp add: num_parts_exact)
  note ceil = ceil_div [OF n eff_chunk_pos [of cs], folded k]
  have "MaxParts < num_parts ?n ?c \<longleftrightarrow> \<not> ?n \<le> MaxParts * ?c" using ceil(4) [of MaxParts] by linarith
  then show ?thesis
    using assms ceil(1)
    by (simp add: encode_def Let_def parts_of_def exp_unix_def comp_def flip: eff_chunk_def)
qed

lemma encode_parses:
  assumes "idRE sid" "payload \<noteq> []" "length rnd = 8" "in64 (exp_unix exp)"
    and "int (length payload) + eff_chunk cs \<le> max64"
    and "int (length payload) \<le> MaxParts * eff_chunk cs"
  shows "\<exists>bodies. encode sid payload exp cs rnd = Inr bodies \<and>
    map parse bodies = map Some (parts_of sid (NewID rnd) (exp_unix exp) payload (eff_chunk cs)) \<and>
    concat (map Chunk (parts_of sid (NewID rnd) (exp_unix exp) payload (eff_chunk cs))) = payload"
proof -
  let ?ps = "parts_of sid (NewID rnd) (exp_unix exp) payload (eff_chunk cs)"
  let ?k = "num_parts (int (length payload)) (eff_chunk cs)"
  have len: "0 < int (length payload)" using assms(2) by simp
  have mid: "idRE (NewID rnd)" using assms(3) by (simp add: NewID_ok)
  have k: "?k \<le> MaxParts" "0 < ?k"
    using ceil_div(4) [OF len eff_chunk_pos [of cs]] ceil_div(1) [OF len eff_chunk_pos [of cs]] assms(5,6) len
    by (simp_all add: num_parts_exact)
  note chunks = parts_of_chunks [OF assms(2) eff_chunk_pos assms(5), of sid "NewID rnd" "exp_unix exp"]
  have "parse (part_body (SID p) (MID p) (Seq p) (Total p) (Exp p) (Chunk p)) = Some p" if "p \<in> set ?ps" for p
    using that chunks(2) assms(1,4) mid k
    by (auto simp: parts_of_def Let_def intro!: parse_part_body)
  then show ?thesis
    using assms chunks(1) by (simp add: encode_eq comp_def)
qed

section \<open>Properties\<close>

text \<open>
  C1: Every message the encoder accepts comes back exactly: its bodies parse, in order, to
  the parts numbered 1 to the total, all under the session id, the message id and the deadline
  given, and the chunks of those parts concatenate to the payload.
\<close>

theorem encode_parse_roundtrip:
  assumes "idRE sid" "payload \<noteq> []" "length rnd = 8" "in64 (exp_unix exp)"
    and "int (length payload) + eff_chunk cs \<le> max64"
    and "int (length payload) \<le> MaxParts * eff_chunk cs"
  shows "\<exists>bodies. encode sid payload exp cs rnd = Inr bodies \<and>
    map parse bodies = map Some (parts_of sid (NewID rnd) (exp_unix exp) payload (eff_chunk cs)) \<and>
    concat (map Chunk (parts_of sid (NewID rnd) (exp_unix exp) payload (eff_chunk cs))) = payload"
  using assms by (rule encode_parses)

theorem encode_parse_roundtrip_witness:
  "\<exists>bodies. encode ''a1'' [1, 2, 3, 4, 5] (Some 1783000000000000000) 2 (replicate 8 0) = Inr bodies \<and>
    map parse bodies = map Some (parts_of ''a1'' (NewID (replicate 8 0)) 1783000000 [1, 2, 3, 4, 5] 2) \<and>
    concat (map Chunk (parts_of ''a1'' (NewID (replicate 8 0)) 1783000000 [1, 2, 3, 4, 5] 2)) = [1, 2, 3, 4, 5]"
proof -
  have "idRE ''a1''" by code_simp
  moreover have "eff_chunk 2 = 2" "exp_unix (Some 1783000000000000000) = 1783000000"
    by (simp_all add: eff_chunk_def exp_unix_def unix_def)
  ultimately show ?thesis
    using encode_parse_roundtrip [of "''a1''" "[1, 2, 3, 4, 5]" "replicate 8 0" "Some 1783000000000000000" 2]
    by (simp add: range64 MaxParts_def)
qed

text \<open>
  The parser accepts well-formed parts only: identifiers of 1 to 32 lower-case hexadecimal
  digits, a sequence number between 1 and the total, at most 64 parts, a deadline in range and
  a non-empty chunk; and the accepted text, trimmed, is one envelope and nothing else, with a
  bracket-free header and a payload of base64 characters and white space.
\<close>

lemma parse_sound:
  assumes "parse text = Some p"
  shows "part_ok p \<and> (\<exists>m1 m2. trim_space text = ''--mcp['' @ m1 @ '']--'' @ m2 \<and>
    CHR '']'' \<notin> set m1 \<and> list_all payload_char m2 \<and> b64_decode (concat (strings_fields m2)) = Some (Chunk p))"
proof -
  from assms obtain m1 m2 where m: "partRE (trim_space text) = Some (m1, m2)"
    and dec: "b64_decode (concat (strings_fields m2)) = Some (Chunk p)"
    by (auto simp: parse_def split: option.splits if_splits)
  let ?s = "trim_space text" and ?P = "\<lambda>c. c \<noteq> CHR '']''"
  from m have t6: "take 6 ?s = ''--mcp[''" and t3: "take 3 (dropWhile ?P (drop 6 ?s)) = '']--''"
    and m1: "m1 = takeWhile ?P (drop 6 ?s)" and m2: "m2 = drop 3 (dropWhile ?P (drop 6 ?s))"
    and ok: "list_all payload_char m2"
    by (auto simp: partRE_def Let_def split: if_splits)
  have "dropWhile ?P (drop 6 ?s) = '']--'' @ m2"
    using append_take_drop_id [of 3 "dropWhile ?P (drop 6 ?s)"] by (simp only: t3 m2)
  then have "drop 6 ?s = m1 @ '']--'' @ m2"
    using takeWhile_dropWhile_id [of ?P "drop 6 ?s"] by (simp only: m1)
  then have "?s = ''--mcp['' @ m1 @ '']--'' @ m2"
    using append_take_drop_id [of 6 ?s] by (simp only: t6)
  moreover have "CHR '']'' \<notin> set m1" unfolding m1 by (auto dest: set_takeWhileD)
  ultimately show ?thesis using ok dec parse_part_ok [OF assms] by blast
qed

definition SampleEnvelope :: string where
  "SampleEnvelope = ''--mcp[v=1,sid=0123456789abcdef,mid=0123456789abcdef,seq=1/1,exp=1783000000]--eyJqc29ucnBjIjoiMi4wIn0=''"

theorem parse_sound_witness:
  "\<exists>p. parse SampleEnvelope = Some p \<and> part_ok p \<and> Exp p = 1783000000"
proof -
  have "(case parse SampleEnvelope of None \<Rightarrow> False | Some p \<Rightarrow> Exp p = 1783000000)" by code_simp
  then obtain p where p: "parse SampleEnvelope = Some p" "Exp p = 1783000000"
    by (auto split: option.splits)
  with parse_sound [OF p(1)] show ?thesis by simp
qed

end
