(* ===== verification/Assembler.thy ===== *)
theory Assembler
  imports Wire
begin

text \<open>
  The bounded reassembly buffer of \<^verbatim>\<open>wire/wire.go\<close> (\<^verbatim>\<open>AssemblerConfig\<close>, \<^verbatim>\<open>pendingMsg\<close>,
  \<^verbatim>\<open>Assembler\<close>). \<open>asm_add\<close> is \<^verbatim>\<open>Add\<close>: its result is \<open>Inl\<close> of the error, \<open>Inr None\<close> for
  the \<^verbatim>\<open>nil, nil\<close> of a message still partial, \<open>Inr (Some payload)\<close> when the last chunk arrived.
\<close>

section \<open>State\<close>

record asm_config =
  MaxPendingPerPeer :: int
  MaxMessageBytes :: int64
  MaxTotalBytes :: int64
  Timeout :: duration

definition asm_withDefaults :: "asm_config \<Rightarrow> asm_config" where
  "asm_withDefaults c = \<lparr>
     MaxPendingPerPeer = (if MaxPendingPerPeer c \<le> 0 then 8 else MaxPendingPerPeer c),
     MaxMessageBytes = (if MaxMessageBytes c \<le> 0 then 16 * 1024 * 1024 else MaxMessageBytes c),
     MaxTotalBytes = (if MaxTotalBytes c \<le> 0 then 64 * 1024 * 1024 else MaxTotalBytes c),
     Timeout = (if Timeout c \<le> 0 then 10 * minute else Timeout c)\<rparr>"

record pending_msg =
  pm_parts :: "(int, byte list) gomap"
  pm_total :: int
  pm_bytes :: int64
  pm_exp :: int64
  pm_firstSeen :: instant
  pm_peer :: string

record assembler =
  as_cfg :: asm_config
  as_pending :: "(string, pending_msg) gomap"
  as_perPeer :: "(string, int) gomap"
  as_bytes :: int64

definition NewAssembler :: "asm_config \<Rightarrow> assembler" where
  "NewAssembler cfg =
     \<lparr>as_cfg = asm_withDefaults cfg, as_pending = [], as_perPeer = [], as_bytes = 0\<rparr>"

definition asm_key :: "string \<Rightarrow> part \<Rightarrow> string" where
  "asm_key peer p = peer @ ''/'' @ SID p @ ''/'' @ MID p"

section \<open>Operations\<close>

definition dropLocked :: "string \<Rightarrow> pending_msg \<Rightarrow> assembler \<Rightarrow> assembler" where
  "dropLocked key msg a =
     a\<lparr>as_bytes := sub64 (as_bytes a) (pm_bytes msg),
       as_perPeer := (if gint (as_perPeer a) (pm_peer msg) \<le> 1 then gdel (pm_peer msg) (as_perPeer a)
                      else gput (pm_peer msg) (gint (as_perPeer a) (pm_peer msg) - 1) (as_perPeer a)),
       as_pending := gdel key (as_pending a)\<rparr>"

definition msg_stale :: "asm_config \<Rightarrow> instant \<Rightarrow> pending_msg \<Rightarrow> bool" where
  "msg_stale cfg now msg \<longleftrightarrow>
     (pm_exp msg > 0 \<and> unix now > pm_exp msg) \<or> time_sub now (pm_firstSeen msg) > Timeout cfg"

text \<open>The \<^verbatim>\<open>range\<close> over the pending map, in the order of the given list of entries.\<close>

fun gc_over :: "(string \<times> pending_msg) list \<Rightarrow> instant \<Rightarrow> assembler \<Rightarrow> assembler" where
  "gc_over [] now a = a"
| "gc_over ((key, msg) # es) now a =
     gc_over es now (if msg_stale (as_cfg a) now msg then dropLocked key msg a else a)"

definition gcLocked :: "instant \<Rightarrow> assembler \<Rightarrow> assembler" where
  "gcLocked now a = gc_over (as_pending a) now a"

definition new_pending :: "string \<Rightarrow> part \<Rightarrow> instant \<Rightarrow> pending_msg" where
  "new_pending peer p now =
     \<lparr>pm_parts = [], pm_total = Total p, pm_bytes = 0, pm_exp = Exp p, pm_firstSeen = now, pm_peer = peer\<rparr>"

text \<open>The chunks in order; a missing one reads as nil, like \<^verbatim>\<open>msg.parts[i]\<close>.\<close>

definition assemble :: "pending_msg \<Rightarrow> byte list" where
  "assemble msg = concat (map (\<lambda>i. case map_of (pm_parts msg) i of None \<Rightarrow> [] | Some c \<Rightarrow> c) [1..pm_total msg])"

text \<open>From the lookup of the message on: what \<^verbatim>\<open>Add\<close> does with a part of a known message.\<close>

definition add_to :: "string \<Rightarrow> pending_msg \<Rightarrow> part \<Rightarrow> assembler \<Rightarrow> assembler \<times> (wire_error + byte list option)" where
  "add_to key msg p a =
     (if Total p \<noteq> pm_total msg then (dropLocked key msg a, Inl (ErrInconsistent key))
      else if map_of (pm_parts msg) (Seq p) \<noteq> None then (a, Inr None)
      else let newBytes = int (length (Chunk p)) in
        if add64 (pm_bytes msg) newBytes > MaxMessageBytes (as_cfg a) \<or>
           add64 (as_bytes a) newBytes > MaxTotalBytes (as_cfg a)
        then (dropLocked key msg a, Inl ErrTooLarge)
        else let msg' = msg\<lparr>pm_parts := gput (Seq p) (Chunk p) (pm_parts msg),
                            pm_bytes := add64 (pm_bytes msg) newBytes\<rparr>;
                 a' = a\<lparr>as_bytes := add64 (as_bytes a) newBytes,
                        as_pending := gput key msg' (as_pending a)\<rparr>
          in if int (length (pm_parts msg')) < pm_total msg' then (a', Inr None)
             else (dropLocked key msg' a', Inr (Some (assemble msg'))))"

definition asm_add :: "assembler \<Rightarrow> string \<Rightarrow> part \<Rightarrow> instant \<Rightarrow> assembler \<times> (wire_error + byte list option)" where
  "asm_add a peer p now =
     (if Expired p now then (a, Inl ErrExpired)
      else if Total p = 1 then
        (if int (length (Chunk p)) > MaxMessageBytes (as_cfg a) then (a, Inl ErrTooLarge)
         else (a, Inr (Some (Chunk p))))
      else let a = gcLocked now a; key = asm_key peer p in
        case map_of (as_pending a) key of
          Some msg \<Rightarrow> add_to key msg p a
        | None \<Rightarrow>
            if gint (as_perPeer a) peer \<ge> MaxPendingPerPeer (as_cfg a) then (a, Inl ErrOverflow)
            else let msg = new_pending peer p now in
              add_to key msg p
                (a\<lparr>as_pending := gput key msg (as_pending a),
                   as_perPeer := gput peer (gint (as_perPeer a) peer + 1) (as_perPeer a)\<rparr>))"

fun asm_adds :: "assembler \<Rightarrow> (string \<times> part \<times> instant) list \<Rightarrow> assembler \<times> (wire_error + byte list option) list" where
  "asm_adds a [] = (a, [])"
| "asm_adds a ((peer, p, now) # es) =
     (let (a', r) = asm_add a peer p now; (a'', rs) = asm_adds a' es in (a'', r # rs))"

section \<open>Invariant\<close>

text \<open>What every reachable buffer satisfies: a pending message holds fewer chunks than its
  total, at sequence numbers in range, and counts their bytes within the message bound; the
  buffer's byte count is the sum over the messages and within the global bound; the counter of
  every peer is the number of its pending messages and within its bound.\<close>

definition msg_ok :: "asm_config \<Rightarrow> pending_msg \<Rightarrow> bool" where
  "msg_ok cfg m \<longleftrightarrow> gmap_ok (pm_parts m) \<and>
     (\<forall>ic \<in> set (pm_parts m). 1 \<le> fst ic \<and> fst ic \<le> pm_total m) \<and>
     pm_bytes m = gsum (\<lambda>c. int (length c)) (pm_parts m) \<and>
     pm_bytes m \<le> MaxMessageBytes cfg \<and> int (length (pm_parts m)) < pm_total m"

definition peer_count :: "(string, pending_msg) gomap \<Rightarrow> string \<Rightarrow> int" where
  "peer_count pend q = gsum (\<lambda>m. if pm_peer m = q then 1 else 0) pend"

definition asm_inv :: "assembler \<Rightarrow> bool" where
  "asm_inv a \<longleftrightarrow> gmap_ok (as_pending a) \<and> gmap_ok (as_perPeer a) \<and>
     (\<forall>km \<in> set (as_pending a). msg_ok (as_cfg a) (snd km)) \<and>
     as_bytes a = gsum pm_bytes (as_pending a) \<and> as_bytes a \<le> MaxTotalBytes (as_cfg a) \<and>
     (\<forall>q. gint (as_perPeer a) q = peer_count (as_pending a) q) \<and>
     (\<forall>q. peer_count (as_pending a) q \<le> MaxPendingPerPeer (as_cfg a))"

text \<open>Limits small enough that no sum of two admissible sizes leaves \<open>int64\<close>.\<close>

definition cfg_ok :: "asm_config \<Rightarrow> bool" where
  "cfg_ok cfg \<longleftrightarrow> 0 < MaxPendingPerPeer cfg \<and> 0 < MaxMessageBytes cfg \<and> MaxMessageBytes cfg < 2 ^ 62 \<and>
     0 < MaxTotalBytes cfg \<and> MaxTotalBytes cfg < 2 ^ 62 \<and> 0 < Timeout cfg"

definition part_fits :: "part \<Rightarrow> bool" where
  "part_fits p \<longleftrightarrow> 1 \<le> Seq p \<and> Seq p \<le> Total p \<and> int (length (Chunk p)) < 2 ^ 62"

lemma asm_inv_new: "cfg_ok (asm_withDefaults cfg) \<Longrightarrow> asm_inv (NewAssembler cfg)"
  by (simp add: asm_inv_def NewAssembler_def peer_count_def cfg_ok_def)

lemma msg_ok_bytes_nonneg: "msg_ok cfg m \<Longrightarrow> 0 \<le> pm_bytes m"
  by (simp add: msg_ok_def gsum_nonneg)

lemma peer_count_nonneg: "0 \<le> peer_count pend q"
  by (simp add: peer_count_def gsum_nonneg)

lemma asm_inv_bytes:
  assumes "asm_inv a" "map_of (as_pending a) key = Some msg"
  shows "0 \<le> pm_bytes msg" "pm_bytes msg \<le> as_bytes a" "msg_ok (as_cfg a) msg"
proof -
  have mem: "(key, msg) \<in> set (as_pending a)" using assms(2) by (rule map_of_SomeD)
  then show ok: "msg_ok (as_cfg a) msg" using assms(1) by (fastforce simp: asm_inv_def)
  then show "0 \<le> pm_bytes msg" by (rule msg_ok_bytes_nonneg)
  have "\<forall>km \<in> set (as_pending a). 0 \<le> pm_bytes (snd km)"
    using assms(1) by (auto simp: asm_inv_def intro: msg_ok_bytes_nonneg)
  then show "pm_bytes msg \<le> as_bytes a"
    using assms gsum_member_le [of "as_pending a" key msg pm_bytes] by (simp add: asm_inv_def)
qed

lemma asm_inv_bytes_range:
  assumes "asm_inv a" "cfg_ok (as_cfg a)"
  shows "0 \<le> as_bytes a" "as_bytes a < 2 ^ 62"
proof -
  have "\<forall>km \<in> set (as_pending a). 0 \<le> pm_bytes (snd km)"
    using assms(1) by (auto simp: asm_inv_def intro: msg_ok_bytes_nonneg)
  then show "0 \<le> as_bytes a" using assms(1) by (simp add: asm_inv_def gsum_nonneg)
  show "as_bytes a < 2 ^ 62" using assms by (simp add: asm_inv_def cfg_ok_def)
qed

lemma peer_count_member:
  "map_of pend key = Some msg \<Longrightarrow> 1 \<le> peer_count pend (pm_peer msg)"
  using gsum_member_le [of pend key msg "\<lambda>m. if pm_peer m = pm_peer msg then 1 else 0"]
  by (simp add: peer_count_def)

lemma peer_count_gdel:
  "gmap_ok pend \<Longrightarrow> map_of pend key = Some msg \<Longrightarrow>
     peer_count (gdel key pend) q = peer_count pend q - (if pm_peer msg = q then 1 else 0)"
  by (simp add: peer_count_def gsum_gdel)

lemma peer_count_gput_new:
  "gmap_ok pend \<Longrightarrow> map_of pend key = None \<Longrightarrow>
     peer_count (gput key msg pend) q = peer_count pend q + (if pm_peer msg = q then 1 else 0)"
  by (simp add: peer_count_def gsum_gput)

lemma peer_count_gput_same:
  "gmap_ok pend \<Longrightarrow> map_of pend key = Some msg \<Longrightarrow> pm_peer msg' = pm_peer msg \<Longrightarrow>
     peer_count (gput key msg' pend) q = peer_count pend q"
  by (simp add: peer_count_def gsum_gput)

text \<open>Dropping a pending message keeps the invariant, and only its own entry goes.\<close>

lemma dropLocked_simps [simp]:
  "as_cfg (dropLocked key msg a) = as_cfg a"
  "as_pending (dropLocked key msg a) = gdel key (as_pending a)"
  by (simp_all add: dropLocked_def)

lemma dropLocked_inv [inv_intros]:
  assumes inv: "asm_inv a" and cfg: "cfg_ok (as_cfg a)" and msg: "map_of (as_pending a) key = Some msg"
  shows "asm_inv (dropLocked key msg a)"
    and "as_bytes (dropLocked key msg a) = as_bytes a - pm_bytes msg"
proof -
  note b = asm_inv_bytes [OF inv msg] asm_inv_bytes_range [OF inv cfg]
  have ok: "gmap_ok (as_pending a)" using inv by (simp add: asm_inv_def)
  show bytes: "as_bytes (dropLocked key msg a) = as_bytes a - pm_bytes msg"
    using b by (simp add: dropLocked_def sub64_nonneg max64_def)
  have n: "gint (as_perPeer a) q = peer_count (as_pending a) q"
    "peer_count (as_pending a) q \<le> MaxPendingPerPeer (as_cfg a)" for q
    using inv unfolding asm_inv_def by blast+
  have one: "1 \<le> gint (as_perPeer a) (pm_peer msg)" using peer_count_member [OF msg] by (simp add: n)
  have cnt: "gint (as_perPeer (dropLocked key msg a)) q =
      gint (as_perPeer a) q - (if pm_peer msg = q then 1 else 0)" for q
    using one by (auto simp: dropLocked_def)
  have "gint (as_perPeer (dropLocked key msg a)) q = peer_count (gdel key (as_pending a)) q"
    "peer_count (gdel key (as_pending a)) q \<le> MaxPendingPerPeer (as_cfg a)" for q
    using n [of q] by (simp_all add: cnt peer_count_gdel [OF ok msg])
  moreover have "gmap_ok (as_perPeer (dropLocked key msg a))"
    using inv by (simp add: asm_inv_def dropLocked_def)
  moreover have "\<forall>km \<in> set (gdel key (as_pending a)). msg_ok (as_cfg a) (snd km)"
    using inv by (auto simp: asm_inv_def set_gdel)
  ultimately show "asm_inv (dropLocked key msg a)"
    using inv bytes msg b by (simp add: asm_inv_def gsum_gdel ok)
qed

section \<open>Garbage collection\<close>

lemma gc_over_cfg [simp]: "as_cfg (gc_over es now a) = as_cfg a"
  by (induction es now a rule: gc_over.induct) auto

text \<open>Whatever order the entries are visited in, exactly the stale ones go.\<close>

lemma gc_over_spec:
  assumes "asm_inv a" "cfg_ok (as_cfg a)" "distinct (map fst es)" "set es \<subseteq> set (as_pending a)"
  shows "asm_inv (gc_over es now a) \<and>
    as_pending (gc_over es now a) =
      filter (\<lambda>km. \<not> (km \<in> set es \<and> msg_stale (as_cfg a) now (snd km))) (as_pending a) \<and>
    as_bytes (gc_over es now a) \<le> as_bytes a"
  using assms
proof (induction es now a rule: gc_over.induct)
  case (1 now a)
  then show ?case by simp
next
  case (2 key msg es now a)
  have ok: "gmap_ok (as_pending a)" using 2(2) by (simp add: asm_inv_def)
  have here: "map_of (as_pending a) key = Some msg" using 2(5) ok by (simp add: gmap_ok_mem)
  show ?case
  proof (cases "msg_stale (as_cfg a) now msg")
    case False
    then have "filter (\<lambda>km. \<not> (km \<in> set es \<and> msg_stale (as_cfg a) now (snd km))) (as_pending a) =
      filter (\<lambda>km. \<not> (km \<in> set ((key, msg) # es) \<and> msg_stale (as_cfg a) now (snd km))) (as_pending a)"
      by (intro filter_cong) auto
    with 2 False show ?thesis by simp
  next
    case True
    let ?b = "dropLocked key msg a"
    note drop = dropLocked_inv [OF 2(2,3) here]
    have "set es \<subseteq> set (as_pending ?b)"
      using 2(4,5) by (auto simp: set_gdel image_iff)
    with 2 True drop have IH: "asm_inv (gc_over es now ?b) \<and>
        as_pending (gc_over es now ?b) =
          filter (\<lambda>km. \<not> (km \<in> set es \<and> msg_stale (as_cfg a) now (snd km))) (gdel key (as_pending a)) \<and>
        as_bytes (gc_over es now ?b) \<le> as_bytes ?b"
      by simp
    have "filter (\<lambda>km. \<not> (km \<in> set es \<and> msg_stale (as_cfg a) now (snd km))) (gdel key (as_pending a)) =
      filter (\<lambda>km. \<not> (km \<in> set ((key, msg) # es) \<and> msg_stale (as_cfg a) now (snd km))) (as_pending a)"
      unfolding gdel_filter filter_filter
    proof (rule filter_cong [OF refl])
      fix km assume km: "km \<in> set (as_pending a)"
      obtain k m where eq: "km = (k, m)" by (cases km)
      have "map_of (as_pending a) k = Some m" using km ok by (simp add: gmap_ok_mem eq)
      then have "fst km = key \<Longrightarrow> km = (key, msg)" using here by (simp add: eq)
      moreover have "fst km = key \<Longrightarrow> km \<notin> set es" using 2(4) by (cases km) force
      ultimately show "((case km of (k', _) \<Rightarrow> k' \<noteq> key) \<and> \<not> (km \<in> set es \<and> msg_stale (as_cfg a) now (snd km))) =
          (\<not> (km \<in> set ((key, msg) # es) \<and> msg_stale (as_cfg a) now (snd km)))"
        using True by (cases km) auto
    qed
    moreover have "as_bytes ?b \<le> as_bytes a"
      using drop(2) asm_inv_bytes(1) [OF 2(2) here] by simp
    ultimately show ?thesis using IH True by simp
  qed
qed

lemma gcLocked_cfg [simp]: "as_cfg (gcLocked now a) = as_cfg a"
  by (simp add: gcLocked_def)

lemma gcLocked_spec:
  assumes "asm_inv a" "cfg_ok (as_cfg a)"
  shows "asm_inv (gcLocked now a)"
    and "as_pending (gcLocked now a) = filter (\<lambda>km. \<not> msg_stale (as_cfg a) now (snd km)) (as_pending a)"
    and "as_bytes (gcLocked now a) \<le> as_bytes a"
proof -
  have "distinct (map fst (as_pending a))" using assms(1) by (simp add: asm_inv_def gmap_ok_def)
  note spec = gc_over_spec [OF assms this subset_refl]
  then show "asm_inv (gcLocked now a)" "as_bytes (gcLocked now a) \<le> as_bytes a"
    by (simp_all add: gcLocked_def)
  show "as_pending (gcLocked now a) = filter (\<lambda>km. \<not> msg_stale (as_cfg a) now (snd km)) (as_pending a)"
    using spec by (simp add: gcLocked_def cong: filter_cong)
qed

lemma map_of_filter_ok:
  "gmap_ok m \<Longrightarrow> map_of (filter (\<lambda>kv. P (snd kv)) m) k =
     (case map_of m k of None \<Rightarrow> None | Some v \<Rightarrow> if P v then Some v else None)"
  by (induction m) (auto simp: gmap_ok_Cons split: option.splits)

lemma gcLocked_lookup:
  assumes "asm_inv a" "cfg_ok (as_cfg a)"
  shows "map_of (as_pending (gcLocked now a)) k =
    (case map_of (as_pending a) k of None \<Rightarrow> None
     | Some m \<Rightarrow> if msg_stale (as_cfg a) now m then None else Some m)"
proof -
  have "gmap_ok (as_pending a)" using assms(1) by (simp add: asm_inv_def)
  then show ?thesis
    using map_of_filter_ok [of "as_pending a" "\<lambda>m. \<not> msg_stale (as_cfg a) now m" k]
    unfolding gcLocked_spec(2) [OF assms] by (simp split: option.splits)
qed

lemma gcLocked_perPeer_le:
  assumes "asm_inv a" "cfg_ok (as_cfg a)"
  shows "gint (as_perPeer (gcLocked now a)) q \<le> gint (as_perPeer a) q"
proof -
  have "gint (as_perPeer (gcLocked now a)) q = peer_count (as_pending (gcLocked now a)) q"
    "gint (as_perPeer a) q = peer_count (as_pending a) q"
    using gcLocked_spec(1) [OF assms] assms(1) unfolding asm_inv_def by blast+
  then show ?thesis
    unfolding gcLocked_spec(2) [OF assms] peer_count_def by (simp add: gsum_filter_le)
qed

section \<open>Adding a part keeps the invariant\<close>

lemma gdel_gput [simp]: "gdel k (gput k v m) = gdel k m"
  by (induction m) (auto simp: gdel_filter)

text \<open>A message with one more chunk, and the buffer that holds it.\<close>

definition grow_msg :: "pending_msg \<Rightarrow> part \<Rightarrow> pending_msg" where
  "grow_msg msg p = msg\<lparr>pm_parts := gput (Seq p) (Chunk p) (pm_parts msg),
     pm_bytes := pm_bytes msg + int (length (Chunk p))\<rparr>"

definition grow :: "string \<Rightarrow> pending_msg \<Rightarrow> part \<Rightarrow> assembler \<Rightarrow> assembler" where
  "grow key msg p a = a\<lparr>as_bytes := as_bytes a + int (length (Chunk p)),
     as_pending := gput key (grow_msg msg p) (as_pending a)\<rparr>"

lemma length_gput_new: "map_of m k = None \<Longrightarrow> length (gput k v m) = Suc (length m)"
  by (induction m) (auto split: if_splits)

text \<open>The four outcomes, with the additions exact under the invariant.\<close>

lemma add_to_cases:
  assumes inv: "asm_inv a" and cfg: "cfg_ok (as_cfg a)" and msg: "map_of (as_pending a) key = Some msg"
    and fits: "part_fits p"
  shows "add_to key msg p a =
    (if Total p \<noteq> pm_total msg then (dropLocked key msg a, Inl (ErrInconsistent key))
     else if map_of (pm_parts msg) (Seq p) \<noteq> None then (a, Inr None)
     else if pm_bytes msg + int (length (Chunk p)) > MaxMessageBytes (as_cfg a) \<or>
             as_bytes a + int (length (Chunk p)) > MaxTotalBytes (as_cfg a)
     then (dropLocked key msg a, Inl ErrTooLarge)
     else if int (length (pm_parts msg)) + 1 < pm_total msg then (grow key msg p a, Inr None)
     else (dropLocked key msg a, Inr (Some (assemble (grow_msg msg p)))))"
proof -
  note b = asm_inv_bytes [OF inv msg] asm_inv_bytes_range [OF inv cfg]
  have len: "0 \<le> int (length (Chunk p))" "int (length (Chunk p)) < 2 ^ 62"
    using fits by (simp_all add: part_fits_def)
  have mle: "pm_bytes msg < 2 ^ 62" using b by linarith
  have sums: "add64 (pm_bytes msg) (int (length (Chunk p))) = pm_bytes msg + int (length (Chunk p))"
    "add64 (as_bytes a) (int (length (Chunk p))) = as_bytes a + int (length (Chunk p))"
    using b len mle by (auto intro!: add64_exact simp: range64)
  have drop: "dropLocked key (grow_msg msg p) (grow key msg p a) = dropLocked key msg a"
  proof -
    have "sub64 (as_bytes a + int (length (Chunk p))) (pm_bytes msg + int (length (Chunk p))) =
        sub64 (as_bytes a) (pm_bytes msg)"
      by (simp add: sub64_def)
    then show ?thesis by (simp add: dropLocked_def grow_def grow_msg_def)
  qed
  show ?thesis
  proof (cases "map_of (pm_parts msg) (Seq p)")
    case None
    then show ?thesis
      using drop by (simp add: add_to_def Let_def sums grow_def grow_msg_def length_gput_new)
  qed (simp add: add_to_def)
qed

lemma grow_inv:
  assumes inv: "asm_inv a" and msg: "map_of (as_pending a) key = Some msg"
    and fits: "part_fits p" and tot: "Total p = pm_total msg"
    and new: "map_of (pm_parts msg) (Seq p) = None"
    and bounds: "pm_bytes msg + int (length (Chunk p)) \<le> MaxMessageBytes (as_cfg a)"
      "as_bytes a + int (length (Chunk p)) \<le> MaxTotalBytes (as_cfg a)"
    and part: "int (length (pm_parts msg)) + 1 < pm_total msg"
  shows "asm_inv (grow key msg p a)"
proof -
  have ok: "gmap_ok (as_pending a)" using inv by (simp add: asm_inv_def)
  have m: "msg_ok (as_cfg a) msg" by (rule asm_inv_bytes(3) [OF inv msg])
  have "msg_ok (as_cfg a) (grow_msg msg p)"
    using m fits tot new bounds(1) part set_gput [of "Seq p" "Chunk p" "pm_parts msg"]
    by (auto simp: msg_ok_def grow_msg_def part_fits_def gsum_gput length_gput_new)
  then have "\<forall>km \<in> set (gput key (grow_msg msg p) (as_pending a)). msg_ok (as_cfg a) (snd km)"
    using inv set_gput [of key "grow_msg msg p" "as_pending a"] by (auto simp: asm_inv_def)
  moreover have "peer_count (gput key (grow_msg msg p) (as_pending a)) q = peer_count (as_pending a) q" for q
    using ok msg by (simp add: peer_count_gput_same grow_msg_def)
  moreover have "gsum pm_bytes (gput key (grow_msg msg p) (as_pending a)) =
      gsum pm_bytes (as_pending a) + int (length (Chunk p))"
    using ok msg by (simp add: gsum_gput grow_msg_def)
  ultimately show ?thesis using inv bounds(2) by (simp add: asm_inv_def grow_def)
qed

lemma add_to_inv [inv_intros]:
  assumes "asm_inv a" "cfg_ok (as_cfg a)" "map_of (as_pending a) key = Some msg" "part_fits p"
  shows "asm_inv (fst (add_to key msg p a))" "as_cfg (fst (add_to key msg p a)) = as_cfg a"
  using assms by (simp_all add: add_to_cases dropLocked_inv grow_inv) (simp add: grow_def)

definition admit :: "string \<Rightarrow> string \<Rightarrow> pending_msg \<Rightarrow> assembler \<Rightarrow> assembler" where
  "admit key peer msg a = a\<lparr>as_pending := gput key msg (as_pending a),
     as_perPeer := gput peer (gint (as_perPeer a) peer + 1) (as_perPeer a)\<rparr>"

lemma admit_inv:
  assumes "asm_inv a" "cfg_ok (as_cfg a)" "map_of (as_pending a) key = None"
    and "gint (as_perPeer a) peer < MaxPendingPerPeer (as_cfg a)" "2 \<le> Total p"
  shows "asm_inv (admit key peer (new_pending peer p now) a)"
proof -
  let ?m = "new_pending peer p now"
  have ok: "gmap_ok (as_pending a)" using assms(1) by (simp add: asm_inv_def)
  have "msg_ok (as_cfg a) ?m" using assms(2,5) by (simp add: msg_ok_def new_pending_def cfg_ok_def)
  then have "\<forall>km \<in> set (gput key ?m (as_pending a)). msg_ok (as_cfg a) (snd km)"
    using assms(1) set_gput [of key ?m "as_pending a"] by (auto simp: asm_inv_def)
  moreover have "gint (as_perPeer a) q = peer_count (as_pending a) q"
    "peer_count (as_pending a) q \<le> MaxPendingPerPeer (as_cfg a)" for q
    using assms(1) unfolding asm_inv_def by blast+
  ultimately show ?thesis
    using assms ok
    by (auto simp: asm_inv_def admit_def peer_count_gput_new gsum_gput new_pending_def)
qed

lemma admit_simps [simp]:
  "as_cfg (admit key peer msg a) = as_cfg a" "map_of (as_pending (admit key peer msg a)) key = Some msg"
  "as_bytes (admit key peer msg a) = as_bytes a"
  by (simp_all add: admit_def)

text \<open>\<open>asm_add\<close> in terms of these steps.\<close>

lemma asm_add_multi:
  assumes "\<not> Expired p now" "Total p \<noteq> 1"
  shows "asm_add a peer p now =
    (let b = gcLocked now a; key = asm_key peer p in
     case map_of (as_pending b) key of
       Some msg \<Rightarrow> add_to key msg p b
     | None \<Rightarrow> if gint (as_perPeer b) peer \<ge> MaxPendingPerPeer (as_cfg b) then (b, Inl ErrOverflow)
         else add_to key (new_pending peer p now) p (admit key peer (new_pending peer p now) b))"
  using assms by (simp add: asm_add_def Let_def admit_def split: option.split)

lemma asm_add_inv [inv_intros]:
  assumes inv: "asm_inv a" and cfg: "cfg_ok (as_cfg a)" and fits: "part_fits p"
  shows "asm_inv (fst (asm_add a peer p now))" "as_cfg (fst (asm_add a peer p now)) = as_cfg a"
proof -
  let ?b = "gcLocked now a" and ?k = "asm_key peer p" and ?m = "new_pending peer p now"
  have b: "asm_inv ?b" "cfg_ok (as_cfg ?b)" using gcLocked_spec(1) [OF inv cfg] cfg by simp_all
  have total: "Total p \<noteq> 1 \<Longrightarrow> 2 \<le> Total p" using fits by (simp add: part_fits_def)
  have "asm_inv (fst (asm_add a peer p now)) \<and> as_cfg (fst (asm_add a peer p now)) = as_cfg a"
  proof (cases "Expired p now \<or> Total p = 1")
    case True
    then show ?thesis using inv by (auto simp: asm_add_def)
  next
    case False
    then have multi: "\<not> Expired p now" "Total p \<noteq> 1" by simp_all
    show ?thesis
    proof (cases "map_of (as_pending ?b) ?k")
      case (Some msg)
      with add_to_inv [OF b Some fits] show ?thesis by (simp add: asm_add_multi [OF multi] Let_def)
    next
      case None
      show ?thesis
      proof (cases "gint (as_perPeer ?b) peer < MaxPendingPerPeer (as_cfg ?b)")
        case True
        have "asm_inv (admit ?k peer ?m ?b)" by (rule admit_inv [OF b None True total [OF multi(2)]])
        then show ?thesis
          using add_to_inv [of "admit ?k peer ?m ?b" ?k ?m p] b(2) fits None True
          by (simp add: asm_add_multi [OF multi] Let_def)
      next
        case False
        then show ?thesis using None b by (simp add: asm_add_multi [OF multi] Let_def)
      qed
    qed
  qed
  then show "asm_inv (fst (asm_add a peer p now))" "as_cfg (fst (asm_add a peer p now)) = as_cfg a"
    by simp_all
qed

lemma asm_adds_inv [inv_intros]:
  "asm_inv a \<Longrightarrow> cfg_ok (as_cfg a) \<Longrightarrow> \<forall>e \<in> set es. part_fits (fst (snd e)) \<Longrightarrow>
     asm_inv (fst (asm_adds a es)) \<and> as_cfg (fst (asm_adds a es)) = as_cfg a"
proof (induction a es rule: asm_adds.induct)
  case (1 a)
  then show ?case by simp
next
  case (2 a peer p now es)
  have "part_fits p" using 2(4) by simp
  note step = asm_add_inv [OF 2(2,3) this, of peer now]
  obtain a' r where a': "asm_add a peer p now = (a', r)" by (cases "asm_add a peer p now")
  then have "asm_inv (fst (asm_adds a' es)) \<and> as_cfg (fst (asm_adds a' es)) = as_cfg a'"
    using step 2(1) [OF a' [symmetric] refl] 2(3,4) by simp
  then show ?case using step a' by (simp add: split_beta)
qed

lemma parsed_part_fits: "parse s = Some p \<Longrightarrow> int (length (Chunk p)) < 2 ^ 62 \<Longrightarrow> part_fits p"
  using parse_part_ok [of s p] by (simp add: part_fits_def part_ok_def)

section \<open>Reassembly in any order\<close>

text \<open>The buffer after the chunks numbered in \<open>got\<close> of the message \<open>key\<close> have been stored:
  nothing is pending yet, or a message first seen at \<open>t0\<close> with exactly those chunks.\<close>

definition holds_chunks ::
  "assembler \<Rightarrow> string \<Rightarrow> string \<Rightarrow> int \<Rightarrow> int64 \<Rightarrow> instant \<Rightarrow> (int \<Rightarrow> byte list) \<Rightarrow> int set \<Rightarrow> bool" where
  "holds_chunks a key peer n e t0 c got \<longleftrightarrow>
     (if got = {} then map_of (as_pending a) key = None \<and>
                       gint (as_perPeer a) peer < MaxPendingPerPeer (as_cfg a)
      else \<exists>m. map_of (as_pending a) key = Some m \<and> pm_total m = n \<and> pm_exp m = e \<and> pm_firstSeen m = t0 \<and>
             map_of (pm_parts m) = (\<lambda>i. if i \<in> got then Some (c i) else None))"

lemma map_of_keys: "fst ` set m = {k. map_of m k \<noteq> None}"
  by (auto simp: map_of_eq_None_iff)

lemma gmap_ok_length: "gmap_ok m \<Longrightarrow> length m = card (fst ` set m)"
  unfolding gmap_ok_def by (metis distinct_card length_map list.set_map)

lemma stored_chunks:
  assumes "gmap_ok parts" "map_of parts = (\<lambda>i. if i \<in> got then Some (c i) else None)" "finite got"
  shows "length parts = card got" "gsum (\<lambda>b. int (length b)) parts = (\<Sum>i \<in> got. int (length (c i)))"
proof -
  have keys: "fst ` set parts = got" by (simp add: map_of_keys assms(2))
  then show "length parts = card got" using gmap_ok_length [OF assms(1)] by simp
  have "gsum (\<lambda>b. int (length b)) parts = (\<Sum>i \<in> got. gval (\<lambda>b. int (length b)) parts i)"
    using gsum_keys [OF assms(1,3)] keys by simp
  also have "\<dots> = (\<Sum>i \<in> got. int (length (c i)))"
    by (rule sum.cong) (simp_all add: gval_def assms(2))
  finally show "gsum (\<lambda>b. int (length b)) parts = (\<Sum>i \<in> got. int (length (c i)))" .
qed

lemma assemble_chunks:
  "pm_total m = n \<Longrightarrow> map_of (pm_parts m) = (\<lambda>i. if i \<in> {1..n} then Some (c i) else None) \<Longrightarrow>
     assemble m = concat (map c [1..n])"
  unfolding assemble_def by (intro arg_cong [where f = concat] map_cong) auto

text \<open>One more chunk.\<close>

lemma asm_add_chunk:
  assumes inv: "asm_inv a" and cfg: "cfg_ok (as_cfg a)"
    and holds: "holds_chunks a (asm_key peer p) peer n e t0 c got"
    and p: "Total p = n" "Exp p = e" "Chunk p = c (Seq p)" "Seq p \<in> {1..n} - got" "part_fits p"
    and got: "got \<subseteq> {1..n}" "got = {} \<Longrightarrow> now = t0" and n: "2 \<le> n"
    and fresh: "\<not> (e > 0 \<and> unix now > e)" "time_sub now t0 \<le> Timeout (as_cfg a)"
    and fit: "(\<Sum>i \<in> {1..n}. int (length (c i))) \<le> MaxMessageBytes (as_cfg a)"
      "as_bytes a + int (length (Chunk p)) \<le> MaxTotalBytes (as_cfg a)"
  shows "if insert (Seq p) got = {1..n} then snd (asm_add a peer p now) = Inr (Some (concat (map c [1..n])))
    else snd (asm_add a peer p now) = Inr None \<and>
      holds_chunks (fst (asm_add a peer p now)) (asm_key peer p) peer n e t0 c (insert (Seq p) got) \<and>
      as_bytes (fst (asm_add a peer p now)) \<le> as_bytes a + int (length (Chunk p))"
proof -
  let ?b = "gcLocked now a" and ?k = "asm_key peer p"
  have b: "asm_inv ?b" "cfg_ok (as_cfg ?b)" "as_bytes ?b \<le> as_bytes a"
    using gcLocked_spec [OF inv cfg] cfg by simp_all
  have fin: "finite got" using got(1) finite_subset by blast
  have multi: "\<not> Expired p now" "Total p \<noteq> 1" using fresh(1) p n by (auto simp: Expired_def)
  \<comment> \<open>the message the part is added to, and the buffer that holds it\<close>
  obtain d m where d: "asm_inv d" "as_cfg d = as_cfg a" "map_of (as_pending d) ?k = Some m"
      "as_bytes d \<le> as_bytes a" "asm_add a peer p now = add_to ?k m p d"
    and m: "pm_total m = n" "pm_exp m = e" "pm_firstSeen m = t0"
      "map_of (pm_parts m) = (\<lambda>i. if i \<in> got then Some (c i) else None)"
  proof (cases "got = {}")
    case True
    let ?m = "new_pending peer p now" and ?d = "admit ?k peer (new_pending peer p now) ?b"
    have none: "map_of (as_pending ?b) ?k = None"
      using holds True by (simp add: holds_chunks_def gcLocked_lookup [OF inv cfg])
    have room: "gint (as_perPeer ?b) peer < MaxPendingPerPeer (as_cfg ?b)"
      using holds True gcLocked_perPeer_le [OF inv cfg, of now peer] by (simp add: holds_chunks_def)
    have "2 \<le> Total p" using p n by simp
    then have "asm_inv ?d" by (rule admit_inv [OF b(1,2) none room])
    moreover have "asm_add a peer p now = add_to ?k ?m p ?d"
      using none room by (simp add: asm_add_multi [OF multi] Let_def)
    ultimately show thesis
      using that [of ?d ?m] b(3) True p got(2) by (simp add: new_pending_def fun_eq_iff)
  next
    case False
    with holds obtain m where m: "map_of (as_pending a) ?k = Some m" "pm_total m = n" "pm_exp m = e"
        "pm_firstSeen m = t0" "map_of (pm_parts m) = (\<lambda>i. if i \<in> got then Some (c i) else None)"
      by (auto simp: holds_chunks_def)
    have "\<not> msg_stale (as_cfg a) now m" using fresh m by (auto simp: msg_stale_def)
    then have "map_of (as_pending ?b) ?k = Some m" using m(1) by (simp add: gcLocked_lookup [OF inv cfg])
    then show thesis using that [of ?b m] b m by (simp add: asm_add_multi [OF multi] Let_def)
  qed
  have cfgd: "cfg_ok (as_cfg d)" using cfg d(2) by simp
  have ok: "gmap_ok (pm_parts m)" and bytes: "pm_bytes m = gsum (\<lambda>b. int (length b)) (pm_parts m)"
    using asm_inv_bytes(3) [OF d(1,3)] by (simp_all add: msg_ok_def)
  note stored = stored_chunks [OF ok m(4) fin]
  have "(\<Sum>i \<in> insert (Seq p) got. int (length (c i))) \<le> (\<Sum>i \<in> {1..n}. int (length (c i)))"
    using p(4) got(1) by (intro sum_mono2) auto
  then have small: "pm_bytes m + int (length (Chunk p)) \<le> MaxMessageBytes (as_cfg d)"
    using p(3,4) fit(1) fin by (simp add: bytes stored d(2))
  have room: "as_bytes d + int (length (Chunk p)) \<le> MaxTotalBytes (as_cfg d)"
    using fit(2) d(2,4) by simp
  have new: "map_of (pm_parts m) (Seq p) = None" using p(4) by (simp add: m(4))
  have parts': "map_of (pm_parts (grow_msg m p)) = (\<lambda>i. if i \<in> insert (Seq p) got then Some (c i) else None)"
    by (auto simp: grow_msg_def m(4) p(3) fun_eq_iff)
  have card: "card (insert (Seq p) got) = Suc (card got)" using p(4) fin by simp
  have full: "insert (Seq p) got = {1..n} \<longleftrightarrow> \<not> int (length (pm_parts m)) + 1 < n"
  proof
    assume "insert (Seq p) got = {1..n}"
    then have "Suc (card got) = card {1..n}" using card by simp
    then show "\<not> int (length (pm_parts m)) + 1 < n" using n by (simp add: stored)
  next
    assume "\<not> int (length (pm_parts m)) + 1 < n"
    then have "card {1..n} \<le> card (insert (Seq p) got)" using n by (simp add: card stored)
    then show "insert (Seq p) got = {1..n}"
      using got(1) p(4) by (intro card_seteq) auto
  qed
  have add: "asm_add a peer p now =
      (if int (length (pm_parts m)) + 1 < n then (grow ?k m p d, Inr None)
       else (dropLocked ?k m d, Inr (Some (assemble (grow_msg m p)))))"
    unfolding d(5) add_to_cases [OF d(1) cfgd d(3) p(5)] using p(1) m(1) new small room by simp
  show ?thesis
  proof (cases "insert (Seq p) got = {1..n}")
    case True
    then have "assemble (grow_msg m p) = concat (map c [1..n])"
      using parts' by (intro assemble_chunks) (simp_all add: grow_msg_def m(1))
    then show ?thesis using True full add by simp
  next
    case False
    then have "holds_chunks (grow ?k m p d) ?k peer n e t0 c (insert (Seq p) got)"
      using parts' m by (simp add: holds_chunks_def grow_def) (simp add: grow_msg_def)
    then show ?thesis using False full add d(4) by (simp add: grow_def)
  qed
qed

text \<open>The whole message, its parts arriving in any order at times within the timeout.\<close>

lemma image_diff_insert: "insert x S = T - got \<Longrightarrow> x \<notin> S \<Longrightarrow> S = T - insert x got"
  by blast

lemma asm_adds_message:
  assumes "asm_inv a" "cfg_ok (as_cfg a)" "holds_chunks a key peer n e t0 c got"
    and "\<And>q. q \<in> set qs \<Longrightarrow> asm_key peer (fst q) = key \<and> Total (fst q) = n \<and> Exp (fst q) = e \<and>
      Chunk (fst q) = c (Seq (fst q)) \<and> int (length (Chunk (fst q))) < 2 ^ 62 \<and>
      \<not> (e > 0 \<and> unix (snd q) > e) \<and> time_sub (snd q) t0 \<le> Timeout (as_cfg a)"
    and "qs \<noteq> []" "distinct (map (\<lambda>q. Seq (fst q)) qs)" "got \<subseteq> {1..n}"
    and "(\<lambda>q. Seq (fst q)) ` set qs = {1..n} - got"
    and "got = {} \<Longrightarrow> snd (hd qs) = t0" and "2 \<le> n"
    and "(\<Sum>i \<in> {1..n}. int (length (c i))) \<le> MaxMessageBytes (as_cfg a)"
    and "as_bytes a + (\<Sum>q \<leftarrow> qs. int (length (Chunk (fst q)))) \<le> MaxTotalBytes (as_cfg a)"
  shows "snd (asm_adds a (map (\<lambda>q. (peer, fst q, snd q)) qs)) =
    replicate (length qs - 1) (Inr None) @ [Inr (Some (concat (map c [1..n])))]"
  using assms
proof (induction qs arbitrary: a got)
  case Nil
  then show ?case by simp
next
  case (Cons q qs)
  obtain p t where q: "q = (p, t)" by (cases q)
  note inv = Cons.prems(1,2)
  have p: "asm_key peer p = key" "Total p = n" "Exp p = e" "Chunk p = c (Seq p)"
      "int (length (Chunk p)) < 2 ^ 62" "\<not> (e > 0 \<and> unix t > e)" "time_sub t t0 \<le> Timeout (as_cfg a)"
    using Cons.prems(4) [of q] by (auto simp: q)
  have mem: "Seq p \<in> {1..n} - got" using Cons.prems(8) by (auto simp: q)
  have fits: "part_fits p" using p(2,5) mem by (simp add: part_fits_def)
  have tail: "0 \<le> (\<Sum>q \<leftarrow> qs. int (length (Chunk (fst q))))" by (rule sum_list_nonneg) auto
  have rest: "(\<lambda>q. Seq (fst q)) ` set qs = {1..n} - insert (Seq p) got"
    using Cons.prems(6,8) by (intro image_diff_insert) (simp_all add: q)
  have first: "got = {} \<Longrightarrow> t = t0" using Cons.prems(9) by (simp add: q)
  have total: "as_bytes a + int (length (Chunk p)) \<le> MaxTotalBytes (as_cfg a)"
    using Cons.prems(12) tail by (simp add: q)
  have step: "if insert (Seq p) got = {1..n} then snd (asm_add a peer p t) = Inr (Some (concat (map c [1..n])))
    else snd (asm_add a peer p t) = Inr None \<and>
      holds_chunks (fst (asm_add a peer p t)) (asm_key peer p) peer n e t0 c (insert (Seq p) got) \<and>
      as_bytes (fst (asm_add a peer p t)) \<le> as_bytes a + int (length (Chunk p))"
    by (rule asm_add_chunk [OF inv])
      (use Cons.prems(3,7,10,11) p mem fits first total in \<open>simp_all\<close>)
  obtain a' r where a': "asm_add a peer p t = (a', r)" by (cases "asm_add a peer p t")
  show ?case
  proof (cases "qs = []")
    case True
    then have "insert (Seq p) got = {1..n}" using rest mem Cons.prems(7) by auto
    then show ?thesis using step a' True by (simp add: q)
  next
    case False
    then have ne: "insert (Seq p) got \<noteq> {1..n}" using rest by (cases qs) auto
    have a'_inv: "asm_inv a'" "as_cfg a' = as_cfg a"
      using asm_add_inv [OF inv fits, of peer t] a' by simp_all
    have a'_holds: "holds_chunks a' key peer n e t0 c (insert (Seq p) got)"
      and a'_bytes: "as_bytes a' \<le> as_bytes a + int (length (Chunk p))" and r: "r = Inr None"
      using step ne a' p(1) by simp_all
    have "snd (asm_adds a' (map (\<lambda>q. (peer, fst q, snd q)) qs)) =
        replicate (length qs - 1) (Inr None) @ [Inr (Some (concat (map c [1..n])))]"
    proof (rule Cons.IH [OF a'_inv(1) _ a'_holds])
      show "cfg_ok (as_cfg a')" using inv a'_inv by simp
      show "asm_key peer (fst q) = key \<and> Total (fst q) = n \<and> Exp (fst q) = e \<and>
        Chunk (fst q) = c (Seq (fst q)) \<and> int (length (Chunk (fst q))) < 2 ^ 62 \<and>
        \<not> (e > 0 \<and> unix (snd q) > e) \<and> time_sub (snd q) t0 \<le> Timeout (as_cfg a')" if "q \<in> set qs" for q
        using Cons.prems(4) [of q] that a'_inv(2) by auto
      show "as_bytes a' + (\<Sum>q \<leftarrow> qs. int (length (Chunk (fst q)))) \<le> MaxTotalBytes (as_cfg a')"
        using Cons.prems(12) a'_bytes a'_inv(2) by (simp add: q)
    qed (use Cons.prems(6,7,10,11) False rest mem a'_inv(2) in simp_all)
    moreover have "length qs = Suc (length qs - 1)" using False by (cases qs) simp_all
    ultimately show ?thesis using a' r by (simp add: q split_beta) (metis append_Cons replicate_Suc)
  qed
qed

lemma peer_count_filter:
  "peer_count pend q = int (length (filter (\<lambda>km. pm_peer (snd km) = q) pend))"
  unfolding peer_count_def by (induction pend) (simp_all add: gsum_def split_beta)

lemma message_any_order:
  assumes "asm_inv a" "cfg_ok (as_cfg a)" "2 \<le> n"
    and "map_of (as_pending a) (peer @ ''/'' @ sid @ ''/'' @ mid) = None"
    and "gint (as_perPeer a) peer < MaxPendingPerPeer (as_cfg a)"
    and "\<forall>p \<in> fst ` set qs. SID p = sid \<and> MID p = mid \<and> Total p = n \<and> Exp p = e \<and> Chunk p = c (Seq p)"
    and "distinct (map (\<lambda>q. Seq (fst q)) qs)" and "(\<lambda>q. Seq (fst q)) ` set qs = {1..n}"
    and "\<forall>q \<in> set qs. \<not> (e > 0 \<and> unix (snd q) > e) \<and> time_sub (snd q) (snd (hd qs)) \<le> Timeout (as_cfg a)"
    and "(\<Sum>i \<in> {1..n}. int (length (c i))) \<le> MaxMessageBytes (as_cfg a)"
    and "as_bytes a + (\<Sum>i \<in> {1..n}. int (length (c i))) \<le> MaxTotalBytes (as_cfg a)"
  shows "snd (asm_adds a (map (\<lambda>q. (peer, fst q, snd q)) qs)) =
    replicate (length qs - 1) (Inr None) @ [Inr (Some (concat (map c [1..n])))]"
proof -
  have "{1..n} \<noteq> {}" using assms(3) by simp
  then have qs: "qs \<noteq> []" using assms(8) by (cases qs) auto
  define p0 where "p0 = fst (hd qs)"
  have p0: "SID p0 = sid" "MID p0 = mid" using assms(6) qs by (auto simp: p0_def)
  have holds: "holds_chunks a (asm_key peer p0) peer n e (snd (hd qs)) c {}"
    using assms(4,5) by (simp add: holds_chunks_def asm_key_def p0)
  have single: "int (length (c i)) \<le> (\<Sum>i \<in> {1..n}. int (length (c i)))" if "i \<in> {1..n}" for i
    using that by (intro member_le_sum) auto
  have small: "int (length (c i)) < 2 ^ 62" if "i \<in> {1..n}" for i
    using single [OF that] assms(2,10) by (simp add: cfg_ok_def)
  have sum: "(\<Sum>q \<leftarrow> qs. int (length (Chunk (fst q)))) = (\<Sum>i \<in> {1..n}. int (length (c i)))"
  proof -
    have "(\<Sum>q \<leftarrow> qs. int (length (Chunk (fst q)))) = (\<Sum>i \<leftarrow> map (\<lambda>q. Seq (fst q)) qs. int (length (c i)))"
      unfolding map_map by (intro arg_cong [where f = sum_list] map_cong) (use assms(6) in auto)
    also have "\<dots> = (\<Sum>i \<in> set (map (\<lambda>q. Seq (fst q)) qs). int (length (c i)))"
      using assms(7) by (rule sum_list_distinct_conv_sum_set)
    finally show ?thesis using assms(8) by simp
  qed
  show ?thesis
  proof (rule asm_adds_message [OF assms(1,2) holds _ qs])
    fix q assume q: "q \<in> set qs"
    then have "Seq (fst q) \<in> {1..n}" using assms(8) by auto
    then show "asm_key peer (fst q) = asm_key peer p0 \<and> Total (fst q) = n \<and> Exp (fst q) = e \<and>
      Chunk (fst q) = c (Seq (fst q)) \<and> int (length (Chunk (fst q))) < 2 ^ 62 \<and>
      \<not> (e > 0 \<and> unix (snd q) > e) \<and> time_sub (snd q) (snd (hd qs)) \<le> Timeout (as_cfg a)"
      using assms(6,9) q small p0 by (auto simp: asm_key_def)
  qed (use assms(3,7,8,10,11) sum in simp_all)
qed

section \<open>Properties\<close>

text \<open>
  C3: The reassembly buffer stays bounded whatever parts arrive, from whomever and whenever:
  after any sequence of \<^verbatim>\<open>Add\<close> calls the byte counter is exactly the number of buffered bytes
  and within the global limit, every pending message is within the message limit and still
  lacks a chunk, and no peer has more pending messages than its limit.
\<close>

theorem assembler_bounded:
  assumes "cfg_ok (asm_withDefaults cfg)" and "\<forall>e \<in> set es. part_fits (fst (snd e))"
  shows "let a = fst (asm_adds (NewAssembler cfg) es); lim = asm_withDefaults cfg in
    as_bytes a = gsum (\<lambda>m. gsum (\<lambda>b. int (length b)) (pm_parts m)) (as_pending a) \<and>
    as_bytes a \<le> MaxTotalBytes lim \<and>
    (\<forall>m \<in> snd ` set (as_pending a). pm_bytes m \<le> MaxMessageBytes lim \<and> int (length (pm_parts m)) < pm_total m) \<and>
    (\<forall>q. int (length (filter (\<lambda>km. pm_peer (snd km) = q) (as_pending a))) \<le> MaxPendingPerPeer lim)"
proof -
  let ?a = "fst (asm_adds (NewAssembler cfg) es)"
  have cfg: "as_cfg (NewAssembler cfg) = asm_withDefaults cfg" by (simp add: NewAssembler_def)
  have inv: "asm_inv ?a" "as_cfg ?a = asm_withDefaults cfg"
    using asm_adds_inv [OF asm_inv_new [OF assms(1)] _ assms(2)] assms(1) cfg by simp_all
  have "gsum pm_bytes (as_pending ?a) = gsum (\<lambda>m. gsum (\<lambda>b. int (length b)) (pm_parts m)) (as_pending ?a)"
    unfolding gsum_def [of _ "as_pending ?a"] using inv(1)
    by (intro arg_cong [where f = sum_list] map_cong) (auto simp: asm_inv_def msg_ok_def)
  then show ?thesis
    using inv by (auto simp: Let_def asm_inv_def msg_ok_def peer_count_filter)
qed

definition demo_part :: "int \<Rightarrow> byte \<Rightarrow> part" where
  "demo_part i b = \<lparr>SID = ''a1'', MID = ''b2'', Seq = i, Total = 3, Exp = 0, Chunk = [b, b]\<rparr>"

definition demo_cfg :: asm_config where
  "demo_cfg = \<lparr>MaxPendingPerPeer = 0, MaxMessageBytes = 0, MaxTotalBytes = 0, Timeout = 0\<rparr>"

lemma demo_cfg_ok: "cfg_ok (asm_withDefaults demo_cfg)"
  by (simp add: cfg_ok_def asm_withDefaults_def demo_cfg_def durations)

theorem assembler_bounded_witness:
  "let a = fst (asm_adds (NewAssembler demo_cfg) [(''peer'', demo_part 2 7, 5)]); lim = asm_withDefaults demo_cfg in
    as_bytes a = gsum (\<lambda>m. gsum (\<lambda>b. int (length b)) (pm_parts m)) (as_pending a) \<and>
    as_bytes a \<le> MaxTotalBytes lim \<and>
    (\<forall>m \<in> snd ` set (as_pending a). pm_bytes m \<le> MaxMessageBytes lim \<and> int (length (pm_parts m)) < pm_total m) \<and>
    (\<forall>q. int (length (filter (\<lambda>km. pm_peer (snd km) = q) (as_pending a))) \<le> MaxPendingPerPeer lim)"
  by (rule assembler_bounded [OF demo_cfg_ok]) (simp add: part_fits_def demo_part_def)

text \<open>
  C4: A message of two or more parts is delivered exactly, in whatever order its parts arrive:
  every part but the last is stored silently, and the last one returns the concatenation of the
  chunks in sequence order. The buffer may hold anything else within its bounds, as long as the
  message is new to it, fits the limits, and its parts arrive before the deadline and the timeout.
\<close>

theorem reassembly_any_order:
  assumes "asm_inv a" "cfg_ok (as_cfg a)" "2 \<le> n"
    and "map_of (as_pending a) (peer @ ''/'' @ sid @ ''/'' @ mid) = None"
    and "gint (as_perPeer a) peer < MaxPendingPerPeer (as_cfg a)"
    and "\<forall>p \<in> fst ` set qs. SID p = sid \<and> MID p = mid \<and> Total p = n \<and> Exp p = e \<and> Chunk p = c (Seq p)"
    and "distinct (map (\<lambda>q. Seq (fst q)) qs)" and "(\<lambda>q. Seq (fst q)) ` set qs = {1..n}"
    and "\<forall>q \<in> set qs. \<not> (e > 0 \<and> unix (snd q) > e) \<and> time_sub (snd q) (snd (hd qs)) \<le> Timeout (as_cfg a)"
    and "(\<Sum>i \<in> {1..n}. int (length (c i))) \<le> MaxMessageBytes (as_cfg a)"
    and "as_bytes a + (\<Sum>i \<in> {1..n}. int (length (c i))) \<le> MaxTotalBytes (as_cfg a)"
  shows "snd (asm_adds a (map (\<lambda>q. (peer, fst q, snd q)) qs)) =
    replicate (length qs - 1) (Inr None) @ [Inr (Some (concat (map c [1..n])))]"
  using assms by (rule message_any_order)

definition demo_arrival :: "(part \<times> instant) list" where
  "demo_arrival = [(demo_part 2 7, 5), (demo_part 3 8, 6), (demo_part 1 9, 9)]"

lemma demo_cfg_defaults: "asm_withDefaults demo_cfg =
    \<lparr>MaxPendingPerPeer = 8, MaxMessageBytes = 16777216, MaxTotalBytes = 67108864, Timeout = 600000000000\<rparr>"
  by (simp add: asm_withDefaults_def demo_cfg_def durations)

lemma upto_1_3: "{1..3} = {1, 2, 3 :: int}"
  by auto

theorem reassembly_any_order_witness:
  "snd (asm_adds (NewAssembler demo_cfg) (map (\<lambda>q. (''peer'', fst q, snd q)) demo_arrival)) =
    replicate (length demo_arrival - 1) (Inr None) @
    [Inr (Some (concat (map (\<lambda>i. if i = 1 then [9, 9] else if i = 2 then [7, 7] else [8, 8]) [1..3])))]"
  by (rule reassembly_any_order [OF asm_inv_new [OF demo_cfg_ok], where sid = "''a1''" and mid = "''b2''" and e = 0])
    (use demo_cfg_ok in \<open>auto simp: NewAssembler_def demo_arrival_def demo_part_def demo_cfg_defaults
      time_sub_def min64_def max64_def upto_1_3\<close>)

end
