(* ===== verification/Router.thy ===== *)
theory Router
  imports Assembler "HOL-Library.Multiset"
begin

text \<open>
  The transport of \<^verbatim>\<open>transport.go\<close>: the router that turns the host's stream of private messages into
  MCP connections, and the connections. A connection is a heap object (\<open>r_conns\<close>, an address is an
  index) that the session map, the goroutines delivering to it and its owner share; closing it has two
  steps, as in the code: the done channel closes, then the callback removes it from the router.

  The JSON-RPC codec of the SDK is a parameter, and so is the sender of private messages.
  What Go leaves to chance (a select with several ready cases) is an argument of the operation.
\<close>

section \<open>State\<close>

record router_config =
  rc_accept :: bool
  rc_allow :: "(string \<Rightarrow> bool) option"
  rc_ttl :: duration
  rc_chunkSize :: int
  rc_assembler :: asm_config
  rc_inboxSize :: int
  rc_idleTimeout :: duration
  rc_maxSessions :: int

text \<open>\<open>Closing\<close>: done is closed and the callback has not run yet. \<open>cn_dialed\<close> is a ghost: how the
  connection came to be.\<close>

datatype conn_state = Open | Closing | Closed

record 'm conn =
  cn_peer :: string
  cn_sid :: string
  cn_ttl :: duration
  cn_chunkSize :: int
  cn_inbox :: "'m list"
  cn_state :: conn_state
  cn_active :: instant
  cn_dialed :: bool

record 'm router =
  r_cfg :: router_config
  r_asm :: assembler
  r_sessions :: "(string, nat) gomap"
  r_peers :: "(string, int) gomap"
  r_closed :: bool
  r_conns :: "'m conn list"
  r_accepted :: "nat list"

definition router_defaults :: "router_config \<Rightarrow> router_config" where
  "router_defaults cfg = cfg\<lparr>
     rc_ttl := (if rc_ttl cfg \<le> 0 then 10 * minute else rc_ttl cfg),
     rc_inboxSize := (if rc_inboxSize cfg \<le> 0 then 128 else rc_inboxSize cfg),
     rc_idleTimeout := (if rc_idleTimeout cfg = 0 \<and> rc_accept cfg then 10 * minute else rc_idleTimeout cfg),
     rc_maxSessions := (if rc_maxSessions cfg = 0 then 8 else rc_maxSessions cfg)\<rparr>"

definition NewRouter :: "router_config \<Rightarrow> 'm router" where
  "NewRouter cfg = \<lparr>r_cfg = router_defaults cfg, r_asm = NewAssembler (rc_assembler cfg), r_sessions = [],
     r_peers = [], r_closed = False, r_conns = [], r_accepted = []\<rparr>"

definition session_key :: "'m conn \<Rightarrow> string" where
  "session_key c = cn_peer c @ ''/'' @ cn_sid c"

section \<open>Connections\<close>

definition set_conn :: "nat \<Rightarrow> 'm conn \<Rightarrow> 'm router \<Rightarrow> 'm router" where
  "set_conn i c r = r\<lparr>r_conns := (r_conns r)[i := c]\<rparr>"

definition newConnLocked :: "'m router \<Rightarrow> instant \<Rightarrow> string \<Rightarrow> string \<Rightarrow> bool \<Rightarrow> 'm router \<times> nat" where
  "newConnLocked r now peer sid dialed =
     (let key = peer @ ''/'' @ sid; i = length (r_conns r);
          c = \<lparr>cn_peer = peer, cn_sid = sid, cn_ttl = rc_ttl (r_cfg r), cn_chunkSize = rc_chunkSize (r_cfg r),
               cn_inbox = [], cn_state = Open, cn_active = now, cn_dialed = dialed\<rparr>
      in (r\<lparr>r_conns := r_conns r @ [c], r_sessions := gput key i (r_sessions r),
            r_peers := gput peer (gint (r_peers r) peer + 1) (r_peers r)\<rparr>, i))"

definition touch :: "nat \<Rightarrow> instant \<Rightarrow> 'm router \<Rightarrow> 'm router" where
  "touch i now r = set_conn i ((r_conns r ! i)\<lparr>cn_active := now\<rparr>) r"

text \<open>\<^verbatim>\<open>Close\<close>: only the first one does anything, and it does it in two steps.\<close>

definition close_done :: "nat \<Rightarrow> 'm router \<Rightarrow> 'm router" where
  "close_done i r = (if cn_state (r_conns r ! i) = Open then set_conn i ((r_conns r ! i)\<lparr>cn_state := Closing\<rparr>) r else r)"

definition onClose :: "nat \<Rightarrow> 'm router \<Rightarrow> 'm router" where
  "onClose i r = (if cn_state (r_conns r ! i) \<noteq> Closing then r
     else let c = r_conns r ! i; key = session_key c; peer = cn_peer c; r = set_conn i (c\<lparr>cn_state := Closed\<rparr>) r in
       if map_of (r_sessions r) key = None then r
       else let n = gint (r_peers r) peer in
         r\<lparr>r_sessions := gdel key (r_sessions r),
           r_peers := (if n \<le> 1 then gdel peer (r_peers r) else gput peer (n - 1) (r_peers r))\<rparr>)"

definition conn_close :: "nat \<Rightarrow> 'm router \<Rightarrow> 'm router" where
  "conn_close i r = onClose i (close_done i r)"

datatype 'm read_result = Got 'm | EOF | CtxDone | Blocks

text \<open>\<^verbatim>\<open>Read\<close>: \<open>pick\<close> chooses among the cases that are ready.\<close>

definition conn_read :: "nat \<Rightarrow> bool \<Rightarrow> nat \<Rightarrow> 'm router \<Rightarrow> 'm router \<times> 'm read_result" where
  "conn_read i cancelled pick r =
     (let c = r_conns r ! i;
          ready = (case cn_inbox c of [] \<Rightarrow> [] | m # ms \<Rightarrow> [(set_conn i (c\<lparr>cn_inbox := ms\<rparr>) r, Got m)]) @
            (if cn_state c \<noteq> Open then [(r, EOF)] else []) @ (if cancelled then [(r, CtxDone)] else [])
      in if ready = [] then (r, Blocks) else ready ! (pick mod length ready))"

datatype write_error = WriteEOF | EncodeFailed | WriteWire wire_error | SendFailed

text \<open>Sending the parts in order; \<open>answers\<close> says which sends the backend accepts.\<close>

fun send_all :: "string list \<Rightarrow> bool list \<Rightarrow> string list \<times> bool" where
  "send_all [] answers = ([], True)"
| "send_all (pm # pms) [] = (let (sent, ok) = send_all pms [] in (pm # sent, ok))"
| "send_all (pm # pms) (False # answers) = ([], False)"
| "send_all (pm # pms) (True # answers) = (let (sent, ok) = send_all pms answers in (pm # sent, ok))"

text \<open>\<^verbatim>\<open>Write\<close>: the router with the connection touched, the private messages sent, the error.\<close>

definition conn_write :: "('m \<Rightarrow> byte list option) \<Rightarrow> nat \<Rightarrow> 'm \<Rightarrow> instant \<Rightarrow> byte list \<Rightarrow> bool list \<Rightarrow> 'm router \<Rightarrow>
    'm router \<times> string list \<times> write_error option" where
  "conn_write enc i m now rnd answers r =
     (let c = r_conns r ! i in
      if cn_state c \<noteq> Open then (r, [], Some WriteEOF)
      else let r = touch i now r in
        case enc m of
          None \<Rightarrow> (r, [], Some EncodeFailed)
        | Some data \<Rightarrow>
            (case encode (cn_sid c) data (Some (now + cn_ttl c)) (cn_chunkSize c) rnd of
               Inl e \<Rightarrow> (r, [], Some (WriteWire e))
             | Inr pms \<Rightarrow> (let (sent, ok) = send_all pms answers in (r, sent, if ok then None else Some SendFailed))))"

section \<open>Inbound messages\<close>

text \<open>Up to the decoded message: parse, allowlist, reassembly, JSON-RPC.\<close>

definition receive :: "(byte list \<Rightarrow> 'm option) \<Rightarrow> 'm router \<Rightarrow> string \<Rightarrow> string \<Rightarrow> instant \<Rightarrow> 'm router \<times> (string \<times> 'm) option" where
  "receive dec r peer body now = (case parse body of
     None \<Rightarrow> (r, None)
   | Some p \<Rightarrow>
       if (case rc_allow (r_cfg r) of None \<Rightarrow> False | Some allow \<Rightarrow> \<not> allow peer) then (r, None)
       else (let (asm, res) = asm_add (r_asm r) peer p now; r = r\<lparr>r_asm := asm\<rparr> in
         case res of
           Inl e \<Rightarrow> (r, None)
         | Inr None \<Rightarrow> (r, None)
         | Inr (Some payload) \<Rightarrow> (r, map_option (\<lambda>m. (SID p, m)) (dec payload))))"

text \<open>The section under the lock: the session's connection, and whether it is new.\<close>

definition route :: "'m router \<Rightarrow> string \<Rightarrow> string \<Rightarrow> instant \<Rightarrow> 'm router \<times> (nat \<times> bool) option" where
  "route r peer sid now =
     (if r_closed r then (r, None)
      else case map_of (r_sessions r) (peer @ ''/'' @ sid) of
        Some i \<Rightarrow> (r, Some (i, False))
      | None \<Rightarrow>
          if \<not> rc_accept (r_cfg r) then (r, None)
          else if rc_maxSessions (r_cfg r) > 0 \<and> gint (r_peers r) peer \<ge> rc_maxSessions (r_cfg r) then (r, None)
          else (let (r, i) = newConnLocked r now peer sid False in (r, Some (i, True))))"

text \<open>After the lock: touch, Accept, and the select on the inbox. With room in the inbox of a closed
  connection both cases are ready, and \<open>lucky\<close> says which one Go takes.\<close>

definition deliver :: "nat \<Rightarrow> bool \<Rightarrow> 'm \<Rightarrow> instant \<Rightarrow> bool \<Rightarrow> 'm router \<Rightarrow> 'm router" where
  "deliver i isNew m now lucky r =
     (let r = touch i now r;
          r = (if isNew then r\<lparr>r_accepted := r_accepted r @ [i]\<rparr> else r);
          c = r_conns r ! i; room = int (length (cn_inbox c)) < rc_inboxSize (r_cfg r); closed = (cn_state c \<noteq> Open)
      in if room \<and> (\<not> closed \<or> lucky) then set_conn i (c\<lparr>cn_inbox := cn_inbox c @ [m]\<rparr>) r
         else if closed then r
         else conn_close i r)"

definition HandlePM :: "(byte list \<Rightarrow> 'm option) \<Rightarrow> bool \<Rightarrow> 'm router \<Rightarrow> string \<times> string \<times> instant \<Rightarrow> 'm router" where
  "HandlePM dec lucky r pm = (let (peer, body, now) = pm; (r, res) = receive dec r peer body now in
     case res of
       None \<Rightarrow> r
     | Some (sid, m) \<Rightarrow> (let (r, target) = route r peer sid now in
         case target of None \<Rightarrow> r | Some (i, isNew) \<Rightarrow> deliver i isNew m now lucky r))"

definition Dial :: "'m router \<Rightarrow> instant \<Rightarrow> string \<Rightarrow> byte list \<Rightarrow> 'm router \<times> nat option" where
  "Dial r now peer rnd =
     (if r_closed r then (r, None)
      else let (r, i) = newConnLocked r now peer (NewID rnd) True in (r, Some i))"

section \<open>Idle sessions and shutdown\<close>

definition sweep_interval :: "router_config \<Rightarrow> duration" where
  "sweep_interval cfg =
     (let interval = quot64 (rc_idleTimeout cfg) 4; interval = (if interval < 100000000 then 100000000 else interval)
      in if interval > minute then minute else interval)"

definition idle_conns :: "instant \<Rightarrow> 'm router \<Rightarrow> nat list" where
  "idle_conns now r = filter (\<lambda>i. time_sub now (cn_active (r_conns r ! i)) > rc_idleTimeout (r_cfg r)) (map snd (r_sessions r))"

definition sweep :: "instant \<Rightarrow> 'm router \<Rightarrow> 'm router" where
  "sweep now r = fold conn_close (idle_conns now r) r"

definition router_Close :: "'m router \<Rightarrow> 'm router" where
  "router_Close r = fold conn_close (map snd (r_sessions r)) (r\<lparr>r_closed := True\<rparr>)"

section \<open>Interleavings\<close>

text \<open>A router and the goroutines between the lock and the select of \<^verbatim>\<open>HandlePM\<close>.\<close>

record 'm net =
  n_router :: "'m router"
  n_flight :: "(nat \<times> bool \<times> 'm) list"

datatype net_label = Inbound string string instant | Deliver nat instant bool | Dialing string instant "byte list"
  | CloseDone nat | OnClose nat | Reading nat bool nat | Shutdown

inductive net_step :: "(byte list \<Rightarrow> 'm option) \<Rightarrow> 'm net \<Rightarrow> net_label \<Rightarrow> 'm net \<Rightarrow> bool"
  for dec where
  ignored: "receive dec (n_router s) peer body now = (r, None) \<Longrightarrow>
    net_step dec s (Inbound peer body now) (s\<lparr>n_router := r\<rparr>)"
| dropped: "receive dec (n_router s) peer body now = (r, Some (sid, m)) \<Longrightarrow> route r peer sid now = (r', None) \<Longrightarrow>
    net_step dec s (Inbound peer body now) (s\<lparr>n_router := r'\<rparr>)"
| routed: "receive dec (n_router s) peer body now = (r, Some (sid, m)) \<Longrightarrow> route r peer sid now = (r', Some (i, isNew)) \<Longrightarrow>
    net_step dec s (Inbound peer body now) (s\<lparr>n_router := r', n_flight := n_flight s @ [(i, isNew, m)]\<rparr>)"
| delivered: "k < length (n_flight s) \<Longrightarrow> n_flight s ! k = (i, isNew, m) \<Longrightarrow>
    net_step dec s (Deliver k now lucky)
      (s\<lparr>n_router := deliver i isNew m now lucky (n_router s), n_flight := take k (n_flight s) @ drop (Suc k) (n_flight s)\<rparr>)"
| dialed: "map_of (r_sessions (n_router s)) (peer @ ''/'' @ NewID rnd) = None \<Longrightarrow>
    net_step dec s (Dialing peer now rnd) (s\<lparr>n_router := fst (Dial (n_router s) now peer rnd)\<rparr>)"
| close: "i < length (r_conns (n_router s)) \<Longrightarrow> net_step dec s (CloseDone i) (s\<lparr>n_router := close_done i (n_router s)\<rparr>)"
| on_close: "i < length (r_conns (n_router s)) \<Longrightarrow> net_step dec s (OnClose i) (s\<lparr>n_router := onClose i (n_router s)\<rparr>)"
| reading: "i < length (r_conns (n_router s)) \<Longrightarrow>
    net_step dec s (Reading i cancelled pick) (s\<lparr>n_router := fst (conn_read i cancelled pick (n_router s))\<rparr>)"
| shutdown: "net_step dec s Shutdown (s\<lparr>n_router := (n_router s)\<lparr>r_closed := True\<rparr>\<rparr>)"

inductive net_reachable :: "(byte list \<Rightarrow> 'm option) \<Rightarrow> router_config \<Rightarrow> 'm net \<Rightarrow> bool"
  for dec cfg where
  start: "net_reachable dec cfg \<lparr>n_router = NewRouter cfg, n_flight = []\<rparr>"
| step: "net_reachable dec cfg s \<Longrightarrow> net_step dec s l s' \<Longrightarrow> net_reachable dec cfg s'"

section \<open>Invariant\<close>

definition open_of :: "'m conn list \<Rightarrow> string \<Rightarrow> int" where
  "open_of cs p = int (length (filter (\<lambda>c. cn_peer c = p \<and> cn_state c \<noteq> Closed) cs))"

definition inbound_of :: "'m conn list \<Rightarrow> string \<Rightarrow> int" where
  "inbound_of cs p = int (length (filter (\<lambda>c. cn_peer c = p \<and> cn_state c \<noteq> Closed \<and> \<not> cn_dialed c) cs))"

text \<open>The session map holds exactly the connections whose callback has not run, the peer counts are
  exact, accepted sessions and inboxes are within their limits.\<close>

definition router_ok :: "'m router \<Rightarrow> bool" where
  "router_ok r \<longleftrightarrow> gmap_ok (r_sessions r) \<and>
     (\<forall>k i. map_of (r_sessions r) k = Some i \<longrightarrow>
        i < length (r_conns r) \<and> session_key (r_conns r ! i) = k \<and> cn_state (r_conns r ! i) \<noteq> Closed) \<and>
     (\<forall>i < length (r_conns r). cn_state (r_conns r ! i) \<noteq> Closed \<longrightarrow>
        map_of (r_sessions r) (session_key (r_conns r ! i)) = Some i) \<and>
     (\<forall>p. gint (r_peers r) p = open_of (r_conns r) p) \<and>
     (rc_maxSessions (r_cfg r) > 0 \<longrightarrow> (\<forall>p. inbound_of (r_conns r) p \<le> rc_maxSessions (r_cfg r))) \<and>
     (\<forall>i < length (r_conns r). int (length (cn_inbox (r_conns r ! i))) \<le> rc_inboxSize (r_cfg r)) \<and>
     0 \<le> rc_inboxSize (r_cfg r)"

lemma length_filter_update: "i < length xs \<Longrightarrow> int (length (filter P (xs[i := y]))) =
    int (length (filter P xs)) - (if P (xs ! i) then 1 else 0) + (if P y then 1 else 0)"
proof (induction xs arbitrary: i)
  case Nil
  then show ?case by simp
next
  case (Cons a xs)
  show ?case
  proof (cases i)
    case (Suc j)
    then show ?thesis using Cons.IH [of j] Cons.prems by (cases "P (xs ! j)"; cases "P y"; simp)
  qed simp
qed

lemma length_filter_mono: "(\<And>x. P x \<Longrightarrow> Q x) \<Longrightarrow> length (filter P xs) \<le> length (filter Q xs)"
  by (induction xs) auto

lemma set_conn_simps [simp]:
  "r_cfg (set_conn i c r) = r_cfg r" "r_asm (set_conn i c r) = r_asm r" "r_sessions (set_conn i c r) = r_sessions r"
  "r_peers (set_conn i c r) = r_peers r" "r_closed (set_conn i c r) = r_closed r"
  "r_conns (set_conn i c r) = (r_conns r)[i := c]" "r_accepted (set_conn i c r) = r_accepted r"
  by (simp_all add: set_conn_def)

lemma set_conn_ok:
  assumes "router_ok r" "i < length (r_conns r)"
    and "cn_peer c = cn_peer (r_conns r ! i)" "cn_sid c = cn_sid (r_conns r ! i)" "cn_dialed c = cn_dialed (r_conns r ! i)"
    and "cn_state c = Closed \<longleftrightarrow> cn_state (r_conns r ! i) = Closed" "int (length (cn_inbox c)) \<le> rc_inboxSize (r_cfg r)"
  shows "router_ok (set_conn i c r)"
proof -
  have key: "session_key c = session_key (r_conns r ! i)" using assms(3,4) by (simp add: session_key_def)
  have "open_of ((r_conns r)[i := c]) p = open_of (r_conns r) p" for p
    using assms(2,3,6) by (simp add: open_of_def length_filter_update)
  moreover have "inbound_of ((r_conns r)[i := c]) p = inbound_of (r_conns r) p" for p
    using assms(2,3,5,6) by (simp add: inbound_of_def length_filter_update)
  ultimately show ?thesis
    using assms(1,2,6,7) key by (auto simp: router_ok_def nth_list_update)
qed

lemma router_ok_inbox: "router_ok r \<Longrightarrow> i < length (r_conns r) \<Longrightarrow> int (length (cn_inbox (r_conns r ! i))) \<le> rc_inboxSize (r_cfg r)"
  by (simp add: router_ok_def)

lemma router_okD: "router_ok r \<Longrightarrow> j < length (r_conns r) \<Longrightarrow> cn_state (r_conns r ! j) \<noteq> Closed \<Longrightarrow>
    map_of (r_sessions r) (session_key (r_conns r ! j)) = Some j"
  by (simp add: router_ok_def)

lemma touch_ok [inv_intros]: "router_ok r \<Longrightarrow> i < length (r_conns r) \<Longrightarrow> router_ok (touch i now r)"
  unfolding touch_def by (rule set_conn_ok) (auto simp: router_ok_def)

lemma close_done_ok [inv_intros]: "router_ok r \<Longrightarrow> i < length (r_conns r) \<Longrightarrow> router_ok (close_done i r)"
  by (simp add: close_done_def set_conn_ok router_ok_inbox)

lemma conn_read_ok [inv_intros]:
  assumes "router_ok r" "i < length (r_conns r)"
  shows "router_ok (fst (conn_read i cancelled pick r))"
proof -
  let ?c = "r_conns r ! i"
  have size: "int (length (cn_inbox ?c)) \<le> rc_inboxSize (r_cfg r)" using assms by (simp add: router_ok_def)
  define ready where "ready = (case cn_inbox ?c of [] \<Rightarrow> [] | m # ms \<Rightarrow> [(set_conn i (?c\<lparr>cn_inbox := ms\<rparr>) r, Got m)]) @
      (if cn_state ?c \<noteq> Open then [(r, EOF)] else []) @ (if cancelled then [(r, CtxDone)] else [])"
  have "router_ok (fst x)" if "x \<in> set ready" for x
    using that assms size
    by (cases "cn_inbox ?c") (auto simp: ready_def split: if_splits intro!: set_conn_ok)
  then have "ready \<noteq> [] \<Longrightarrow> router_ok (fst (ready ! (pick mod length ready)))" by simp
  moreover have "conn_read i cancelled pick r = (if ready = [] then (r, Blocks) else ready ! (pick mod length ready))"
    by (simp only: conn_read_def Let_def ready_def)
  ultimately show ?thesis using assms(1) by simp
qed

lemma onClose_ok [inv_intros]:
  assumes "router_ok r" "i < length (r_conns r)"
  shows "router_ok (onClose i r)"
proof (cases "cn_state (r_conns r ! i) = Closing")
  case False
  then show ?thesis using assms(1) by (simp add: onClose_def)
next
  case True
  let ?c = "r_conns r ! i" and ?r = "set_conn i ((r_conns r ! i)\<lparr>cn_state := Closed\<rparr>) r"
  have mapped: "map_of (r_sessions r) (session_key ?c) = Some i" using assms True by (simp add: router_ok_def)
  have n: "gint (r_peers r) (cn_peer ?c) = open_of (r_conns r) (cn_peer ?c)" using assms(1) by (simp add: router_ok_def)
  have opens: "open_of ((r_conns r)[i := ?c\<lparr>cn_state := Closed\<rparr>]) p =
      open_of (r_conns r) p - (if p = cn_peer ?c then 1 else 0)" for p
    using assms(2) True by (auto simp: open_of_def length_filter_update)
  have inbounds: "inbound_of ((r_conns r)[i := ?c\<lparr>cn_state := Closed\<rparr>]) p \<le> inbound_of (r_conns r) p" for p
    using assms(2) by (simp add: inbound_of_def length_filter_update)
  have nonneg: "0 \<le> open_of ((r_conns r)[i := ?c\<lparr>cn_state := Closed\<rparr>]) (cn_peer ?c)" by (simp add: open_of_def)
  have eq: "onClose i r = ?r\<lparr>r_sessions := gdel (session_key ?c) (r_sessions r),
      r_peers := (if gint (r_peers r) (cn_peer ?c) \<le> 1 then gdel (cn_peer ?c) (r_peers r)
        else gput (cn_peer ?c) (gint (r_peers r) (cn_peer ?c) - 1) (r_peers r))\<rparr>"
    using True mapped by (simp add: onClose_def Let_def)
  have peers: "gint (if gint (r_peers r) (cn_peer ?c) \<le> 1 then gdel (cn_peer ?c) (r_peers r)
      else gput (cn_peer ?c) (gint (r_peers r) (cn_peer ?c) - 1) (r_peers r)) p =
      open_of ((r_conns r)[i := ?c\<lparr>cn_state := Closed\<rparr>]) p" for p
    using assms(1) n opens nonneg by (auto simp: router_ok_def)
  have others: "session_key (r_conns r ! j) \<noteq> session_key ?c" if "j < length (r_conns r)" "j \<noteq> i" "cn_state (r_conns r ! j) \<noteq> Closed" for j
  proof -
    have "map_of (r_sessions r) (session_key (r_conns r ! j)) = Some j" using assms(1) that by (simp add: router_ok_def)
    then show ?thesis using mapped that(2) by auto
  qed
  have "j < length (r_conns (onClose i r)) \<and>
      session_key (r_conns (onClose i r) ! j) = k \<and> cn_state (r_conns (onClose i r) ! j) \<noteq> Closed"
    if "map_of (r_sessions (onClose i r)) k = Some j" for k j
  proof -
    have k: "k \<noteq> session_key ?c" "map_of (r_sessions r) k = Some j" using that by (auto simp: eq split: if_splits)
    then have j: "j < length (r_conns r)" "session_key (r_conns r ! j) = k" "cn_state (r_conns r ! j) \<noteq> Closed"
      using assms(1) by (simp_all add: router_ok_def)
    then have "j \<noteq> i" using k(1) by auto
    then show ?thesis using j by (simp add: eq)
  qed
  moreover have "j < length (r_conns (onClose i r)) \<Longrightarrow> cn_state (r_conns (onClose i r) ! j) \<noteq> Closed \<Longrightarrow>
      map_of (r_sessions (onClose i r)) (session_key (r_conns (onClose i r) ! j)) = Some j" for j
    using router_okD [OF assms(1), of j] others [of j] by (cases "j = i") (auto simp: eq)
  moreover have "rc_maxSessions (r_cfg r) > 0 \<Longrightarrow> inbound_of (r_conns (onClose i r)) p \<le> rc_maxSessions (r_cfg r)" for p
    using assms(1) inbounds [of p] by (simp add: eq router_ok_def) (meson order_trans)
  moreover have "j < length (r_conns r) \<Longrightarrow> int (length (cn_inbox (r_conns (onClose i r) ! j))) \<le> rc_inboxSize (r_cfg r)" for j
    using assms by (simp add: eq router_ok_def nth_list_update)
  moreover have "gint (r_peers (onClose i r)) p = open_of (r_conns (onClose i r)) p" for p
    using peers by (simp add: eq)
  moreover have "gmap_ok (r_sessions (onClose i r))" "0 \<le> rc_inboxSize (r_cfg r)"
    using assms(1) by (auto simp: eq router_ok_def)
  moreover have "r_cfg (onClose i r) = r_cfg r" "length (r_conns (onClose i r)) = length (r_conns r)" by (simp_all add: eq)
  ultimately show ?thesis by (simp add: router_ok_def)
qed

lemma newConn_ok:
  assumes "router_ok r" "map_of (r_sessions r) (peer @ ''/'' @ sid) = None"
    and "\<not> dialed \<Longrightarrow> rc_maxSessions (r_cfg r) > 0 \<Longrightarrow> gint (r_peers r) peer < rc_maxSessions (r_cfg r)"
  shows "router_ok (fst (newConnLocked r now peer sid dialed))"
    and "snd (newConnLocked r now peer sid dialed) = length (r_conns r)"
    and "length (r_conns (fst (newConnLocked r now peer sid dialed))) = Suc (length (r_conns r))"
proof -
  let ?c = "\<lparr>cn_peer = peer, cn_sid = sid, cn_ttl = rc_ttl (r_cfg r), cn_chunkSize = rc_chunkSize (r_cfg r),
      cn_inbox = [], cn_state = Open, cn_active = now, cn_dialed = dialed\<rparr>"
  have key: "session_key ?c = peer @ ''/'' @ sid" by (simp add: session_key_def)
  have opens: "open_of (r_conns r @ [?c]) p = open_of (r_conns r) p + (if p = peer then 1 else 0)" for p
    by (simp add: open_of_def)
  have inbounds: "inbound_of (r_conns r @ [?c]) p = inbound_of (r_conns r) p + (if p = peer \<and> \<not> dialed then 1 else 0)" for p
    by (simp add: inbound_of_def)
  have "inbound_of (r_conns r) p \<le> open_of (r_conns r) p" for p
    unfolding inbound_of_def open_of_def of_nat_le_iff by (rule length_filter_mono) simp
  then have le: "inbound_of (r_conns r) peer \<le> gint (r_peers r) peer" using assms(1) by (simp add: router_ok_def)
  have limit: "inbound_of (r_conns r @ [?c]) p \<le> rc_maxSessions (r_cfg r)" if "rc_maxSessions (r_cfg r) > 0" for p
  proof (cases "p = peer \<and> \<not> dialed")
    case True
    then show ?thesis unfolding inbounds using assms(3) that le by simp
  next
    case False
    then show ?thesis using assms(1) that by (auto simp: inbounds router_ok_def)
  qed
  have fresh: "session_key (r_conns r ! j) \<noteq> peer @ ''/'' @ sid"
    if "j < length (r_conns r)" "cn_state (r_conns r ! j) \<noteq> Closed" for j
    using router_okD [OF assms(1) that] assms(2) by auto
  have ok: "gmap_ok (r_sessions r)" "0 \<le> rc_inboxSize (r_cfg r)" "\<And>p. gint (r_peers r) p = open_of (r_conns r) p"
    "\<And>k i. map_of (r_sessions r) k = Some i \<Longrightarrow>
        i < length (r_conns r) \<and> session_key (r_conns r ! i) = k \<and> cn_state (r_conns r ! i) \<noteq> Closed"
    using assms(1) by (simp_all add: router_ok_def)
  let ?r = "r\<lparr>r_conns := r_conns r @ [?c], r_sessions := gput (peer @ ''/'' @ sid) (length (r_conns r)) (r_sessions r),
      r_peers := gput peer (gint (r_peers r) peer + 1) (r_peers r)\<rparr>"
  have eq: "fst (newConnLocked r now peer sid dialed) = ?r"
    by (simp add: newConnLocked_def Let_def)
  show "router_ok (fst (newConnLocked r now peer sid dialed))"
    unfolding router_ok_def eq
  proof (intro conjI allI impI)
    fix k i
    assume "map_of (r_sessions ?r) k = Some i"
    then have "k = peer @ ''/'' @ sid \<and> i = length (r_conns r) \<or> k \<noteq> peer @ ''/'' @ sid \<and> map_of (r_sessions r) k = Some i"
      by (simp split: if_splits)
    then show "i < length (r_conns ?r)"
      "session_key (r_conns ?r ! i) = k"
      "cn_state (r_conns ?r ! i) \<noteq> Closed"
      using ok(4) [of k i] key by (auto simp: nth_append)
  qed (use ok limit opens key fresh router_okD [OF assms(1)] router_ok_inbox [OF assms(1)] in
        \<open>auto simp: nth_append less_Suc_eq\<close>)
  show "snd (newConnLocked r now peer sid dialed) = length (r_conns r)"
    "length (r_conns (fst (newConnLocked r now peer sid dialed))) = Suc (length (r_conns r))"
    by (simp_all add: newConnLocked_def Let_def)
qed

section \<open>Every operation keeps the invariant\<close>

lemma router_ok_asm [simp]: "router_ok (r\<lparr>r_asm := a\<rparr>) = router_ok r" "router_ok (r\<lparr>r_accepted := xs\<rparr>) = router_ok r"
  "router_ok (r\<lparr>r_closed := b\<rparr>) = router_ok r"
  by (simp_all add: router_ok_def)

text \<open>What a call may change besides: the buffer, never the configuration, and connections are only added.\<close>

lemma receive_simps:
  assumes "receive dec r peer body now = (r', res)"
  obtains a where "r' = r\<lparr>r_asm := a\<rparr>"
proof -
  have "\<exists>a. r' = r\<lparr>r_asm := a\<rparr>"
    using assms by (auto simp: receive_def split_beta Let_def intro: exI [of _ "r_asm r"]
        split: option.splits sum.splits if_splits)
  then show thesis using that by blast
qed

lemma receive_ok: "receive dec r peer body now = (r', res) \<Longrightarrow> router_ok r' = router_ok r \<and> r_conns r' = r_conns r"
  by (erule receive_simps) simp

lemma route_ok:
  assumes "router_ok r" "route r peer sid now = (r', res)"
  shows "router_ok r' \<and> length (r_conns r) \<le> length (r_conns r') \<and>
    (\<forall>i isNew. res = Some (i, isNew) \<longrightarrow> i < length (r_conns r'))"
proof (cases "r_closed r \<or> map_of (r_sessions r) (peer @ ''/'' @ sid) \<noteq> None")
  case True
  then show ?thesis using assms by (auto simp: route_def router_ok_def split: if_splits)
next
  case False
  then have none: "map_of (r_sessions r) (peer @ ''/'' @ sid) = None" by simp
  show ?thesis
  proof (cases "\<not> rc_accept (r_cfg r) \<or> rc_maxSessions (r_cfg r) > 0 \<and> gint (r_peers r) peer \<ge> rc_maxSessions (r_cfg r)")
    case True
    then have "route r peer sid now = (r, None)" using False by (auto simp: route_def)
    then show ?thesis using assms by simp
  next
    case room: False
    then have "router_ok (fst (newConnLocked r now peer sid False))"
      by (intro newConn_ok(1) [OF assms(1) none]) simp
    then show ?thesis
      using assms(2) False room newConn_ok(2,3) [OF assms(1) none, of False now]
      by (auto simp: route_def split_beta)
  qed
qed

lemma touch_conns [simp]: "length (r_conns (touch i now r)) = length (r_conns r)" "r_cfg (touch i now r) = r_cfg r"
  by (simp_all add: touch_def)

lemma conn_close_ok [inv_intros]: "router_ok r \<Longrightarrow> i < length (r_conns r) \<Longrightarrow> router_ok (conn_close i r)"
  unfolding conn_close_def by (rule onClose_ok) (auto simp: close_done_ok, simp add: close_done_def)

lemma conns_length [simp]:
  "length (r_conns (close_done i r)) = length (r_conns r)" "length (r_conns (onClose i r)) = length (r_conns r)"
  "length (r_conns (conn_close i r)) = length (r_conns r)"
  by (simp_all add: close_done_def onClose_def conn_close_def Let_def)

lemma deliver_ok [inv_intros]:
  assumes "router_ok r" "i < length (r_conns r)"
  shows "router_ok (deliver i isNew m now lucky r)" "length (r_conns (deliver i isNew m now lucky r)) = length (r_conns r)"
proof -
  define r1 where "r1 = (if isNew then (touch i now r)\<lparr>r_accepted := r_accepted (touch i now r) @ [i]\<rparr> else touch i now r)"
  have r1: "router_ok r1" "i < length (r_conns r1)" "length (r_conns r1) = length (r_conns r)" "r_cfg r1 = r_cfg r"
    using assms by (auto simp: r1_def touch_ok)
  have eq: "deliver i isNew m now lucky r = (let c = r_conns r1 ! i;
      room = int (length (cn_inbox c)) < rc_inboxSize (r_cfg r1); closed = (cn_state c \<noteq> Open)
      in if room \<and> (\<not> closed \<or> lucky) then set_conn i (c\<lparr>cn_inbox := cn_inbox c @ [m]\<rparr>) r1
         else if closed then r1 else conn_close i r1)"
    by (simp only: deliver_def Let_def r1_def)
  show "router_ok (deliver i isNew m now lucky r)"
    unfolding eq Let_def using r1 by (auto intro!: set_conn_ok conn_close_ok)
  show "length (r_conns (deliver i isNew m now lucky r)) = length (r_conns r)"
    unfolding eq Let_def using r1 by simp
qed

lemma Dial_ok:
  assumes "router_ok r" "map_of (r_sessions r) (peer @ ''/'' @ NewID rnd) = None"
  shows "router_ok (fst (Dial r now peer rnd)) \<and> length (r_conns r) \<le> length (r_conns (fst (Dial r now peer rnd)))"
  using newConn_ok [OF assms, of True now] assms(1) by (auto simp: Dial_def split_beta)

definition net_ok :: "'m net \<Rightarrow> bool" where
  "net_ok s \<longleftrightarrow> router_ok (n_router s) \<and> (\<forall>f \<in> set (n_flight s). fst f < length (r_conns (n_router s)))"

lemma conn_read_length: "length (r_conns (fst (conn_read i cancelled pick r))) = length (r_conns r)"
proof -
  define ready where "ready = (case cn_inbox (r_conns r ! i) of [] \<Rightarrow> []
        | m # ms \<Rightarrow> [(set_conn i ((r_conns r ! i)\<lparr>cn_inbox := ms\<rparr>) r, Got m)]) @
      (if cn_state (r_conns r ! i) \<noteq> Open then [(r, EOF)] else []) @ (if cancelled then [(r, CtxDone)] else [])"
  have "length (r_conns (fst x)) = length (r_conns r)" if "x \<in> set ready" for x
    using that by (auto simp: ready_def split: list.splits if_splits)
  moreover have "conn_read i cancelled pick r = (if ready = [] then (r, Blocks) else ready ! (pick mod length ready))"
    by (simp only: conn_read_def Let_def ready_def)
  ultimately show ?thesis by simp
qed

lemma net_ok_step: "net_step dec s l s' \<Longrightarrow> net_ok s \<Longrightarrow> net_ok s'"
proof (induction rule: net_step.induct)
  case (ignored s peer body now r)
  then show ?case using receive_ok [OF ignored.hyps] by (simp add: net_ok_def)
next
  case (dropped s peer body now r sid m r')
  have "router_ok r" "length (r_conns r) = length (r_conns (n_router s))"
    using dropped.prems receive_ok [OF dropped.hyps(1)] by (simp_all add: net_ok_def)
  then show ?case using route_ok [OF _ dropped.hyps(2)] dropped.prems by (force simp: net_ok_def)
next
  case (routed s peer body now r sid m r' i isNew)
  have "router_ok r" "length (r_conns r) = length (r_conns (n_router s))"
    using routed.prems receive_ok [OF routed.hyps(1)] by (simp_all add: net_ok_def)
  then show ?case using route_ok [OF _ routed.hyps(2)] routed.prems by (force simp: net_ok_def)
next
  case (delivered k s i isNew m now lucky)
  then have "i < length (r_conns (n_router s))" using nth_mem by (fastforce simp: net_ok_def)
  then show ?case using delivered.prems
    by (auto simp: net_ok_def deliver_ok dest: in_set_takeD in_set_dropD)
next
  case (dialed s peer rnd now)
  then show ?case using Dial_ok [of "n_router s" peer rnd now] by (fastforce simp: net_ok_def)
qed (auto simp: net_ok_def close_done_ok onClose_ok conn_read_ok conn_read_length)

lemma net_ok_start: "net_ok \<lparr>n_router = NewRouter cfg, n_flight = []\<rparr>"
  by (auto simp: net_ok_def router_ok_def NewRouter_def router_defaults_def open_of_def inbound_of_def)

lemma net_ok_reachable: "net_reachable dec cfg s \<Longrightarrow> net_ok s"
  by (induction rule: net_reachable.induct) (auto simp: net_ok_start net_ok_step)

section \<open>A written message arrives\<close>

text \<open>A router that only reassembles: the parts of an incomplete message change the buffer alone.\<close>

lemma HandlePM_partial:
  assumes "parse body = Some p" "\<forall>f. rc_allow (r_cfg r) = Some f \<longrightarrow> f peer"
    and "asm_add (r_asm r) peer p now = (a, Inr None)"
  shows "HandlePM dec lucky r (peer, body, now) = r\<lparr>r_asm := a\<rparr>"
  using assms by (auto simp: HandlePM_def receive_def split: option.splits)

lemma HandlePM_complete:
  assumes "parse body = Some p" "\<forall>f. rc_allow (r_cfg r) = Some f \<longrightarrow> f peer"
    and "asm_add (r_asm r) peer p now = (a, Inr (Some payload))" "dec payload = Some m"
    and "\<not> r_closed r" "map_of (r_sessions r) (peer @ ''/'' @ SID p) = Some j"
  shows "HandlePM dec lucky r (peer, body, now) = deliver j False m now lucky (r\<lparr>r_asm := a\<rparr>)"
  using assms by (auto simp: HandlePM_def receive_def route_def split: option.splits)

lemma HandlePM_message:
  assumes "snd (asm_adds (r_asm r) (map (\<lambda>q. (peer, fst q, snd q)) qs)) =
      replicate (length qs - 1) (Inr None) @ [Inr (Some payload)]"
    and "list_all2 (\<lambda>b q. parse (fst b) = Some (fst q) \<and> snd b = snd q) bs qs"
    and "\<forall>f. rc_allow (r_cfg r) = Some f \<longrightarrow> f peer" "dec payload = Some m"
    and "\<not> r_closed r" "\<forall>q \<in> set qs. map_of (r_sessions r) (peer @ ''/'' @ SID (fst q)) = Some j"
  shows "\<exists>a now. fold (\<lambda>b r. HandlePM dec lucky r (peer, fst b, snd b)) bs r =
    deliver j False m now lucky (r\<lparr>r_asm := a\<rparr>)"
  using assms
proof (induction qs arbitrary: bs r)
  case Nil
  then show ?case by simp
next
  case (Cons q qs)
  obtain p t where q: "q = (p, t)" by (cases q)
  obtain body bs' where bs: "bs = (body, t) # bs'" and b: "parse body = Some p"
    and rest: "list_all2 (\<lambda>b q. parse (fst b) = Some (fst q) \<and> snd b = snd q) bs' qs"
    using Cons.prems(2) by (force simp: q list_all2_Cons2)
  obtain a res where a: "asm_add (r_asm r) peer p t = (a, res)" by fastforce
  have results: "res # snd (asm_adds a (map (\<lambda>q. (peer, fst q, snd q)) qs)) =
      replicate (length qs) (Inr None) @ [Inr (Some payload)]"
    using Cons.prems(1) a by (simp add: q split_beta)
  show ?case
  proof (cases "qs = []")
    case True
    then have "res = Inr (Some payload)" using results by simp
    then have "HandlePM dec lucky r (peer, body, t) = deliver j False m t lucky (r\<lparr>r_asm := a\<rparr>)"
      using HandlePM_complete [of body p r peer t a payload dec m j lucky] b a Cons.prems by (simp add: q)
    then show ?thesis using rest True by (intro exI [of _ a] exI [of _ t]) (simp add: bs)
  next
    case False
    then obtain n where n: "length qs = Suc n" by (cases qs) auto
    have "res = Inr None" and tail: "snd (asm_adds a (map (\<lambda>q. (peer, fst q, snd q)) qs)) =
        replicate (length qs - 1) (Inr None) @ [Inr (Some payload)]"
      using results by (simp_all add: n)
    then have "HandlePM dec lucky r (peer, body, t) = r\<lparr>r_asm := a\<rparr>"
      using HandlePM_partial [of body p r peer t a dec lucky] b a Cons.prems(3) by simp
    moreover have "\<exists>a' now. fold (\<lambda>b r. HandlePM dec lucky r (peer, fst b, snd b)) bs' (r\<lparr>r_asm := a\<rparr>) =
        deliver j False m now lucky (r\<lparr>r_asm := a, r_asm := a'\<rparr>)"
      using Cons.IH [of "r\<lparr>r_asm := a\<rparr>" bs'] tail rest Cons.prems(3-6) by simp
    ultimately show ?thesis by (simp add: bs)
  qed
qed

lemma deliver_open:
  assumes "j < length (r_conns r)" "cn_state (r_conns r ! j) = Open"
    and "int (length (cn_inbox (r_conns r ! j))) < rc_inboxSize (r_cfg r)"
  shows "r_conns (deliver j False m now lucky r) =
    (r_conns r)[j := (r_conns r ! j)\<lparr>cn_active := now, cn_inbox := cn_inbox (r_conns r ! j) @ [m]\<rparr>]"
  using assms by (simp add: deliver_def touch_def Let_def)

lemma int_length_concat: "int (length (concat (map f xs))) = (\<Sum>x \<leftarrow> xs. int (length (f x)))"
  by (induction xs) simp_all

text \<open>The buffer returns the payload once its parts are in, one part or many.\<close>

lemma parts_delivered:
  assumes "asm_inv a" "cfg_ok (as_cfg a)" "data \<noteq> []" "0 < cs" "int (length data) + cs \<le> max64"
    and "map_of (as_pending a) (peer @ ''/'' @ sid @ ''/'' @ mid) = None"
    and "gint (as_perPeer a) peer < MaxPendingPerPeer (as_cfg a)"
    and "mset (map fst qs) = mset (parts_of sid mid e data cs)"
    and "\<forall>q \<in> set qs. \<not> (e > 0 \<and> unix (snd q) > e) \<and> time_sub (snd q) (snd (hd qs)) \<le> Timeout (as_cfg a)"
    and "int (length data) \<le> MaxMessageBytes (as_cfg a)"
    and "as_bytes a + int (length data) \<le> MaxTotalBytes (as_cfg a)"
  shows "snd (asm_adds a (map (\<lambda>q. (peer, fst q, snd q)) qs)) =
    replicate (length qs - 1) (Inr None) @ [Inr (Some data)]"
proof -
  define k where "k = num_parts (int (length data)) cs"
  define c where "c = (\<lambda>i. chunk_at data cs (nat (i - 1)))"
  let ?ps = "parts_of sid mid e data cs"
  note chunks = parts_of_chunks [OF assms(3-5), of sid mid e]
  have data: "concat (map c [1..k]) = data" and len: "int (length ?ps) = k"
  proof -
    have "map c [1..k] = map (\<lambda>i. chunk_at data cs i) [0..<nat k]"
      by (rule nth_equalityI) (simp_all add: c_def)
    then show "concat (map c [1..k]) = data" using chunks(1) by (simp add: parts_of_def Let_def comp_def k_def)
    show "int (length ?ps) = k" using chunks(3) by (simp add: k_def)
  qed
  have set: "fst ` set qs = set ?ps" using mset_eq_setD [OF assms(8)] by simp
  have parts: "SID p = sid \<and> MID p = mid \<and> Total p = k \<and> Exp p = e \<and> Chunk p = c (Seq p)" if "p \<in> set ?ps" for p
    using that by (auto simp: parts_of_def Let_def k_def c_def)
  have seqs: "mset (map (\<lambda>q. Seq (fst q)) qs) = mset [1..k]"
  proof -
    have "mset (map (\<lambda>q. Seq (fst q)) qs) = image_mset Seq (mset (map fst qs))" by (simp add: image_mset.compositionality comp_def)
    also have "\<dots> = mset (map Seq ?ps)" unfolding assms(8) by (simp only: mset_map)
    also have "map Seq ?ps = [1..k]"
      by (rule nth_equalityI) (simp_all add: parts_of_def Let_def flip: k_def)
    finally show ?thesis .
  qed
  have dist: "distinct (map (\<lambda>q. Seq (fst q)) qs)" using mset_eq_imp_distinct_iff [OF seqs] by simp
  have image: "(\<lambda>q. Seq (fst q)) ` set qs = {1..k}" using mset_eq_setD [OF seqs] by simp
  have bytes: "(\<Sum>i \<in> {1..k}. int (length (c i))) = int (length data)"
  proof -
    have "(\<Sum>i \<in> {1..k}. int (length (c i))) = (\<Sum>i \<leftarrow> [1..k]. int (length (c i)))"
      using sum_list_distinct_conv_sum_set [of "[1..k]" "\<lambda>i. int (length (c i))"] by simp
    also have "\<dots> = int (length (concat (map c [1..k])))" by (simp only: int_length_concat)
    finally show ?thesis by (simp add: data)
  qed
  have qs: "int (length qs) = k" using arg_cong [OF assms(8), of size] len by simp
  show ?thesis
  proof (cases "2 \<le> k")
    case True
    have "snd (asm_adds a (map (\<lambda>q. (peer, fst q, snd q)) qs)) =
        replicate (length qs - 1) (Inr None) @ [Inr (Some (concat (map c [1..k])))]"
      by (rule message_any_order [OF assms(1,2) True assms(6,7) _ dist image assms(9)])
        (use parts set assms(10,11) bytes in simp_all)
    then show ?thesis by (simp add: data)
  next
    case False
    have "?ps \<noteq> []" using chunks(1) assms(3) by auto
    then have k: "k = 1" using False len by (cases ?ps) auto
    then obtain q where q: "qs = [q]" using qs by (cases qs) auto
    have "fst q \<in> set ?ps" using set q by auto
    then have p: "Total (fst q) = 1" "Chunk (fst q) = c (Seq (fst q))" "Exp (fst q) = e" using parts k by auto
    have "Seq (fst q) = 1" using image q k by auto
    then have "Chunk (fst q) = data" using data p k by simp
    then show ?thesis using p assms(9,10) q by (cases q) (simp add: asm_add_def Expired_def)
  qed
qed

section \<open>Properties\<close>

text \<open>
  C2: A message written on one end of a session arrives exactly once and unchanged at the other. Take
  any message a connection writes, and hand the private messages it sent to the receiving router, each
  once but in any order: the session's inbox gains exactly that message and no other connection changes.
  The receiver must know the session, have room in its inbox and buffer, allow the peer, and get the
  parts before the deadline; the codec hypothesis is that decoding an encoded message returns it.
\<close>

theorem written_message_arrives:
  assumes "conn_write enc i m t0 rnd [] rs = (rs', sent, None)"
    and "\<And>d. enc m = Some d \<Longrightarrow> d \<noteq> [] \<and> dec d = Some m"
    and "enc m = Some data" "idRE (cn_sid (r_conns rs ! i))" "length rnd = 8"
    and "int (length data) + eff_chunk (cn_chunkSize (r_conns rs ! i)) \<le> max64"
    and "int (length data) \<le> MaxParts * eff_chunk (cn_chunkSize (r_conns rs ! i))"
    and "in64 (unix (t0 + cn_ttl (r_conns rs ! i)))"
    and "mset (map fst bs) = mset sent"
    and "\<forall>b \<in> set bs. unix (snd b) \<le> unix (t0 + cn_ttl (r_conns rs ! i)) \<and> time_sub (snd b) (snd (hd bs)) \<le> Timeout (as_cfg (r_asm r))"
    and "asm_inv (r_asm r)" "cfg_ok (as_cfg (r_asm r))"
    and "map_of (as_pending (r_asm r)) (peer @ ''/'' @ cn_sid (r_conns rs ! i) @ ''/'' @ NewID rnd) = None"
    and "gint (as_perPeer (r_asm r)) peer < MaxPendingPerPeer (as_cfg (r_asm r))"
    and "int (length data) \<le> MaxMessageBytes (as_cfg (r_asm r))"
    and "as_bytes (r_asm r) + int (length data) \<le> MaxTotalBytes (as_cfg (r_asm r))"
    and "\<forall>f. rc_allow (r_cfg r) = Some f \<longrightarrow> f peer" "\<not> r_closed r"
    and "map_of (r_sessions r) (peer @ ''/'' @ cn_sid (r_conns rs ! i)) = Some j"
    and "j < length (r_conns r)" "cn_state (r_conns r ! j) = Open"
    and "int (length (cn_inbox (r_conns r ! j))) < rc_inboxSize (r_cfg r)"
  shows "\<exists>now. r_conns (fold (\<lambda>b r. HandlePM dec lucky r (peer, fst b, snd b)) bs r) =
    (r_conns r)[j := (r_conns r ! j)\<lparr>cn_active := now, cn_inbox := cn_inbox (r_conns r ! j) @ [m]\<rparr>]"
proof -
  let ?c = "r_conns rs ! i"
  let ?ps = "parts_of (cn_sid ?c) (NewID rnd) (unix (t0 + cn_ttl ?c)) data (eff_chunk (cn_chunkSize ?c))"
  have data: "data \<noteq> []" "dec data = Some m" using assms(2,3) by auto
  have all: "send_all pms [] = (pms, True)" for pms by (induction pms) simp_all
  have sent: "encode (cn_sid ?c) data (Some (t0 + cn_ttl ?c)) (cn_chunkSize ?c) rnd = Inr sent"
    using assms(1,3) by (auto simp: conn_write_def all Let_def split: if_splits sum.splits)
  then have parsed: "map parse sent = map Some ?ps"
    using encode_parses [of "cn_sid ?c" data rnd "Some (t0 + cn_ttl ?c)" "cn_chunkSize ?c"] assms(4-8) data
    by (simp add: exp_unix_def)
  define qs where "qs = map (\<lambda>b. (the (parse (fst b)), snd b)) bs"
  have "mset (map parse (map fst bs)) = mset (map Some ?ps)"
    unfolding parsed [symmetric] mset_map assms(9) [unfolded mset_map] ..
  then have parses: "mset (map (\<lambda>b. parse (fst b)) bs) = mset (map Some ?ps)" by (simp only: map_map comp_def)
  then have "set (map (\<lambda>b. parse (fst b)) bs) = set (map Some ?ps)" by (rule mset_eq_setD)
  then have some: "\<exists>p \<in> set ?ps. parse (fst b) = Some p" if "b \<in> set bs" for b using that by auto
  have each: "list_all2 (\<lambda>b q. parse (fst b) = Some (fst q) \<and> snd b = snd q) bs qs"
    by (auto simp: qs_def list_all2_map2 intro!: list.rel_refl_strong dest!: some)
  have "mset (map fst qs) = image_mset the (mset (map (\<lambda>b. parse (fst b)) bs))"
    by (simp add: qs_def image_mset.compositionality comp_def)
  also have "\<dots> = mset ?ps" unfolding parses by (simp add: image_mset.compositionality comp_def)
  finally have qs: "mset (map fst qs) = mset ?ps" .
  have "bs \<noteq> []"
    using mset_eq_length [OF parses] parts_of_chunks(1) [OF data(1) eff_chunk_pos assms(6), of "cn_sid ?c" "NewID rnd" "unix (t0 + cn_ttl ?c)"] data(1)
    by (cases ?ps) auto
  then have hd: "snd (hd qs) = snd (hd bs)" by (simp add: qs_def hd_map)
  have delivered: "snd (asm_adds (r_asm r) (map (\<lambda>q. (peer, fst q, snd q)) qs)) =
      replicate (length qs - 1) (Inr None) @ [Inr (Some data)]"
    by (rule parts_delivered [OF assms(11,12) data(1) eff_chunk_pos assms(6,13,14) qs _ assms(15,16)])
      (use assms(10) hd in \<open>auto simp: qs_def\<close>)
  have "\<forall>q \<in> set qs. map_of (r_sessions r) (peer @ ''/'' @ SID (fst q)) = Some j"
    using some assms(19) by (fastforce simp: qs_def parts_of_def Let_def)
  then obtain a now where "fold (\<lambda>b r. HandlePM dec lucky r (peer, fst b, snd b)) bs r =
      deliver j False m now lucky (r\<lparr>r_asm := a\<rparr>)"
    using HandlePM_message [where r = r and peer = peer and dec = dec and lucky = lucky and j = j,
        OF delivered each assms(17) data(2) assms(18)] by blast
  then show ?thesis using deliver_open [of j "r\<lparr>r_asm := a\<rparr>" m now lucky] assms(20-22) by auto
qed

text \<open>
  C10: Whatever peers send and however the router's goroutines interleave, its resources stay bounded and
  its bookkeeping exact: a peer never has more accepted sessions open than \<^verbatim>\<open>MaxSessionsPerPeer\<close>, the
  count kept for a peer is the number of its open sessions, the session map finds exactly the
  connections that have not been closed, and no inbox exceeds \<^verbatim>\<open>InboxSize\<close>.
\<close>

theorem router_bounded:
  assumes "net_reachable dec cfg s"
  shows "(rc_maxSessions (r_cfg (n_router s)) > 0 \<longrightarrow>
      int (length (filter (\<lambda>c. cn_peer c = p \<and> cn_state c \<noteq> Closed \<and> \<not> cn_dialed c) (r_conns (n_router s))))
        \<le> rc_maxSessions (r_cfg (n_router s))) \<and>
    gint (r_peers (n_router s)) p = int (length (filter (\<lambda>c. cn_peer c = p \<and> cn_state c \<noteq> Closed) (r_conns (n_router s)))) \<and>
    (\<forall>i < length (r_conns (n_router s)). cn_state (r_conns (n_router s) ! i) \<noteq> Closed \<longleftrightarrow>
      map_of (r_sessions (n_router s)) (session_key (r_conns (n_router s) ! i)) = Some i) \<and>
    (\<forall>c \<in> set (r_conns (n_router s)). int (length (cn_inbox c)) \<le> rc_inboxSize (r_cfg (n_router s)))"
proof -
  have "router_ok (n_router s)" using net_ok_reachable [OF assms] by (simp add: net_ok_def)
  then show ?thesis by (auto simp: router_ok_def open_of_def inbound_of_def in_set_conv_nth)
qed

text \<open>
  A peer that is not allowed leaves no trace: whatever it sends, the router's state does not change
  at all, the reassembly buffer included. Text that is not an envelope leaves no trace either.
\<close>

lemma disallowed_peer_ignored:
  assumes "parse body = None \<or> (\<exists>f. rc_allow (r_cfg r) = Some f \<and> \<not> f peer)"
  shows "HandlePM dec lucky r (peer, body, now) = r"
  using assms by (auto simp: HandlePM_def receive_def split: option.splits)

text \<open>
  Sessions a host dialed count against the limit for inbound sessions: with \<^verbatim>\<open>MaxSessionsPerPeer\<close>
  sessions dialed to a peer and none accepted from it, the peer's first inbound session is dropped.
\<close>

lemma dialed_sessions_block_inbound:
  assumes "net_reachable dec cfg s" "0 < rc_maxSessions (r_cfg (n_router s))"
    and "rc_maxSessions (r_cfg (n_router s)) \<le>
      int (length (filter (\<lambda>c. cn_peer c = peer \<and> cn_state c \<noteq> Closed \<and> cn_dialed c) (r_conns (n_router s))))"
    and "map_of (r_sessions (n_router s)) (peer @ ''/'' @ sid) = None"
  shows "route (n_router s) peer sid now = (n_router s, None)"
proof -
  have "length (filter (\<lambda>c. cn_peer c = peer \<and> cn_state c \<noteq> Closed \<and> cn_dialed c) (r_conns (n_router s))) \<le>
      length (filter (\<lambda>c. cn_peer c = peer \<and> cn_state c \<noteq> Closed) (r_conns (n_router s)))"
    by (rule length_filter_mono) simp
  moreover have "router_ok (n_router s)" using net_ok_reachable [OF assms(1)] by (simp add: net_ok_def)
  ultimately have "rc_maxSessions (r_cfg (n_router s)) \<le> gint (r_peers (n_router s)) peer"
    using assms(3) by (simp add: router_ok_def open_of_def)
  then show ?thesis using assms(2,4) by (simp add: route_def)
qed

section \<open>Witnesses\<close>

definition demo_rcfg :: router_config where
  "demo_rcfg = \<lparr>rc_accept = True, rc_allow = Some (\<lambda>p. p \<noteq> ''mallory''), rc_ttl = 0, rc_chunkSize = 2,
     rc_assembler = demo_cfg, rc_inboxSize = 0, rc_idleTimeout = 0, rc_maxSessions = 1\<rparr>"

definition demo_conn :: "string \<Rightarrow> nat conn" where
  "demo_conn peer = \<lparr>cn_peer = peer, cn_sid = ''a1'', cn_ttl = 10 * minute, cn_chunkSize = 2, cn_inbox = [],
     cn_state = Open, cn_active = 0, cn_dialed = False\<rparr>"

definition demo_sender :: "nat router" where
  "demo_sender = (NewRouter demo_rcfg)\<lparr>r_conns := [demo_conn ''bob''], r_sessions := [(''bob/a1'', 0)]\<rparr>"

definition demo_receiver :: "nat router" where
  "demo_receiver = (NewRouter demo_rcfg)\<lparr>r_conns := [demo_conn ''alice''], r_sessions := [(''alice/a1'', 0)]\<rparr>"

definition demo_enc :: "nat \<Rightarrow> byte list option" where "demo_enc m = Some [1, 2, 3]"
definition demo_dec :: "byte list \<Rightarrow> nat option" where "demo_dec d = (if d = [1, 2, 3] then Some 7 else None)"

lemma demo_sent: "case encode ''a1'' [1, 2, 3] (Some (10 * minute)) 2 (replicate 8 0) of
    Inr pms \<Rightarrow> length pms = 2 | Inl e \<Rightarrow> False"
  by code_simp

theorem written_message_arrives_witness:
  "\<exists>rs' sent now. conn_write demo_enc 0 7 0 (replicate 8 0) [] demo_sender = (rs', sent, None) \<and> length sent = 2 \<and>
    r_conns (fold (\<lambda>b r. HandlePM demo_dec True r (''alice'', fst b, snd b)) [(sent ! 1, 5), (sent ! 0, 6)] demo_receiver) =
      [(demo_conn ''alice'')\<lparr>cn_active := now, cn_inbox := [7]\<rparr>]"
proof -
  obtain sent where enc: "encode ''a1'' [1, 2, 3] (Some (10 * minute)) 2 (replicate 8 0) = Inr sent" "length sent = 2"
    using demo_sent by (auto split: sum.splits)
  have all: "send_all pms [] = (pms, True)" for pms by (induction pms) simp_all
  obtain rs' where w: "conn_write demo_enc 0 7 0 (replicate 8 0) [] demo_sender = (rs', sent, None)"
    using enc by (simp add: conn_write_def demo_sender_def demo_conn_def touch_def demo_enc_def all Let_def)
  have sent: "sent = [sent ! 0, sent ! 1]" using enc(2)
    by (cases sent; cases "tl sent") auto
  have "mset (map fst [(sent ! 1, 5 :: instant), (sent ! 0, 6)]) = mset [sent ! 0, sent ! 1]"
    by (simp add: add_mset_commute)
  then have perm: "mset (map fst [(sent ! 1, 5 :: instant), (sent ! 0, 6)]) = mset sent" using arg_cong [OF sent, of mset] by (simp only:)
  have id: "idRE ''a1''" by code_simp
  have "\<exists>now. r_conns (fold (\<lambda>b r. HandlePM demo_dec True r (''alice'', fst b, snd b)) [(sent ! 1, 5), (sent ! 0, 6)] demo_receiver) =
      (r_conns demo_receiver)[0 := (r_conns demo_receiver ! 0)\<lparr>cn_active := now, cn_inbox := cn_inbox (r_conns demo_receiver ! 0) @ [7]\<rparr>]"
    by (rule written_message_arrives [where data = "[1, 2, 3]", OF w _ _ _ _ _ _ _ perm])
      (use id asm_inv_new [OF demo_cfg_ok] demo_cfg_ok in \<open>simp_all add: demo_enc_def demo_dec_def demo_sender_def demo_receiver_def
        demo_conn_def demo_rcfg_def NewRouter_def router_defaults_def NewAssembler_def demo_cfg_defaults eff_chunk_def
        MaxParts_def max64_def min64_def in64_def durations unix_def time_sub_def\<close>)
  then show ?thesis using w enc(2) by (auto simp: demo_receiver_def demo_conn_def)
qed

definition demo_net :: "nat net" where
  "demo_net = \<lparr>n_router = fst (Dial (NewRouter demo_rcfg) 0 ''bob'' (replicate 8 0)), n_flight = []\<rparr>"

lemma demo_net_reachable: "net_reachable demo_dec demo_rcfg demo_net"
proof -
  have "net_step demo_dec \<lparr>n_router = NewRouter demo_rcfg, n_flight = []\<rparr> (Dialing ''bob'' 0 (replicate 8 0)) demo_net"
    using net_step.dialed [of "\<lparr>n_router = NewRouter demo_rcfg, n_flight = []\<rparr>" "''bob''" "replicate 8 0" demo_dec 0]
    by (simp add: NewRouter_def demo_net_def)
  then show ?thesis by (rule net_reachable.step [OF net_reachable.start])
qed

theorem router_bounded_witness:
  "gint (r_peers (n_router demo_net)) ''bob'' =
    int (length (filter (\<lambda>c. cn_peer c = ''bob'' \<and> cn_state c \<noteq> Closed) (r_conns (n_router demo_net))))"
  using router_bounded [OF demo_net_reachable, of "''bob''"] by blast

lemma disallowed_peer_ignored_example:
  "HandlePM demo_dec True demo_receiver (''mallory'', SampleEnvelope, 5) = demo_receiver"
  by (rule disallowed_peer_ignored) (simp add: demo_receiver_def NewRouter_def router_defaults_def demo_rcfg_def)

lemma dialed_sessions_block_inbound_witness:
  "route (n_router demo_net) ''bob'' ''b2'' 9 = (n_router demo_net, None)"
proof -
  have "NewID (replicate 8 0) \<noteq> ''b2''" by code_simp
  then show ?thesis
    by (intro dialed_sessions_block_inbound [OF demo_net_reachable])
      (simp_all add: demo_net_def Dial_def newConnLocked_def NewRouter_def router_defaults_def demo_rcfg_def Let_def)
qed

section \<open>Closing sessions in bulk\<close>

lemma conn_close_sessions:
  assumes "router_ok r" "i < length (r_conns r)"
  shows "map_of (r_sessions (conn_close i r)) k = Some j \<longleftrightarrow> map_of (r_sessions r) k = Some j \<and> j \<noteq> i"
    and "j \<noteq> i \<Longrightarrow> r_conns (conn_close i r) ! j = r_conns r ! j"
    and "r_cfg (conn_close i r) = r_cfg r" "r_closed (conn_close i r) = r_closed r"
proof -
  let ?c = "r_conns r ! i"
  have mapped: "cn_state ?c \<noteq> Closed \<Longrightarrow> map_of (r_sessions r) (session_key ?c) = Some i"
    using router_okD [OF assms] by blast
  have key: "map_of (r_sessions r) k = Some i \<Longrightarrow> session_key ?c = k \<and> cn_state ?c \<noteq> Closed"
    using assms(1) by (simp add: router_ok_def)
  have upd: "session_key (?c\<lparr>cn_state := st\<rparr>) = session_key ?c" for st by (simp add: session_key_def)
  show "map_of (r_sessions (conn_close i r)) k = Some j \<longleftrightarrow> map_of (r_sessions r) k = Some j \<and> j \<noteq> i"
  proof -
    have eq: "r_sessions (conn_close i r) =
        (if cn_state ?c = Closed then r_sessions r else gdel (session_key ?c) (r_sessions r))"
      using mapped assms(2)
      by (cases "cn_state ?c") (simp_all add: conn_close_def close_done_def onClose_def Let_def upd)
    show ?thesis
    proof (cases "cn_state ?c = Closed")
      case True
      then show ?thesis using key by (auto simp: eq)
    next
      case False
      have other: "map_of (r_sessions r) k \<noteq> Some i" if "k \<noteq> session_key ?c" using key that by blast
      show ?thesis
      proof (cases "k = session_key ?c")
        case True
        then show ?thesis using mapped [OF False] False by (simp add: eq)
      next
        case neq: False
        then show ?thesis using False other [OF neq] by (auto simp: eq)
      qed
    qed
  qed
  show "j \<noteq> i \<Longrightarrow> r_conns (conn_close i r) ! j = r_conns r ! j" "r_cfg (conn_close i r) = r_cfg r"
    "r_closed (conn_close i r) = r_closed r"
    by (simp_all add: conn_close_def close_done_def onClose_def Let_def)
qed

lemma close_all_sessions:
  assumes "router_ok r" "\<forall>i \<in> set is. i < length (r_conns r)"
  shows "router_ok (fold conn_close is r) \<and> r_cfg (fold conn_close is r) = r_cfg r \<and>
    r_closed (fold conn_close is r) = r_closed r \<and>
    (\<forall>k j. map_of (r_sessions (fold conn_close is r)) k = Some j \<longleftrightarrow> map_of (r_sessions r) k = Some j \<and> j \<notin> set is) \<and>
    (\<forall>j. j \<notin> set is \<longrightarrow> r_conns (fold conn_close is r) ! j = r_conns r ! j)"
  using assms
proof (induction "is" arbitrary: r)
  case Nil
  then show ?case by simp
next
  case (Cons i "is")
  have i: "i < length (r_conns r)" using Cons.prems(2) by simp
  note close = conn_close_sessions [OF Cons.prems(1) i]
  show ?case
    using Cons.IH [of "conn_close i r"] Cons.prems conn_close_ok [OF Cons.prems(1) i] close by auto
qed

lemma map_of_snd: "map_of m k = Some i \<Longrightarrow> i \<in> snd ` set m"
  by (drule map_of_SomeD) force

lemma mapped_conns: "router_ok r \<Longrightarrow> i \<in> set (map snd (r_sessions r)) \<Longrightarrow> i < length (r_conns r)"
  by (auto simp: router_ok_def gmap_ok_mem)

text \<open>
  The sweep closes exactly the idle sessions: afterwards the router finds a session if and only if it
  found it before and its last traffic is no older than the idle timeout, and the connections it keeps
  are untouched.
\<close>

lemma sweep_closes_idle:
  assumes "router_ok r"
  shows "(map_of (r_sessions (sweep now r)) key = Some i \<longleftrightarrow>
      map_of (r_sessions r) key = Some i \<and> time_sub now (cn_active (r_conns r ! i)) \<le> rc_idleTimeout (r_cfg r)) \<and>
    (map_of (r_sessions (sweep now r)) key = Some i \<longrightarrow> r_conns (sweep now r) ! i = r_conns r ! i)"
proof -
  have "\<forall>i \<in> set (idle_conns now r). i < length (r_conns r)"
    using mapped_conns [OF assms] by (simp add: idle_conns_def)
  note all = close_all_sessions [OF assms this]
  have "map_of (r_sessions r) key = Some i \<Longrightarrow> i \<in> set (idle_conns now r) \<longleftrightarrow>
      time_sub now (cn_active (r_conns r ! i)) > rc_idleTimeout (r_cfg r)"
    by (simp add: idle_conns_def map_of_snd)
  then show ?thesis using all by (auto simp: sweep_def)
qed

text \<open>
  A closed router has no sessions and never gets one again: closing it closes every session, and
  afterwards no inbound part and no dial creates one.
\<close>

lemma router_Close_final:
  assumes "router_ok r"
  shows "map_of (r_sessions (router_Close r)) key = None \<and>
    route (router_Close r) peer sid now = (router_Close r, None) \<and> Dial (router_Close r) now peer rnd = (router_Close r, None)"
proof -
  have ok: "router_ok (r\<lparr>r_closed := True\<rparr>)" using assms by simp
  have "\<forall>i \<in> set (map snd (r_sessions r)). i < length (r_conns (r\<lparr>r_closed := True\<rparr>))"
    using mapped_conns [OF assms] by simp
  note all = close_all_sessions [OF ok this]
  have "map_of (r_sessions r) key = Some i \<Longrightarrow> i \<in> set (map snd (r_sessions r))" for i
    by (simp add: map_of_snd)
  then have "map_of (r_sessions (router_Close r)) key \<noteq> Some i" for i using all by (auto simp: router_Close_def)
  then have "map_of (r_sessions (router_Close r)) key = None" by (cases "map_of (r_sessions (router_Close r)) key") auto
  then show ?thesis using all by (simp add: router_Close_def route_def Dial_def)
qed

theorem sweep_closes_idle_witness:
  "map_of (r_sessions (sweep (20 * minute) (n_router demo_net))) ''bob/b2'' = Some 0 \<longleftrightarrow>
    map_of (r_sessions (n_router demo_net)) ''bob/b2'' = Some 0 \<and>
    time_sub (20 * minute) (cn_active (r_conns (n_router demo_net) ! 0)) \<le> rc_idleTimeout (r_cfg (n_router demo_net))"
  using sweep_closes_idle [of "n_router demo_net" "20 * minute" "''bob/b2''" 0] net_ok_reachable [OF demo_net_reachable]
  by (simp add: net_ok_def)

theorem router_Close_final_witness:
  "route (router_Close (n_router demo_net)) ''bob'' ''b2'' 9 = (router_Close (n_router demo_net), None)"
  using router_Close_final [of "n_router demo_net"] net_ok_reachable [OF demo_net_reachable]
  by (simp add: net_ok_def)

end
