(* ===== verification/TipMatcher.thy ===== *)
theory TipMatcher
  imports GoLib
begin

text \<open>
  Matching payments with their outcomes: \<^verbatim>\<open>TipMatcher\<close> of \<^verbatim>\<open>bridge/tipmatcher.go\<close> and \<^verbatim>\<open>TipPayer\<close> of
  \<^verbatim>\<open>bridge/tippayer.go\<close>. A waiter is a heap object with an identity and a channel that holds at
  most one result; the matcher's list refines one FIFO queue per (payee, amount), stated as the locale
  \<open>outcome_queues\<close> and interpreted on the matcher.

  Errors are their texts; \<open>None\<close> is Go's nil error.
\<close>

section \<open>The matcher\<close>

record tip_wait =
  tw_id :: nat
  tw_uid :: string
  tw_matoms :: int64

text \<open>\<open>tm_done\<close>: what each waiter's channel has been sent, in order of sending.\<close>

record tip_matcher =
  tm_waiters :: "tip_wait list"
  tm_done :: "(nat \<times> string option) list"
  tm_next :: nat

definition NewTipMatcher :: tip_matcher where
  "NewTipMatcher = \<lparr>tm_waiters = [], tm_done = [], tm_next = 0\<rparr>"

definition Expect :: "string \<Rightarrow> int64 \<Rightarrow> tip_matcher \<Rightarrow> tip_matcher \<times> nat" where
  "Expect uid matoms m =
     (let w = \<lparr>tw_id = tm_next m, tw_uid = uid, tw_matoms = matoms\<rparr> in
      (m\<lparr>tm_waiters := tm_waiters m @ [w], tm_next := tm_next m + 1\<rparr>, tm_next m))"

definition tw_matches :: "string \<Rightarrow> int64 \<Rightarrow> tip_wait \<Rightarrow> bool" where
  "tw_matches uid matoms w \<longleftrightarrow> equal_fold (tw_uid w) uid \<and> tw_matoms w = matoms"

text \<open>The first waiter that satisfies a test, and the list without it.\<close>

fun take_first :: "('a \<Rightarrow> bool) \<Rightarrow> 'a list \<Rightarrow> ('a \<times> 'a list) option" where
  "take_first P [] = None"
| "take_first P (x # xs) = (if P x then Some (x, xs)
     else case take_first P xs of None \<Rightarrow> None | Some (y, ys) \<Rightarrow> Some (y, x # ys))"

definition Resolve :: "string \<Rightarrow> int64 \<Rightarrow> string option \<Rightarrow> tip_matcher \<Rightarrow> tip_matcher \<times> bool" where
  "Resolve uid matoms res m = (case take_first (tw_matches uid matoms) (tm_waiters m) of
     None \<Rightarrow> (m, False)
   | Some (w, ws) \<Rightarrow> (m\<lparr>tm_waiters := ws, tm_done := tm_done m @ [(tw_id w, res)]\<rparr>, True))"

definition Cancel :: "nat \<Rightarrow> tip_matcher \<Rightarrow> tip_matcher" where
  "Cancel i m = (case take_first (\<lambda>w. tw_id w = i) (tm_waiters m) of
     None \<Rightarrow> m
   | Some (w, ws) \<Rightarrow> m\<lparr>tm_waiters := ws\<rparr>)"

text \<open>Reading the channel: the result sent to a waiter, if any.\<close>

definition Done :: "nat \<Rightarrow> tip_matcher \<Rightarrow> string option option" where
  "Done i m = map_of (tm_done m) i"

section \<open>Invariant\<close>

definition matcher_ok :: "tip_matcher \<Rightarrow> bool" where
  "matcher_ok m \<longleftrightarrow> distinct (map tw_id (tm_waiters m)) \<and> distinct (map fst (tm_done m)) \<and>
     (\<forall>w \<in> set (tm_waiters m). tw_id w < tm_next m \<and> tw_id w \<notin> fst ` set (tm_done m)) \<and>
     (\<forall>d \<in> set (tm_done m). fst d < tm_next m)"

lemma take_first_None: "take_first P xs = None \<longleftrightarrow> (\<forall>x \<in> set xs. \<not> P x)"
  by (induction xs) (auto split: option.splits)

lemma take_first_Some: "take_first P xs = Some (x, ys) \<Longrightarrow>
    \<exists>as bs. xs = as @ x # bs \<and> ys = as @ bs \<and> P x \<and> (\<forall>a \<in> set as. \<not> P a)"
proof (induction xs arbitrary: ys)
  case Nil
  then show ?case by simp
next
  case (Cons z zs)
  show ?case
  proof (cases "P z")
    case True
    then show ?thesis using Cons.prems by (intro exI [of _ "[]"] exI [of _ zs]) auto
  next
    case False
    then obtain ys' where y: "take_first P zs = Some (x, ys')" "ys = z # ys'"
      using Cons.prems by (auto split: option.splits)
    then obtain as bs where "zs = as @ x # bs" "ys' = as @ bs" "P x" "\<forall>a \<in> set as. \<not> P a"
      using Cons.IH by blast
    then show ?thesis using False y(2) by (intro exI [of _ "z # as"] exI [of _ bs]) simp
  qed
qed

lemma matcher_ok_new: "matcher_ok NewTipMatcher"
  by (simp add: matcher_ok_def NewTipMatcher_def)

lemma matcher_ok_Expect: "matcher_ok m \<Longrightarrow> matcher_ok (fst (Expect uid n m))"
  by (fastforce simp: matcher_ok_def Expect_def Let_def)

text \<open>Taking one waiter out keeps the invariant, and its result can still be delivered to it.\<close>

lemma matcher_ok_take:
  assumes "matcher_ok m" "take_first P (tm_waiters m) = Some (w, ws)"
  shows "matcher_ok (m\<lparr>tm_waiters := ws\<rparr>)"
    and "matcher_ok (m\<lparr>tm_waiters := ws, tm_done := tm_done m @ [(tw_id w, res)]\<rparr>)"
proof -
  obtain as bs where "tm_waiters m = as @ w # bs" "ws = as @ bs"
    using take_first_Some [OF assms(2)] by blast
  then show "matcher_ok (m\<lparr>tm_waiters := ws\<rparr>)"
    "matcher_ok (m\<lparr>tm_waiters := ws, tm_done := tm_done m @ [(tw_id w, res)]\<rparr>)"
    using assms(1) by (auto simp: matcher_ok_def image_iff)
qed

lemma matcher_ok_Resolve: "matcher_ok m \<Longrightarrow> matcher_ok (fst (Resolve uid n res m))"
  by (auto simp: Resolve_def matcher_ok_take split: option.splits)

lemma matcher_ok_Cancel: "matcher_ok m \<Longrightarrow> matcher_ok (Cancel i m)"
  by (auto simp: Cancel_def matcher_ok_take split: option.splits)

lemmas matcher_ok_ops = matcher_ok_new matcher_ok_Expect matcher_ok_Resolve matcher_ok_Cancel

section \<open>Refinement: one FIFO queue per payee and amount\<close>

text \<open>The interface a payer relies on: outcomes of equal payments are handed out in the order the
  payments were made, and payments of other payees or amounts are not touched.\<close>

locale outcome_queues =
  fixes queue :: "'m \<Rightarrow> string \<times> int64 \<Rightarrow> nat list"
    and enq :: "string \<Rightarrow> int64 \<Rightarrow> 'm \<Rightarrow> 'm \<times> nat"
    and deliver_to :: "string \<Rightarrow> int64 \<Rightarrow> string option \<Rightarrow> 'm \<Rightarrow> 'm \<times> bool"
    and result :: "nat \<Rightarrow> 'm \<Rightarrow> string option option"
    and inv :: "'m \<Rightarrow> bool"
  assumes enq_inv: "inv m \<Longrightarrow> inv (fst (enq u n m))"
    and enq_queue: "inv m \<Longrightarrow> queue (fst (enq u n m)) =
      (queue m)((to_lower u, n) := queue m (to_lower u, n) @ [snd (enq u n m)])"
    and enq_result: "inv m \<Longrightarrow> result i (fst (enq u n m)) = result i m \<and> result (snd (enq u n m)) m = None"
    and deliver_inv: "inv m \<Longrightarrow> inv (fst (deliver_to u n r m))"
    and deliver_queue: "inv m \<Longrightarrow> queue (fst (deliver_to u n r m)) =
      (queue m)((to_lower u, n) := tl (queue m (to_lower u, n)))"
    and deliver_result: "inv m \<Longrightarrow> snd (deliver_to u n r m) = (queue m (to_lower u, n) \<noteq> []) \<and>
      (\<forall>i. result i (fst (deliver_to u n r m)) =
        (if queue m (to_lower u, n) \<noteq> [] \<and> i = hd (queue m (to_lower u, n)) then Some r else result i m))"
begin

fun deliver_all :: "string \<Rightarrow> int64 \<Rightarrow> string option list \<Rightarrow> 'm \<Rightarrow> 'm" where
  "deliver_all u n [] m = m"
| "deliver_all u n (r # rs) m = deliver_all u n rs (fst (deliver_to u n r m))"

text \<open>The k-th outcome goes to the k-th payment that waits for it.\<close>

lemma fifo:
  assumes "inv m" "queue m (to_lower u, n) = ws" "distinct ws" "length rs \<le> length ws"
  shows "queue (deliver_all u n rs m) (to_lower u, n) = drop (length rs) ws \<and>
    (\<forall>k < length rs. result (ws ! k) (deliver_all u n rs m) = Some (rs ! k)) \<and>
    (\<forall>i. i \<notin> set (take (length rs) ws) \<longrightarrow> result i (deliver_all u n rs m) = result i m)"
  using assms
proof (induction rs arbitrary: m ws)
  case Nil
  then show ?case by simp
next
  case (Cons r rs)
  obtain w ws' where ws: "ws = w # ws'" using Cons.prems(4) by (cases ws) auto
  let ?m = "fst (deliver_to u n r m)"
  have q: "queue ?m (to_lower u, n) = ws'" using deliver_queue Cons.prems(1,2) ws by simp
  have r: "result i ?m = (if i = w then Some r else result i m)" for i
    using deliver_result Cons.prems(1,2) ws by simp
  note IH = Cons.IH [OF deliver_inv [OF Cons.prems(1), of u n r] q]
  have "w \<notin> set (take (length rs) ws')" using Cons.prems(3) ws by (auto dest: in_set_takeD)
  then show ?case using IH r Cons.prems(3,4) by (auto simp: ws nth_Cons split: nat.splits)
qed

end

definition tm_queue :: "tip_matcher \<Rightarrow> string \<times> int64 \<Rightarrow> nat list" where
  "tm_queue m k = map tw_id (filter (\<lambda>w. (to_lower (tw_uid w), tw_matoms w) = k) (tm_waiters m))"

lemma matches_key: "tw_matches u n w \<longleftrightarrow> (to_lower (tw_uid w), tw_matoms w) = (to_lower u, n)"
  by (simp add: tw_matches_def equal_fold_def)

lemma filter_take_first:
  assumes "take_first P xs = Some (x, ys)"
  shows "filter P xs = x # filter P ys" and "(\<And>z. Q z \<Longrightarrow> \<not> P z) \<Longrightarrow> filter Q ys = filter Q xs"
proof -
  obtain as bs where d: "xs = as @ x # bs" "ys = as @ bs" "P x" "\<forall>a \<in> set as. \<not> P a"
    using take_first_Some [OF assms] by blast
  then have "filter P as = []" by (simp add: filter_empty_conv)
  then show "filter P xs = x # filter P ys" using d by simp
  show "(\<And>z. Q z \<Longrightarrow> \<not> P z) \<Longrightarrow> filter Q ys = filter Q xs" using d by auto
qed

lemma tm_queue_matches: "tm_queue m (to_lower u, n) = map tw_id (filter (tw_matches u n) (tm_waiters m))"
  unfolding tm_queue_def matches_key ..

lemma Resolve_queue: "tm_queue (fst (Resolve u n r m)) = (tm_queue m)((to_lower u, n) := tl (tm_queue m (to_lower u, n)))"
proof (cases "take_first (tw_matches u n) (tm_waiters m)")
  case None
  then have "filter (tw_matches u n) (tm_waiters m) = []" by (simp add: take_first_None filter_empty_conv)
  then have "tm_queue m (to_lower u, n) = []" by (simp add: tm_queue_matches)
  then show ?thesis using None by (simp add: Resolve_def fun_eq_iff)
next
  case (Some wws)
  then obtain w ws where w: "take_first (tw_matches u n) (tm_waiters m) = Some (w, ws)" by (cases wws) auto
  have eq: "fst (Resolve u n r m) = m\<lparr>tm_waiters := ws, tm_done := tm_done m @ [(tw_id w, r)]\<rparr>"
    using w by (simp add: Resolve_def)
  show ?thesis
  proof
    fix k
    show "tm_queue (fst (Resolve u n r m)) k = ((tm_queue m)((to_lower u, n) := tl (tm_queue m (to_lower u, n)))) k"
    proof (cases "k = (to_lower u, n)")
      case True
      then show ?thesis using filter_take_first(1) [OF w] by (simp add: eq tm_queue_matches)
    next
      case False
      then have "filter (\<lambda>w. (to_lower (tw_uid w), tw_matoms w) = k) ws =
          filter (\<lambda>w. (to_lower (tw_uid w), tw_matoms w) = k) (tm_waiters m)"
        by (intro filter_take_first(2) [OF w]) (auto simp: matches_key)
      then show ?thesis using False by (simp add: eq tm_queue_def)
    qed
  qed
qed

lemma Resolve_result:
  assumes "matcher_ok m"
  shows "snd (Resolve u n r m) = (tm_queue m (to_lower u, n) \<noteq> [])"
    and "Done i (fst (Resolve u n r m)) =
      (if tm_queue m (to_lower u, n) \<noteq> [] \<and> i = hd (tm_queue m (to_lower u, n)) then Some r else Done i m)"
proof -
  show "snd (Resolve u n r m) = (tm_queue m (to_lower u, n) \<noteq> [])"
    using take_first_None [of "tw_matches u n" "tm_waiters m"]
    by (auto simp: Resolve_def tm_queue_matches filter_empty_conv split: option.splits)
  show "Done i (fst (Resolve u n r m)) =
      (if tm_queue m (to_lower u, n) \<noteq> [] \<and> i = hd (tm_queue m (to_lower u, n)) then Some r else Done i m)"
  proof (cases "take_first (tw_matches u n) (tm_waiters m)")
    case None
    then have "filter (tw_matches u n) (tm_waiters m) = []" by (simp add: take_first_None filter_empty_conv)
    then show ?thesis using None by (simp add: Resolve_def tm_queue_matches)
  next
    case (Some wws)
    then obtain w ws where w: "take_first (tw_matches u n) (tm_waiters m) = Some (w, ws)" by (cases wws) auto
    have hd: "tm_queue m (to_lower u, n) \<noteq> []" "hd (tm_queue m (to_lower u, n)) = tw_id w"
      using filter_take_first(1) [OF w] by (simp_all add: tm_queue_matches)
    have "w \<in> set (tm_waiters m)" using take_first_Some [OF w] by auto
    then have "map_of (tm_done m) (tw_id w) = None"
      using assms by (auto simp: matcher_ok_def map_of_eq_None_iff)
    then show ?thesis using hd w by (auto simp: Resolve_def Done_def map_add_def split: option.splits)
  qed
qed

interpretation matcher: outcome_queues tm_queue Expect Resolve Done matcher_ok
proof unfold_locales
  fix m u r i and n :: int
  assume ok: "matcher_ok m"
  show "matcher_ok (fst (Expect u n m))" "matcher_ok (fst (Resolve u n r m))"
    using ok by (simp_all add: matcher_ok_ops)
  show "tm_queue (fst (Expect u n m)) = (tm_queue m)((to_lower u, n) := tm_queue m (to_lower u, n) @ [snd (Expect u n m)])"
    by (auto simp: tm_queue_def Expect_def Let_def fun_eq_iff)
  show "Done i (fst (Expect u n m)) = Done i m \<and> Done (snd (Expect u n m)) m = None"
    using ok by (auto simp: Done_def Expect_def Let_def matcher_ok_def map_of_eq_None_iff)
  show "tm_queue (fst (Resolve u n r m)) = (tm_queue m)((to_lower u, n) := tl (tm_queue m (to_lower u, n)))"
    by (rule Resolve_queue)
  show "snd (Resolve u n r m) = (tm_queue m (to_lower u, n) \<noteq> []) \<and>
      (\<forall>i. Done i (fst (Resolve u n r m)) =
        (if tm_queue m (to_lower u, n) \<noteq> [] \<and> i = hd (tm_queue m (to_lower u, n)) then Some r else Done i m))"
    using Resolve_result [OF ok] by blast
qed

end
