(* ===== verification/TipPayer.thy ===== *)
theory TipPayer
  imports TipMatcher "HOL-Library.Multiset"
begin

text \<open>
  \<^verbatim>\<open>bridge/tippayer.go\<close>: payments over Bison Relay's asynchronous tip flow. \<^verbatim>\<open>Pay\<close> is cut at the
  points where it blocks, and \<open>tip_exec\<close> runs any number of payments and progress events in any
  order; the main result is that every terminal event is accounted for.
\<close>

section \<open>Paying by tips\<close>

text \<open>How a \<^verbatim>\<open>Pay\<close> ends. The texts of the errors are their constructors; \<open>NotConfirmed\<close> carries the
  budget in seconds that the message names.\<close>

datatype pay_result = Settled | TipError string | TipFailed string | NotConfirmed int | CtxCanceled

datatype ctx_end = DeadlineExceeded | Canceled

text \<open>The handler of late outcomes belongs to the host: a function on a host state, or nil.\<close>

record 'h tip_payer =
  tp_matcher :: tip_matcher
  tp_late :: "(string \<Rightarrow> int64 \<Rightarrow> string option \<Rightarrow> 'h \<Rightarrow> 'h) option"

definition NewTipPayer :: "'h tip_payer" where
  "NewTipPayer = \<lparr>tp_matcher = NewTipMatcher, tp_late = None\<rparr>"

definition SetLate :: "(string \<Rightarrow> int64 \<Rightarrow> string option \<Rightarrow> 'h \<Rightarrow> 'h) option \<Rightarrow> 'h tip_payer \<Rightarrow> 'h tip_payer" where
  "SetLate f p = p\<lparr>tp_late := f\<rparr>"

definition resolveLate :: "'h tip_payer \<Rightarrow> string \<Rightarrow> int64 \<Rightarrow> string option \<Rightarrow> 'h \<Rightarrow> 'h" where
  "resolveLate p uid atoms res h = (case tp_late p of None \<Rightarrow> h | Some f \<Rightarrow> f uid atoms res h)"

text \<open>\<^verbatim>\<open>math.Round\<close> of a duration in seconds: halves go away from zero.\<close>

definition round_secs :: "duration \<Rightarrow> int" where
  "round_secs d = sgn d * ((\<bar>d\<bar> + 500000000) div 1000000000)"

definition wait_secs :: "duration option \<Rightarrow> int" where
  "wait_secs left = (case left of None \<Rightarrow> 0 | Some d \<Rightarrow> round_secs d)"

text \<open>\<^verbatim>\<open>Pay\<close> blocks twice, so it is the sequence of its atomic parts: registering the waiter, the
  return of the host's \<^verbatim>\<open>tip\<close>, and one of the two branches of the \<^verbatim>\<open>select\<close>. After the context ended
  the waiter is cancelled first and its channel looked at next. \<open>None\<close> is still running.\<close>

definition pay_begin :: "string \<Rightarrow> int64 \<Rightarrow> 'h tip_payer \<Rightarrow> 'h tip_payer \<times> nat" where
  "pay_begin uid atoms p =
     (let (m, i) = Expect uid (mul64 atoms 1000) (tp_matcher p) in (p\<lparr>tp_matcher := m\<rparr>, i))"

definition pay_tipped :: "nat \<Rightarrow> string option \<Rightarrow> 'h tip_payer \<Rightarrow> 'h tip_payer \<times> pay_result option" where
  "pay_tipped i err p = (case err of
     Some e \<Rightarrow> (p\<lparr>tp_matcher := Cancel i (tp_matcher p)\<rparr>, Some (TipError e))
   | None \<Rightarrow> (p, None))"

definition pay_done :: "nat \<Rightarrow> 'h tip_payer \<Rightarrow> pay_result option" where
  "pay_done i p = (case Done i (tp_matcher p) of
     None \<Rightarrow> None
   | Some None \<Rightarrow> Some Settled
   | Some (Some e) \<Rightarrow> Some (TipFailed e))"

definition pay_cancel :: "nat \<Rightarrow> 'h tip_payer \<Rightarrow> 'h tip_payer" where
  "pay_cancel i p = p\<lparr>tp_matcher := Cancel i (tp_matcher p)\<rparr>"

definition pay_forward :: "string \<Rightarrow> int64 \<Rightarrow> nat \<Rightarrow> int \<Rightarrow> ctx_end \<Rightarrow> 'h tip_payer \<Rightarrow> 'h \<Rightarrow> 'h \<times> pay_result" where
  "pay_forward uid atoms i secs why p h =
     ((case Done i (tp_matcher p) of None \<Rightarrow> h | Some res \<Rightarrow> resolveLate p uid atoms res h),
      (case why of DeadlineExceeded \<Rightarrow> NotConfirmed secs | Canceled \<Rightarrow> CtxCanceled))"

definition progress_outcome :: "bool \<Rightarrow> string option \<Rightarrow> string option" where
  "progress_outcome completed err = (if completed then None else
     (case err of None \<Rightarrow> Some ''tip attempt ended without completing'' | Some e \<Rightarrow> Some e))"

definition Progress :: "string \<Rightarrow> int64 \<Rightarrow> bool \<Rightarrow> string option \<Rightarrow> bool \<Rightarrow> 'h tip_payer \<Rightarrow> 'h \<Rightarrow> 'h tip_payer \<times> 'h" where
  "Progress uid matoms completed err willRetry p h =
     (if willRetry \<and> \<not> completed then (p, h)
      else let res = progress_outcome completed err;
               (m, ours) = Resolve uid matoms res (tp_matcher p);
               p' = p\<lparr>tp_matcher := m\<rparr>
        in if ours then (p', h)
           else if rem64 matoms 1000 = 0 then (p', resolveLate p' uid (quot64 matoms 1000) res h)
           else (p', h))"

section \<open>Payments and events in any order\<close>

datatype pay_phase = Tipping | Selecting | Ended ctx_end | Returned pay_result

record pay_call =
  pc_uid :: string
  pc_atoms :: int64
  pc_secs :: int
  pc_phase :: pay_phase

text \<open>The i-th payment owns the i-th waiter.\<close>

record 'h tip_sys =
  ts_payer :: "'h tip_payer"
  ts_pays :: "pay_call list"
  ts_host :: 'h

datatype payer_event =
    PayStarts string int64 "duration option"
  | TipReturns nat "string option"
  | PayReadsDone nat
  | CtxEnds nat ctx_end
  | PayForwards nat
  | TipProgress string int64 bool "string option" bool

definition set_phase :: "nat \<Rightarrow> pay_phase \<Rightarrow> pay_call list \<Rightarrow> pay_call list" where
  "set_phase i ph cs = cs[i := (cs ! i)\<lparr>pc_phase := ph\<rparr>]"

definition in_phase :: "nat \<Rightarrow> pay_phase \<Rightarrow> 'h tip_sys \<Rightarrow> bool" where
  "in_phase i ph s \<longleftrightarrow> i < length (ts_pays s) \<and> pc_phase (ts_pays s ! i) = ph"

fun pay_step :: "payer_event \<Rightarrow> 'h tip_sys \<Rightarrow> 'h tip_sys option" where
  "pay_step (PayStarts uid atoms left) s =
     Some (s\<lparr>ts_payer := fst (pay_begin uid atoms (ts_payer s)),
             ts_pays := ts_pays s @ [\<lparr>pc_uid = uid, pc_atoms = atoms, pc_secs = wait_secs left, pc_phase = Tipping\<rparr>]\<rparr>)"
| "pay_step (TipReturns i err) s =
     (if in_phase i Tipping s
      then (case pay_tipped i err (ts_payer s) of
          (p, None) \<Rightarrow> Some (s\<lparr>ts_payer := p, ts_pays := set_phase i Selecting (ts_pays s)\<rparr>)
        | (p, Some r) \<Rightarrow> Some (s\<lparr>ts_payer := p, ts_pays := set_phase i (Returned r) (ts_pays s)\<rparr>))
      else None)"
| "pay_step (PayReadsDone i) s =
     (if in_phase i Selecting s
      then (case pay_done i (ts_payer s) of None \<Rightarrow> None
        | Some r \<Rightarrow> Some (s\<lparr>ts_pays := set_phase i (Returned r) (ts_pays s)\<rparr>))
      else None)"
| "pay_step (CtxEnds i why) s =
     (if in_phase i Selecting s
      then Some (s\<lparr>ts_payer := pay_cancel i (ts_payer s), ts_pays := set_phase i (Ended why) (ts_pays s)\<rparr>)
      else None)"
| "pay_step (PayForwards i) s =
     (if i < length (ts_pays s)
      then let c = ts_pays s ! i in
        (case pc_phase c of
           Ended why \<Rightarrow> (case pay_forward (pc_uid c) (pc_atoms c) i (pc_secs c) why (ts_payer s) (ts_host s) of
             (h, r) \<Rightarrow> Some (s\<lparr>ts_host := h, ts_pays := set_phase i (Returned r) (ts_pays s)\<rparr>))
         | _ \<Rightarrow> None)
      else None)"
| "pay_step (TipProgress uid matoms completed err willRetry) s =
     (case Progress uid matoms completed err willRetry (ts_payer s) (ts_host s) of
        (p, h) \<Rightarrow> Some (s\<lparr>ts_payer := p, ts_host := h\<rparr>))"

fun tip_exec :: "payer_event list \<Rightarrow> 'h tip_sys \<Rightarrow> 'h tip_sys option" where
  "tip_exec [] s = Some s"
| "tip_exec (e # es) s = (case pay_step e s of None \<Rightarrow> None | Some s' \<Rightarrow> tip_exec es s')"

section \<open>Invariant\<close>

text \<open>The i-th waiter is the i-th payment's, and only a payment that is still running waits.\<close>

definition tsys_ok :: "'h tip_sys \<Rightarrow> bool" where
  "tsys_ok s \<longleftrightarrow> (let m = tp_matcher (ts_payer s); cs = ts_pays s in
     matcher_ok m \<and> tm_next m = length cs \<and>
     (\<forall>w \<in> set (tm_waiters m). let c = cs ! tw_id w in
        tw_uid w = pc_uid c \<and> tw_matoms w = mul64 (pc_atoms c) 1000 \<and> pc_phase c \<in> {Tipping, Selecting}))"

text \<open>Accounting. The key of an event is its payee, its amount and its outcome. A payment whose
  context ended has handed the outcome it found to the late handler.\<close>

type_synonym outcome_key = "string \<times> int64 \<times> string option"

fun terminal :: "payer_event \<Rightarrow> bool" where
  "terminal (TipProgress uid matoms completed err willRetry) \<longleftrightarrow> completed \<or> \<not> willRetry"
| "terminal _ \<longleftrightarrow> False"

fun whole_atoms :: "payer_event \<Rightarrow> bool" where
  "whole_atoms (TipProgress uid matoms completed err willRetry) \<longleftrightarrow> in64 matoms \<and> rem64 matoms 1000 = 0"
| "whole_atoms _ \<longleftrightarrow> True"

fun event_key :: "payer_event \<Rightarrow> outcome_key" where
  "event_key (TipProgress uid matoms completed err willRetry) =
     (to_lower uid, matoms, progress_outcome completed err)"
| "event_key _ = undefined"

definition late_key :: "string \<times> int64 \<times> string option \<Rightarrow> outcome_key" where
  "late_key l = (case l of (uid, atoms, res) \<Rightarrow> (to_lower uid, mul64 atoms 1000, res))"

definition log_late :: "string \<Rightarrow> int64 \<Rightarrow> string option \<Rightarrow> (string \<times> int64 \<times> string option) list \<Rightarrow>
    (string \<times> int64 \<times> string option) list" where
  "log_late uid atoms res h = h @ [(uid, atoms, res)]"

definition forwarded :: "pay_call list \<Rightarrow> nat \<Rightarrow> bool" where
  "forwarded cs i = (case pc_phase (cs ! i) of
     Returned (NotConfirmed _) \<Rightarrow> True | Returned CtxCanceled \<Rightarrow> True | _ \<Rightarrow> False)"

definition done_key :: "pay_call list \<Rightarrow> nat \<times> string option \<Rightarrow> outcome_key" where
  "done_key cs d = (to_lower (pc_uid (cs ! fst d)), mul64 (pc_atoms (cs ! fst d)) 1000, snd d)"

text \<open>The outcomes that a payment itself got.\<close>

definition kept :: "'h tip_sys \<Rightarrow> (nat \<times> string option) list" where
  "kept s = filter (\<lambda>d. \<not> forwarded (ts_pays s) (fst d)) (tm_done (tp_matcher (ts_payer s)))"

definition accounted :: "(string \<times> int64 \<times> string option) list tip_sys \<Rightarrow> outcome_key multiset" where
  "accounted s = mset (map late_key (ts_host s)) + mset (map (done_key (ts_pays s)) (kept s))"

definition tip_init :: "'h \<Rightarrow> (string \<Rightarrow> int64 \<Rightarrow> string option \<Rightarrow> 'h \<Rightarrow> 'h) option \<Rightarrow> 'h tip_sys" where
  "tip_init h f = \<lparr>ts_payer = SetLate f NewTipPayer, ts_pays = [], ts_host = h\<rparr>"

lemma tsys_ok_init: "tsys_ok (tip_init h f)"
  by (simp add: tsys_ok_def tip_init_def SetLate_def NewTipPayer_def NewTipMatcher_def matcher_ok_def)

lemma length_set_phase [simp]: "length (set_phase i ph cs) = length cs"
  by (simp add: set_phase_def)

lemma set_phase_nth: "i < length cs \<Longrightarrow> set_phase i ph cs ! j = (if j = i then (cs ! i)\<lparr>pc_phase := ph\<rparr> else cs ! j)"
  by (simp add: set_phase_def nth_list_update)

lemma done_key_set_phase [simp]: "i < length cs \<Longrightarrow> done_key (set_phase i ph cs) = done_key cs"
  by (auto simp: done_key_def set_phase_nth fun_eq_iff)

text \<open>Cancelling removes exactly one waiter; with distinct identities that one is gone.\<close>

lemma Cancel_waiters:
  assumes "matcher_ok m"
  shows "set (tm_waiters (Cancel i m)) = {w \<in> set (tm_waiters m). tw_id w \<noteq> i}"
    and "tm_done (Cancel i m) = tm_done m" "tm_next (Cancel i m) = tm_next m"
proof -
  show "tm_done (Cancel i m) = tm_done m" "tm_next (Cancel i m) = tm_next m"
    by (auto simp: Cancel_def split: option.splits)
  show "set (tm_waiters (Cancel i m)) = {w \<in> set (tm_waiters m). tw_id w \<noteq> i}"
  proof (cases "take_first (\<lambda>w. tw_id w = i) (tm_waiters m)")
    case None
    then have "Cancel i m = m" by (simp add: Cancel_def)
    then show ?thesis using None by (auto simp: take_first_None)
  next
    case (Some p)
    then obtain w ws where p: "take_first (\<lambda>w. tw_id w = i) (tm_waiters m) = Some (w, ws)" by (cases p) auto
    obtain as bs where "tm_waiters m = as @ w # bs" "ws = as @ bs" "tw_id w = i"
      using take_first_Some [OF p] by blast
    then show ?thesis using assms p by (auto simp: Cancel_def matcher_ok_def) (metis imageI)+
  qed
qed

text \<open>Changing the phase of a payment that does not wait keeps the invariant.\<close>

lemma tsys_ok_cancelled:
  assumes "tsys_ok s" "i < length (ts_pays s)" "p = pay_cancel i (ts_payer s)"
  shows "tsys_ok (s\<lparr>ts_payer := p, ts_pays := set_phase i ph (ts_pays s)\<rparr>)"
  using assms Cancel_waiters [of "tp_matcher (ts_payer s)" i]
  by (auto simp: tsys_ok_def Let_def pay_cancel_def set_phase_nth matcher_ok_Cancel)

lemma tsys_ok_phase:
  assumes "tsys_ok s" "i < length (ts_pays s)"
    "ph \<in> {Tipping, Selecting} \<or> i \<notin> tw_id ` set (tm_waiters (tp_matcher (ts_payer s)))"
  shows "tsys_ok (s\<lparr>ts_pays := set_phase i ph (ts_pays s)\<rparr>)"
  using assms by (auto simp: tsys_ok_def Let_def set_phase_nth)

lemma tsys_ok_host [simp]: "tsys_ok (s\<lparr>ts_host := h\<rparr>) = tsys_ok s"
  by (simp add: tsys_ok_def)

text \<open>A payment whose channel holds a result waits no more.\<close>

lemma done_not_waiting:
  "tsys_ok s \<Longrightarrow> Done i (tp_matcher (ts_payer s)) = Some r \<Longrightarrow>
    i \<notin> tw_id ` set (tm_waiters (tp_matcher (ts_payer s)))"
  by (auto simp: tsys_ok_def matcher_ok_def Let_def Done_def dest!: map_of_SomeD) force

section \<open>Every outcome is accounted for\<close>

lemma mset_filter_remove_one:
  assumes "distinct (map fst xs)" "map_of xs i = Some r"
    "\<And>j. j \<noteq> i \<Longrightarrow> Q j = P j" "P i" "\<not> Q i"
  shows "mset (filter (\<lambda>d. P (fst d)) xs) = add_mset (i, r) (mset (filter (\<lambda>d. Q (fst d)) xs))"
  using assms(1,2)
proof (induction xs)
  case Nil
  then show ?case by simp
next
  case (Cons d xs)
  obtain j v where d: "d = (j, v)" by (cases d)
  show ?case
  proof (cases "j = i")
    case True
    then have "\<forall>e \<in> set xs. P (fst e) = Q (fst e)" using Cons.prems(1) d assms(3) by force
    then have "filter (\<lambda>d. P (fst d)) xs = filter (\<lambda>d. Q (fst d)) xs" by (metis (mono_tags, lifting) filter_cong)
    then show ?thesis using True Cons.prems d assms(4,5) by simp
  next
    case False
    then show ?thesis using Cons assms(3) d by simp
  qed
qed

text \<open>A change of phase that forwards nothing keeps the account.\<close>

lemma accounted_phase:
  assumes "i < length (ts_pays s)" "\<not> forwarded (ts_pays s) i" "\<not> forwarded (set_phase i ph (ts_pays s)) i"
    "tm_done (tp_matcher p) = tm_done (tp_matcher (ts_payer s))"
  shows "accounted (s\<lparr>ts_payer := p, ts_pays := set_phase i ph (ts_pays s)\<rparr>) = accounted s"
proof -
  have "forwarded (set_phase i ph (ts_pays s)) j = forwarded (ts_pays s) j" for j
    using assms(1-3) by (cases "j = i") (simp_all add: forwarded_def set_phase_nth)
  then show ?thesis using assms(1,4) by (simp add: accounted_def kept_def)
qed

lemma accounted_phase_only:
  assumes "i < length (ts_pays s)" "\<not> forwarded (ts_pays s) i" "\<not> forwarded (set_phase i ph (ts_pays s)) i"
  shows "accounted (s\<lparr>ts_pays := set_phase i ph (ts_pays s)\<rparr>) = accounted s"
  using accounted_phase [OF assms, of "ts_payer s"] by simp

lemma accounted_new_pay:
  assumes "tsys_ok s"
  shows "accounted (s\<lparr>ts_payer := fst (pay_begin u a (ts_payer s)), ts_pays := ts_pays s @ [c]\<rparr>) = accounted s"
proof -
  have "d \<in> set (tm_done (tp_matcher (ts_payer s))) \<Longrightarrow> fst d < length (ts_pays s)" for d
    using assms by (auto simp: tsys_ok_def matcher_ok_def Let_def)
  then have "filter (\<lambda>d. \<not> forwarded (ts_pays s @ [c]) (fst d)) (tm_done (tp_matcher (ts_payer s))) = kept s"
    "d \<in> set (kept s) \<Longrightarrow> done_key (ts_pays s @ [c]) d = done_key (ts_pays s) d" for d
    unfolding kept_def by (auto simp: forwarded_def done_key_def nth_append intro!: filter_cong)
  then have "map (done_key (ts_pays s @ [c]))
      (filter (\<lambda>d. \<not> forwarded (ts_pays s @ [c]) (fst d)) (tm_done (tp_matcher (ts_payer s)))) =
      map (done_key (ts_pays s)) (kept s)" by simp
  moreover have "tm_done (tp_matcher (fst (pay_begin u a (ts_payer s)))) = tm_done (tp_matcher (ts_payer s))"
    by (simp add: pay_begin_def Expect_def Let_def)
  ultimately show ?thesis by (simp add: accounted_def kept_def flip: mset_map)
qed

lemma tsys_ok_new_pay:
  assumes "tsys_ok s"
  shows "tsys_ok (s\<lparr>ts_payer := fst (pay_begin u a (ts_payer s)), ts_pays := ts_pays s @
      [\<lparr>pc_uid = u, pc_atoms = a, pc_secs = n, pc_phase = Tipping\<rparr>]\<rparr>)"
  using assms matcher_ok_Expect [of "tp_matcher (ts_payer s)" u "mul64 a 1000"]
  by (auto simp: tsys_ok_def Let_def pay_begin_def Expect_def nth_append matcher_ok_def split: prod.splits)

lemma Resolve_cases:
  assumes "Resolve u n r m = (m', b)"
  obtains "\<not> b" "m' = m" | w ws where "b" "take_first (tw_matches u n) (tm_waiters m) = Some (w, ws)"
    "m' = m\<lparr>tm_waiters := ws, tm_done := tm_done m @ [(tw_id w, r)]\<rparr>"
  using assms by (auto simp: Resolve_def split: option.splits)

text \<open>The forwarding step moves the outcome from the payment's channel to the handler.\<close>

lemma accounted_forward:
  assumes "tsys_ok s" "tp_late (ts_payer s) = Some log_late" "i < length (ts_pays s)"
    "pc_phase (ts_pays s ! i) = Ended why"
    "pay_forward (pc_uid (ts_pays s ! i)) (pc_atoms (ts_pays s ! i)) i n why (ts_payer s) (ts_host s) = (h, r)"
  shows "accounted (s\<lparr>ts_host := h, ts_pays := set_phase i (Returned r) (ts_pays s)\<rparr>) = accounted s"
proof -
  let ?cs = "ts_pays s" and ?cs' = "set_phase i (Returned r) (ts_pays s)"
  let ?d = "tm_done (tp_matcher (ts_payer s))"
  have r: "r = (case why of DeadlineExceeded \<Rightarrow> NotConfirmed n | Canceled \<Rightarrow> CtxCanceled)"
    using assms(5) by (simp add: pay_forward_def)
  have f: "forwarded ?cs' i" "\<not> forwarded ?cs i"
    using assms(3,4) r by (auto simp: forwarded_def set_phase_nth split: ctx_end.splits)
  have nj: "j \<noteq> i \<Longrightarrow> forwarded ?cs' j = forwarded ?cs j" for j
    using assms(3) by (simp add: forwarded_def set_phase_nth)
  show ?thesis
  proof (cases "map_of ?d i")
    case None
    then have "i \<notin> fst ` set ?d" by (simp add: map_of_eq_None_iff)
    then have "filter (\<lambda>d. \<not> forwarded ?cs' (fst d)) ?d = kept s"
      unfolding kept_def by (intro filter_cong refl) (metis nj image_eqI)
    moreover have "h = ts_host s" using assms(5) None by (simp add: pay_forward_def Done_def)
    ultimately show ?thesis using assms(3) by (simp add: accounted_def kept_def)
  next
    case (Some res)
    have h: "h = log_late (pc_uid (?cs ! i)) (pc_atoms (?cs ! i)) res (ts_host s)"
      using assms(2,5) Some by (simp add: pay_forward_def Done_def resolveLate_def)
    have "mset (filter (\<lambda>d. \<not> forwarded ?cs (fst d)) ?d) =
        add_mset (i, res) (mset (filter (\<lambda>d. \<not> forwarded ?cs' (fst d)) ?d))"
      by (rule mset_filter_remove_one) (use assms(1) Some f nj in \<open>auto simp: tsys_ok_def matcher_ok_def Let_def\<close>)
    moreover have "late_key (pc_uid (?cs ! i), pc_atoms (?cs ! i), res) = done_key ?cs (i, res)"
      by (simp add: late_key_def done_key_def)
    ultimately show ?thesis using assms(3)
      by (simp add: accounted_def kept_def h log_late_def)
  qed
qed

lemma accounted_progress:
  assumes "tsys_ok s" "tp_late (ts_payer s) = Some log_late" "in64 n" "rem64 n 1000 = 0"
    "Progress u n completed err retry (ts_payer s) (ts_host s) = (p, h)"
  shows "tsys_ok (s\<lparr>ts_payer := p, ts_host := h\<rparr>) \<and> tp_late p = Some log_late \<and>
    accounted (s\<lparr>ts_payer := p, ts_host := h\<rparr>) = accounted s +
      (if completed \<or> \<not> retry then {#(to_lower u, n, progress_outcome completed err)#} else {#})"
proof (cases "retry \<and> \<not> completed")
  case True
  then have "p = ts_payer s" "h = ts_host s" using assms(5) by (simp_all add: Progress_def)
  then show ?thesis using True assms(1,2) by (auto simp: accounted_def kept_def)
next
  case False
  let ?m = "tp_matcher (ts_payer s)" and ?r = "progress_outcome completed err"
  obtain m' b where mb: "Resolve u n ?r ?m = (m', b)" by fastforce
  from mb show ?thesis
  proof (cases rule: Resolve_cases)
    case 1
    then have "p = ts_payer s" "h = log_late u (quot64 n 1000) ?r (ts_host s)"
      using assms(2,4,5) False mb by (auto simp: Progress_def Let_def resolveLate_def)
    moreover have "late_key (u, quot64 n 1000, ?r) = (to_lower u, n, ?r)"
      using quot64_mul64 [of n 1000] assms(3,4) by (simp add: late_key_def)
    ultimately show ?thesis using False assms(1,2) by (auto simp: accounted_def kept_def log_late_def)
  next
    case (2 w ws)
    then have ph: "p = ts_payer s\<lparr>tp_matcher := m'\<rparr>" "h = ts_host s"
      using assms(5) False mb by (auto simp: Progress_def Let_def)
    obtain as bs where w: "tm_waiters ?m = as @ w # bs" "ws = as @ bs" "tw_matches u n w"
      using take_first_Some [OF 2(2)] by blast
    have "matcher_ok m'" using matcher_ok_Resolve [of ?m u n ?r] assms(1) mb by (simp add: tsys_ok_def Let_def)
    then have "tsys_ok (s\<lparr>ts_payer := p, ts_host := h\<rparr>)"
      using assms(1) w 2(3) by (auto simp: tsys_ok_def Let_def ph)
    moreover have "\<not> forwarded (ts_pays s) (tw_id w)" "done_key (ts_pays s) (tw_id w, ?r) = (to_lower u, n, ?r)"
      using assms(1) w by (auto simp: tsys_ok_def Let_def forwarded_def done_key_def matches_key)
    ultimately show ?thesis using False assms(2) 2(3)
      by (auto simp: accounted_def kept_def ph)
  qed
qed

lemma accounted_step:
  assumes "tsys_ok s" "tp_late (ts_payer s) = Some log_late" "whole_atoms e" "pay_step e s = Some s'"
  shows "tsys_ok s' \<and> tp_late (ts_payer s') = Some log_late \<and>
    accounted s' = accounted s + (if terminal e then {#event_key e#} else {#})"
proof (cases e)
  case (PayStarts u a left)
  then have "s' = s\<lparr>ts_payer := fst (pay_begin u a (ts_payer s)), ts_pays := ts_pays s @
      [\<lparr>pc_uid = u, pc_atoms = a, pc_secs = wait_secs left, pc_phase = Tipping\<rparr>]\<rparr>"
    using assms(4) by simp
  moreover have "tp_late (fst (pay_begin u a (ts_payer s))) = tp_late (ts_payer s)"
    by (simp add: pay_begin_def split: prod.splits)
  ultimately show ?thesis using PayStarts assms(2) by (simp add: accounted_new_pay tsys_ok_new_pay assms(1))
next
  case (TipReturns i err)
  then have i: "i < length (ts_pays s)" "\<not> forwarded (ts_pays s) i" "pc_phase (ts_pays s ! i) = Tipping"
    using assms(4) by (auto simp: in_phase_def forwarded_def split: if_splits)
  show ?thesis
  proof (cases err)
    case None
    then have "s' = s\<lparr>ts_pays := set_phase i Selecting (ts_pays s)\<rparr>"
      using assms(4) TipReturns by (auto simp: pay_tipped_def split: if_splits)
    then show ?thesis using TipReturns i assms(1,2) accounted_phase_only [of i s Selecting] tsys_ok_phase [of s i Selecting]
      by (simp add: forwarded_def set_phase_nth)
  next
    case (Some x)
    then have "s' = s\<lparr>ts_payer := pay_cancel i (ts_payer s), ts_pays := set_phase i (Returned (TipError x)) (ts_pays s)\<rparr>"
      using assms(4) TipReturns by (auto simp: pay_tipped_def pay_cancel_def split: if_splits)
    then show ?thesis using TipReturns i assms(1,2)
        accounted_phase [of i s "Returned (TipError x)" "pay_cancel i (ts_payer s)"]
        tsys_ok_cancelled [of s i _ "Returned (TipError x)"] Cancel_waiters(2) [of "tp_matcher (ts_payer s)" i]
      by (simp add: forwarded_def set_phase_nth pay_cancel_def tsys_ok_def Let_def)
  qed
next
  case (PayReadsDone i)
  then obtain r where r: "pay_done i (ts_payer s) = Some r"
    and s': "s' = s\<lparr>ts_pays := set_phase i (Returned r) (ts_pays s)\<rparr>"
    and i: "i < length (ts_pays s)" "\<not> forwarded (ts_pays s) i"
    using assms(4) by (auto simp: in_phase_def forwarded_def split: if_splits option.splits)
  then obtain d where "Done i (tp_matcher (ts_payer s)) = Some d"
    by (auto simp: pay_done_def split: option.splits)
  then have "i \<notin> tw_id ` set (tm_waiters (tp_matcher (ts_payer s)))" by (rule done_not_waiting [OF assms(1)])
  moreover have "\<not> forwarded (set_phase i (Returned r) (ts_pays s)) i"
    using r i by (auto simp: forwarded_def set_phase_nth pay_done_def split: option.splits)
  ultimately show ?thesis using PayReadsDone s' i assms(1,2) accounted_phase_only [of i s "Returned r"] tsys_ok_phase [of s i "Returned r"]
    by simp
next
  case (CtxEnds i why)
  then have "s' = s\<lparr>ts_payer := pay_cancel i (ts_payer s), ts_pays := set_phase i (Ended why) (ts_pays s)\<rparr>"
    and i: "i < length (ts_pays s)" "\<not> forwarded (ts_pays s) i"
    using assms(4) by (auto simp: in_phase_def forwarded_def split: if_splits)
  then show ?thesis using CtxEnds assms(1,2)
      accounted_phase [of i s "Ended why" "pay_cancel i (ts_payer s)"]
      tsys_ok_cancelled [of s i _ "Ended why"] Cancel_waiters(2) [of "tp_matcher (ts_payer s)" i]
    by (simp add: forwarded_def set_phase_nth pay_cancel_def tsys_ok_def Let_def)
next
  case (PayForwards i)
  then obtain why h r where i: "i < length (ts_pays s)" "pc_phase (ts_pays s ! i) = Ended why"
    and f: "pay_forward (pc_uid (ts_pays s ! i)) (pc_atoms (ts_pays s ! i)) i (pc_secs (ts_pays s ! i)) why (ts_payer s) (ts_host s) = (h, r)"
    and s': "s' = s\<lparr>ts_host := h, ts_pays := set_phase i (Returned r) (ts_pays s)\<rparr>"
    using assms(4) by (auto simp: Let_def split: if_splits pay_phase.splits prod.splits)
  have "i \<notin> tw_id ` set (tm_waiters (tp_matcher (ts_payer s)))"
    using assms(1) i by (auto simp: tsys_ok_def Let_def)
  then show ?thesis using PayForwards s' i assms(1,2) accounted_forward [OF assms(1,2) i f]
      tsys_ok_phase [of "s\<lparr>ts_host := h\<rparr>" i "Returned r"]
    by simp
next
  case (TipProgress u n completed err retry)
  obtain p h where "Progress u n completed err retry (ts_payer s) (ts_host s) = (p, h)" by fastforce
  then show ?thesis using accounted_progress [OF assms(1,2)] assms(3,4) TipProgress by auto
qed

lemma accounted_exec:
  assumes "tsys_ok s" "tp_late (ts_payer s) = Some log_late" "\<forall>e \<in> set es. whole_atoms e" "tip_exec es s = Some s'"
  shows "tsys_ok s' \<and> accounted s' = accounted s + mset (map event_key (filter terminal es))"
  using assms
proof (induction es arbitrary: s)
  case Nil
  then show ?case by simp
next
  case (Cons e es)
  then obtain t where t: "pay_step e s = Some t" "tip_exec es t = Some s'" by (auto split: option.splits)
  show ?case using accounted_step [OF Cons.prems(1,2) _ t(1)] Cons.IH [OF _ _ _ t(2)] Cons.prems(3) by auto
qed

section \<open>Properties\<close>

text \<open>
  C26: Bison Relay's progress events carry no attempt id, so outcomes are matched by payee and
  amount: of several payments that wait for the same payee and amount (however the payee's id is
  capitalised), the k-th outcome goes to the k-th payment, every other payment's result is left alone,
  and the payments beyond the outcomes keep waiting in order.
\<close>

theorem outcomes_in_order:
  assumes "matcher_ok m" "tm_queue m (to_lower u, n) = ws" "length rs \<le> length ws"
    and "m' = fold (\<lambda>r m. fst (Resolve u n r m)) rs m"
  shows "tm_queue m' (to_lower u, n) = drop (length rs) ws \<and>
    (\<forall>k < length rs. Done (ws ! k) m' = Some (rs ! k)) \<and>
    (\<forall>i. i \<notin> set (take (length rs) ws) \<longrightarrow> Done i m' = Done i m)"
proof -
  have eq: "matcher.deliver_all u n rs m = m'" unfolding assms(4)
    by (induction rs arbitrary: m) simp_all
  have "distinct ws"
    using assms(1,2) by (auto simp: tm_queue_def matcher_ok_def distinct_map_filter)
  then show ?thesis using matcher.fifo [OF assms(1,2) _ assms(3), unfolded eq] by simp
qed

lemma outcomes_in_order_witness:
  "let m = fst (Expect ''PEER'' 5000 (fst (Expect ''peer'' 5000 NewTipMatcher)))
   in Done 0 (fst (Resolve ''Peer'' 5000 None m)) = Some None \<and> Done 1 (fst (Resolve ''Peer'' 5000 None m)) = None"
proof -
  let ?m = "fst (Expect ''PEER'' 5000 (fst (Expect ''peer'' 5000 NewTipMatcher)))"
  have ok: "matcher_ok ?m" by (simp add: matcher_ok_ops)
  have q: "tm_queue ?m (to_lower ''Peer'', 5000) = [0, 1]" by code_simp
  have "Done 1 ?m = None" by code_simp
  then show ?thesis using outcomes_in_order [OF ok q, of "[None]" "fst (Resolve ''Peer'' 5000 None ?m)"]
    by (simp add: Let_def)
qed


definition deadline_race :: "payer_event list" where
  "deadline_race = [PayStarts ''peer'' 5 None, TipReturns 0 None, TipProgress ''peer'' 5000 False (Some ''again'') True,
     TipProgress ''Peer'' 5000 True None False, CtxEnds 0 DeadlineExceeded, PayForwards 0]"


text \<open>
  A payment whose tip could not be dispatched throws away what its channel holds: an event of
  another flow that matched it in between reaches neither a payment nor the late handler. The path for an
  ended context looks at the channel once more after cancelling; the path for a failed dispatch does not.
\<close>

lemma failed_dispatch_drops_outcome:
  assumes "matcher_ok m" "tp_matcher p = m" "Done i m = Some res" "i < tm_next m"
  shows "pay_tipped i (Some e) p = (p\<lparr>tp_matcher := Cancel i m\<rparr>, Some (TipError e)) \<and>
    Done i (Cancel i m) = Some res \<and> i \<notin> tw_id ` set (tm_waiters (Cancel i m))"
  using assms Cancel_waiters [OF assms(1), of i] by (auto simp: pay_tipped_def Done_def)

definition dispatch_race :: "payer_event list" where
  "dispatch_race = [PayStarts ''peer'' 5 None, TipProgress ''peer'' 5000 True None False, TipReturns 0 (Some ''offline'')]"

lemma failed_dispatch_drops_outcome_witness:
  "map_option (\<lambda>s. (ts_host s, map pc_phase (ts_pays s))) (tip_exec dispatch_race (tip_init [] (Some log_late))) =
     Some ([], [Returned (TipError ''offline'')]) \<and>
   (let p = fst (Progress ''peer'' 5000 True None False (fst (pay_begin ''peer'' 5 (NewTipPayer :: unit tip_payer))) ())
    in pay_tipped 0 (Some ''offline'') p = (p\<lparr>tp_matcher := Cancel 0 (tp_matcher p)\<rparr>, Some (TipError ''offline'')))"
proof -
  let ?p = "fst (Progress ''peer'' 5000 True None False (fst (pay_begin ''peer'' 5 (NewTipPayer :: unit tip_payer))) ())"
  have eq: "tp_matcher ?p = fst (Resolve ''peer'' 5000 None (fst (Expect ''peer'' 5000 NewTipMatcher)))" by code_simp
  have ok: "matcher_ok (tp_matcher ?p)" unfolding eq by (simp add: matcher_ok_ops)
  have d: "Done 0 (tp_matcher ?p) = Some None" "0 < tm_next (tp_matcher ?p)" by code_simp+
  have "map_option (\<lambda>s. (ts_host s, map pc_phase (ts_pays s))) (tip_exec dispatch_race (tip_init [] (Some log_late))) =
     Some ([], [Returned (TipError ''offline'')])" by code_simp
  then show ?thesis using failed_dispatch_drops_outcome [OF ok refl d, of "''offline''"] by (simp add: Let_def)
qed

end
