(* ===== verification/BotKit.thy ===== *)
theory BotKit
  imports TipPayer
begin

text \<open>
  The bindings to a client: \<^verbatim>\<open>botkit/botkit.go\<close>, for a bot that reaches its client over clientrpc, and the sender and
  the tip function of \<^verbatim>\<open>brclient/brclient.go\<close>, for an embedded client. What the bot and the client do when they are called, and
  how a uid is parsed, are arguments: \<open>parse\<close> yields the 32 bytes that \<^verbatim>\<open>ShortID.FromString\<close> reads, or its error.
\<close>

section \<open>A bot that comes late\<close>

text \<open>\<open>None\<close> is disconnected; a call on a bot answers \<open>None\<close> for a nil error.\<close>

type_synonym 'k late_bot = "'k option"

definition LateBot_Set :: "'k option \<Rightarrow> 'k late_bot \<Rightarrow> 'k late_bot" where
  "LateBot_Set k l = k"

definition LateBot_SendPM :: "('k \<Rightarrow> string \<Rightarrow> string \<Rightarrow> string option) \<Rightarrow> 'k late_bot \<Rightarrow> string \<Rightarrow> string \<Rightarrow> string option" where
  "LateBot_SendPM send l user msg = (case l of None \<Rightarrow> Some ''bot not connected'' | Some k \<Rightarrow> send k user msg)"

definition LateBot_PayTip :: "('k \<Rightarrow> byte list \<Rightarrow> int64 \<Rightarrow> int \<Rightarrow> string option) \<Rightarrow> 'k late_bot \<Rightarrow> byte list \<Rightarrow> int64 \<Rightarrow> int \<Rightarrow> string option" where
  "LateBot_PayTip pay l uid amt maxAttempts = (case l of None \<Rightarrow> Some ''bot not connected'' | Some k \<Rightarrow> pay k uid amt maxAttempts)"

section \<open>Sending and paying by uid\<close>

definition tipAttempts :: int where "tipAttempts = 3"

definition parseUID :: "(string \<Rightarrow> string + byte list) \<Rightarrow> string \<Rightarrow> string + byte list" where
  "parseUID parse s = (case parse s of Inl e \<Rightarrow> Inl (''peer uid: '' @ e) | Inr uid \<Rightarrow> Inr uid)"

text \<open>The message goes to the canonical spelling of the uid.\<close>

definition Sender_SendPM :: "(string \<Rightarrow> string + byte list) \<Rightarrow> (string \<Rightarrow> string \<Rightarrow> string option) \<Rightarrow> string \<Rightarrow> string \<Rightarrow> string option" where
  "Sender_SendPM parse send peer msg = (case parseUID parse peer of
     Inl e \<Rightarrow> Some e
   | Inr uid \<Rightarrow> send (hex_of_bytes uid) msg)"

definition botkit_tip :: "(string \<Rightarrow> string + byte list) \<Rightarrow> (byte list \<Rightarrow> int64 \<Rightarrow> int \<Rightarrow> string option) \<Rightarrow> string \<Rightarrow> int64 \<Rightarrow> string option" where
  "botkit_tip parse pay payee atoms = (case parseUID parse payee of
     Inl e \<Rightarrow> Some e
   | Inr uid \<Rightarrow> pay uid atoms tipAttempts)"

record TipProgressEvent =
  tpe_Uid :: "byte list"
  tpe_AmountMatoms :: int64
  tpe_Completed :: bool
  tpe_AttemptErr :: string
  tpe_WillRetry :: bool
  tpe_SequenceId :: "64 word"

definition HandleTipProgress :: "TipProgressEvent option \<Rightarrow> 'h tip_payer \<Rightarrow> 'h \<Rightarrow> 'h tip_payer \<times> 'h" where
  "HandleTipProgress ev p h = (case ev of
     None \<Rightarrow> (p, h)
   | Some e \<Rightarrow>
       let attemptErr = (if tpe_AttemptErr e \<noteq> '''' then Some (tpe_AttemptErr e) else None) in
       Progress (hex_of_bytes (tpe_Uid e)) (tpe_AmountMatoms e) (tpe_Completed e) attemptErr (tpe_WillRetry e) p h)"

section \<open>The embedded client\<close>

definition client_SendPM :: "(string \<Rightarrow> string + byte list) \<Rightarrow> (byte list \<Rightarrow> string \<Rightarrow> string option) \<Rightarrow> string \<Rightarrow> string \<Rightarrow> string option" where
  "client_SendPM parse pm peer msg = (case parse peer of Inl e \<Rightarrow> Some e | Inr uid \<Rightarrow> pm uid msg)"

text \<open>\<open>coins\<close> is \<^verbatim>\<open>dcrutil.Amount.ToCoin\<close>.\<close>

definition client_tip :: "(string \<Rightarrow> string + byte list) \<Rightarrow> (int64 \<Rightarrow> 'f) \<Rightarrow> (byte list \<Rightarrow> 'f \<Rightarrow> int \<Rightarrow> string option) \<Rightarrow> string \<Rightarrow> int64 \<Rightarrow> string option" where
  "client_tip parse coins tip payee atoms = (case parse payee of Inl e \<Rightarrow> Some e | Inr uid \<Rightarrow> tip uid (coins atoms) 1)"

section \<open>A payment and its event\<close>

text \<open>What \<^verbatim>\<open>FromString\<close> documents: the uid is the bytes that the hexadecimal digits of either case stand for.\<close>

definition reads_hex :: "(string \<Rightarrow> string + byte list) \<Rightarrow> bool" where
  "reads_hex parse \<longleftrightarrow> (\<forall>s uid. parse s = Inr uid \<longrightarrow> hex_decode s = Some uid)"

lemma hex_val_range: "hex_val c = Some n \<Longrightarrow> 0 \<le> n \<and> n < 16"
  by (auto simp: hex_val_def Let_def split: if_splits)

definition hex_alphabet :: string where "hex_alphabet = ''0123456789ABCDEFabcdef''"

lemma hex_alphabet_table: "\<forall>c \<in> set hex_alphabet. case hex_val c of None \<Rightarrow> True
    | Some n \<Rightarrow> to_lower_char (hex_digits ! nat n) = to_lower_char c"
  by code_simp

lemma hex_val_alphabet: "hex_val c = Some n \<Longrightarrow> c \<in> set hex_alphabet"
proof -
  assume v: "hex_val c = Some n"
  have i: "(of_char c :: int) = int (of_char c)" by (simp add: of_char_def)
  have "of_char c \<in> {48..<58} \<union> {65..<71} \<union> {97..<103 :: nat}"
    using v unfolding hex_val_def Let_def i by (auto split: if_splits)
  then have "char_of (of_char c :: nat) \<in> set (map char_of ([48..<58] @ [65..<71] @ [97..<103 :: nat]))"
    by (simp only: set_map set_append set_upt image_Un Un_iff) blast
  also have "map char_of ([48..<58] @ [65..<71] @ [97..<103 :: nat]) = hex_alphabet" by (simp add: hex_alphabet_def char_of_def bit_numeral_rec bit_Suc_0_iff)
  finally show ?thesis by simp
qed

lemma hex_char_fold: "hex_val c = Some n \<Longrightarrow> to_lower_char (hex_digits ! nat n) = to_lower_char c"
  using bspec [OF hex_alphabet_table hex_val_alphabet, of c n] by simp

lemma hex_decode_fold: "hex_decode s = Some bs \<Longrightarrow> equal_fold s (hex_of_bytes bs)"
proof (induction s arbitrary: bs rule: hex_decode.induct)
  case (3 c d s)
  then obtain h l cs where v: "hex_val c = Some h" "hex_val d = Some l" "hex_decode s = Some cs"
      "bs = word_of_int (16 * h + l) # cs"
    by (auto split: option.splits)
  have r: "0 \<le> h" "h < 16" "0 \<le> l" "l < 16" using v(1,2) hex_val_range by blast+
  have "uint (word_of_int (16 * h + l) :: byte) = (16 * h + l) mod 2 ^ 8" by (simp only: uint_word_of_int) simp
  also have "\<dots> = 16 * h + l" using r by simp
  finally have "uint (word_of_int (16 * h + l) :: byte) = 16 * h + l" .
  then have "hex_of_bytes bs = (hex_digits ! nat h) # (hex_digits ! nat l) # hex_of_bytes cs"
    using r by (simp add: hex_of_bytes_def v(4))
  moreover have "equal_fold s (hex_of_bytes cs)" using "3.IH" v by simp
  ultimately show ?case using hex_char_fold [OF v(1)] hex_char_fold [OF v(2)] by (simp add: equal_fold_def to_lower_def)
qed (simp_all add: hex_of_bytes_def equal_fold_def)

lemma take_first_snoc: "\<forall>x \<in> set xs. \<not> P x \<Longrightarrow> P y \<Longrightarrow> take_first P (xs @ [y]) = Some (y, xs)"
  by (induction xs) auto

text \<open>
  C40: A payment is settled by its own event, however its payee is spelled. When nothing else waits for the payee and the
  amount, the completed tip-progress event of the uid that the bot was told to pay ends the wait of
  \<^verbatim>\<open>Pay\<close> as settled, although the event names the payee by its bytes and the caller by a hexadecimal string in either case.
\<close>

theorem tip_event_settles:
  assumes "reads_hex parse" "parse payee = Inr uid" "in64 (atoms * 1000)"
    and "matcher_ok (tp_matcher p)" "\<forall>w \<in> set (tm_waiters (tp_matcher p)). \<not> tw_matches (hex_of_bytes uid) (atoms * 1000) w"
    and "pay_begin payee atoms p = (p1, i)" "tpe_Uid ev = uid" "tpe_AmountMatoms ev = atoms * 1000" "tpe_Completed ev"
  shows "pay_done i (fst (HandleTipProgress (Some ev) p1 h)) = Some Settled \<and> snd (HandleTipProgress (Some ev) p1 h) = h"
proof -
  let ?m = "tp_matcher p"
  let ?w = "\<lparr>tw_id = tm_next ?m, tw_uid = payee, tw_matoms = atoms * 1000\<rparr>"
  have p1: "p1 = p\<lparr>tp_matcher := ?m\<lparr>tm_waiters := tm_waiters ?m @ [?w], tm_next := tm_next ?m + 1\<rparr>\<rparr>" "i = tm_next ?m"
    using assms(3,6) by (auto simp: pay_begin_def Expect_def Let_def mul64_def)
  have w: "tw_matches (hex_of_bytes uid) (atoms * 1000) ?w"
    using hex_decode_fold [of payee uid] assms(1,2) by (simp add: tw_matches_def reads_hex_def)
  have "take_first (tw_matches (hex_of_bytes uid) (atoms * 1000)) (tm_waiters ?m @ [?w]) = Some (?w, tm_waiters ?m)"
    by (rule take_first_snoc [OF assms(5) w])
  then have "Resolve (hex_of_bytes uid) (atoms * 1000) None (tp_matcher p1) =
      ((tp_matcher p1)\<lparr>tm_waiters := tm_waiters ?m, tm_done := tm_done ?m @ [(i, None)]\<rparr>, True)"
    by (simp add: p1 Resolve_def)
  moreover have "map_of (tm_done ?m) i = None"
    using assms(4) by (auto simp: matcher_ok_def p1(2) map_of_eq_None_iff)
  ultimately show ?thesis using assms(7-9)
    by (simp add: HandleTipProgress_def Let_def Progress_def progress_outcome_def pay_done_def Done_def map_add_def)
qed

lemma tip_event_settles_witness:
  "case pay_begin ''AB0f'' 7 (NewTipPayer :: unit tip_payer) of (p1, i) \<Rightarrow>
     pay_done i (fst (HandleTipProgress (Some \<lparr>tpe_Uid = [171, 15], tpe_AmountMatoms = 7000, tpe_Completed = True, tpe_AttemptErr = '''',
       tpe_WillRetry = False, tpe_SequenceId = 1\<rparr>) p1 ())) = Some Settled"
proof -
  let ?parse = "\<lambda>s. case hex_decode s of None \<Rightarrow> Inl ''bad'' | Some b \<Rightarrow> Inr b"
  have r: "reads_hex ?parse" by (auto simp: reads_hex_def split: option.splits)
  have p: "?parse ''AB0f'' = Inr [171, 15]" by (simp add: hex_val_def)
  have m: "matcher_ok (tp_matcher (NewTipPayer :: unit tip_payer))" by (simp add: NewTipPayer_def NewTipMatcher_def matcher_ok_def)
  have w: "\<forall>w \<in> set (tm_waiters (tp_matcher (NewTipPayer :: unit tip_payer))). \<not> tw_matches (hex_of_bytes [171, 15]) (7 * 1000) w"
    by (simp add: NewTipPayer_def NewTipMatcher_def)
  obtain p1 i where b: "pay_begin ''AB0f'' 7 (NewTipPayer :: unit tip_payer) = (p1, i)" by fastforce
  from tip_event_settles [OF r p _ m w b, of "\<lparr>tpe_Uid = [171, 15], tpe_AmountMatoms = 7000, tpe_Completed = True, tpe_AttemptErr = '''',
       tpe_WillRetry = False, tpe_SequenceId = 1\<rparr>" "()"] b show ?thesis by (simp add: range64)
qed

end
