(* ===== verification/Bridge.thy ===== *)
theory Bridge
  imports DailyCap Gate Router BotKit
begin

text \<open>
  The bridge as a whole, \<^verbatim>\<open>bridge/bridge.go\<close>, and its attachment to an embedded client, \<^verbatim>\<open>Attach\<close> of
  \<^verbatim>\<open>brclient/brclient.go\<close>: the settings and the gate of \<open>Gate\<close>, the spend log, and the router, whose \<^verbatim>\<open>Allow\<close> asks the
  settings of the moment. Late outcomes of tips go from the payer to the spend log.
\<close>

section \<open>Configuration and state\<close>

text \<open>Of the sender and the payer, \<^verbatim>\<open>New\<close> looks at whether they are given.\<close>

record bridge_config =
  bg_DataDir :: string
  bg_Sender :: bool
  bg_Payer :: bool
  bg_ListenAddr :: string
  bg_Name :: string
  bg_TTL :: duration
  bg_ChunkSize :: int
  bg_Assembler :: asm_config

record ('d, 'm) bridge =
  br_cfg :: bridge_config
  br_conf :: "'d bridge_conf"
  br_spend :: spend_log
  br_router :: "'m router"
  br_now :: instant

definition bridge_router :: "bridge_config \<Rightarrow> 'm router" where
  "bridge_router cfg = NewRouter \<lparr>rc_accept = False, rc_allow = None, rc_ttl = bg_TTL cfg, rc_chunkSize = bg_ChunkSize cfg,
     rc_assembler = bg_Assembler cfg, rc_inboxSize = 0, rc_idleTimeout = 0, rc_maxSessions = 0\<rparr>"

definition new_conf :: "(Settings \<times> 'd option) plain_file \<Rightarrow> 'd bridge_conf" where
  "new_conf f = \<lparr>bc_settings = withDefaults no_settings, bc_hash = None, bc_prefixes = [], bc_denied = None, bc_bots = [],
     bc_listening = False, bc_closed = False, bc_file = f\<rparr>"

definition new_spend :: "SpendEntry list plain_file \<Rightarrow> spend_log" where
  "new_spend f = \<lparr>sp_entries = [], sp_seq = 0, sp_file = f\<rparr>"

definition bridge_New :: "instant \<Rightarrow> (Settings \<times> 'd option) plain_file \<Rightarrow> SpendEntry list plain_file \<Rightarrow> bridge_config \<Rightarrow>
    string + ('d, 'm) bridge" where
  "bridge_New now settings spend cfg =
     (if bg_DataDir cfg = '''' then Inl ''brmcp bridge: Config.DataDir is required''
      else if \<not> bg_Sender cfg then Inl ''brmcp bridge: Config.Sender is required''
      else if \<not> bg_Payer cfg then Inl ''brmcp bridge: Config.Payer is required''
      else
        let cfg = (if bg_Name cfg = '''' then cfg\<lparr>bg_Name := ''brmcp-bridge''\<rparr> else cfg) in
        case load_settings (new_conf settings) of
          Inl _ \<Rightarrow> Inl ''parse settings''
        | Inr conf \<Rightarrow> (case load_spend (new_spend spend) of
            Inl _ \<Rightarrow> Inl ''parse spend log''
          | Inr log \<Rightarrow> Inr \<lparr>br_cfg = cfg, br_conf = conf, br_spend = log, br_router = bridge_router cfg, br_now = now\<rparr>))"

text \<open>The router asks \<^verbatim>\<open>b.botAllowed\<close> for every message.\<close>

definition with_allow :: "('d, 'm) bridge \<Rightarrow> 'm router" where
  "with_allow b = (br_router b)\<lparr>r_cfg := (r_cfg (br_router b))\<lparr>rc_allow := Some (botAllowed (br_conf b))\<rparr>\<rparr>"

definition bridge_HandlePM :: "(byte list \<Rightarrow> 'm option) \<Rightarrow> bool \<Rightarrow> string \<Rightarrow> string \<Rightarrow> ('d, 'm) bridge \<Rightarrow> ('d, 'm) bridge" where
  "bridge_HandlePM dec lucky peerUID msg b = b\<lparr>br_router := HandlePM dec lucky (with_allow b) (peerUID, msg, br_now b)\<rparr>"

text \<open>The links that \<^verbatim>\<open>Close\<close> resets are returned.\<close>

definition bridge_Close :: "('d, 'm) bridge \<Rightarrow> ('d, 'm) bridge \<times> nat list" where
  "bridge_Close b =
     (if bc_closed (br_conf b) then (b, [])
      else case Close (br_conf b) of (conf, links) \<Rightarrow> (b\<lparr>br_conf := conf, br_router := router_Close (br_router b)\<rparr>, links))"

definition bridge_Start :: "bool \<Rightarrow> ('d, 'm) bridge \<Rightarrow> bool \<times> ('d, 'm) bridge" where
  "bridge_Start bound b = (case Start (bg_ListenAddr (br_cfg b) \<noteq> '''') bound (br_conf b) of (ok, conf) \<Rightarrow> (ok, b\<lparr>br_conf := conf\<rparr>))"

section \<open>Attaching to a client\<close>

definition late_handler :: "string \<Rightarrow> int64 \<Rightarrow> string option \<Rightarrow> ('d, 'm) bridge \<Rightarrow> ('d, 'm) bridge" where
  "late_handler uid atoms err b = b\<lparr>br_spend := fst (ResolveSpend (br_now b) uid atoms err (br_spend b))\<rparr>"

text \<open>The payer follows the client's tip progress from the start; its late handler comes with the bridge.\<close>

definition Attach :: "instant \<Rightarrow> (Settings \<times> 'd option) plain_file \<Rightarrow> SpendEntry list plain_file \<Rightarrow> bridge_config \<Rightarrow>
    string + ('d, 'm) bridge tip_payer \<times> ('d, 'm) bridge" where
  "Attach now settings spend cfg =
     (case bridge_New now settings spend (cfg\<lparr>bg_Sender := True, bg_Payer := True\<rparr>) of
        Inl e \<Rightarrow> Inl e
      | Inr b \<Rightarrow> Inr (SetLate (Some late_handler) NewTipPayer, b))"

section \<open>Lemmas\<close>

lemma scale_exact: "in64 (n * 1000) \<Longrightarrow> rem64 (n * 1000) 1000 = 0 \<and> quot64 (n * 1000) 1000 = n"
proof -
  assume r: "in64 (n * 1000)"
  have "\<bar>n * 1000\<bar> = \<bar>n\<bar> * 1000" by (simp add: abs_mult)
  then have "\<bar>n * 1000\<bar> mod 1000 = 0" "\<bar>n * 1000\<bar> div 1000 = \<bar>n\<bar>" by simp_all
  moreover have "sgn (n * 1000) * sgn 1000 * \<bar>n\<bar> = n" by (simp add: sgn_mult mult.commute [of _ "\<bar>n\<bar>"] abs_mult_sgn)
  moreover have "in64 n" using r by (simp add: range64)
  ultimately show ?thesis by (simp add: rem64_def quot64_def)
qed

lemma update_first_split:
  "\<forall>x \<in> set xs. \<not> P x \<Longrightarrow> P y \<Longrightarrow> update_first P f (xs @ y # ys) = Some (xs @ f y # ys)"
  by (induction xs) auto

lemma resolve_late_entry:
  assumes "sp_entries s = es1 @ e # es2" "\<forall>x \<in> set es1. \<not> late_match uid atoms x" "late_match uid atoms e"
  shows "sp_entries (fst (ResolveSpend now uid atoms err s)) = prune now (es1 @ late_outcome err e # es2)"
  using assms update_first_split [of es1 "late_match uid atoms" e "late_outcome err" es2]
  by (simp add: ResolveSpend_def persistSpendLocked_def Let_def split_beta)

lemma attach_payer: "Attach now settings spend cfg = Inr (p, b) \<Longrightarrow> p = SetLate (Some late_handler) NewTipPayer"
  by (auto simp: Attach_def split: sum.splits)

section \<open>Properties\<close>

text \<open>
  C39: An outcome that comes too late still reaches the spend log. On an attached bridge, when nobody waits any more for a tip of an
  amount to a bot, the terminal event of that tip marks the first pending entry of the bot and the amount, whatever the case
  of its uid: as paid, or as failed with the reason, which also takes it out of the daily cap; all the other entries
  are kept, up to the pruning that every write of the log does.
\<close>

theorem late_outcome_recorded:
  assumes "tp_late p = Some late_handler" "in64 (atoms * 1000)"
    and "\<forall>w \<in> set (tm_waiters (tp_matcher p)). \<not> tw_matches uid (atoms * 1000) w"
    and "sp_entries (br_spend b) = es1 @ e # es2" "\<forall>x \<in> set es1. \<not> late_match uid atoms x" "late_match uid atoms e"
    and "Progress uid (atoms * 1000) completed err False p b = (p', b')"
  shows "sp_entries (br_spend b') = prune (br_now b) (es1 @ late_outcome (progress_outcome completed err) e # es2) \<and>
    (if completed then se_status (late_outcome (progress_outcome completed err) e) = spendPaid
     else \<not> countsTowardCap (se_status (late_outcome (progress_outcome completed err) e)))"
proof -
  have "take_first (tw_matches uid (atoms * 1000)) (tm_waiters (tp_matcher p)) = None" using assms(3) by (simp add: take_first_None)
  then have "b' = late_handler uid atoms (progress_outcome completed err) b"
    using assms(1,7) scale_exact [OF assms(2)] by (auto simp: Progress_def Resolve_def resolveLate_def Let_def)
  then have "sp_entries (br_spend b') = prune (br_now b) (es1 @ late_outcome (progress_outcome completed err) e # es2)"
    using resolve_late_entry [OF assms(4-6)] by (simp add: late_handler_def)
  then show ?thesis
    by (cases completed; cases err) (auto simp: progress_outcome_def late_outcome_def countsTowardCap_def spendFailed_def
        spendPending_def spendPaid_def)
qed

text \<open>
  A bot that the user removes from the settings is cut off. Whatever the bridge and its router hold, every message from a uid
  that is on no entry of the settings' list of bots at that moment, in any case, leaves sessions, inboxes, the
  reassembly buffer, the settings and the spend log as they are, and so does a sequence of such messages.
\<close>

lemma revoked_bots_ignored:
  assumes "\<forall>pm \<in> set pms. \<not> (\<exists>entry \<in> set (AllowedBots (bc_settings (br_conf b))). equal_fold entry (fst pm))"
  shows "with_allow (fold (\<lambda>(uid, msg). bridge_HandlePM dec lucky uid msg) pms b) = with_allow b \<and>
    br_conf (fold (\<lambda>(uid, msg). bridge_HandlePM dec lucky uid msg) pms b) = br_conf b \<and>
    br_spend (fold (\<lambda>(uid, msg). bridge_HandlePM dec lucky uid msg) pms b) = br_spend b"
  using assms
proof (induction pms arbitrary: b)
  case (Cons pm pms)
  obtain uid msg where pm: "pm = (uid, msg)" by fastforce
  have "\<not> botAllowed (br_conf b) uid" using Cons.prems by (simp add: pm botAllowed_def allowsBot_def)
  then have h: "bridge_HandlePM dec lucky uid msg b = b\<lparr>br_router := with_allow b\<rparr>"
    using disallowed_peer_ignored [of msg "with_allow b" uid dec lucky "br_now b"]
    by (simp add: bridge_HandlePM_def with_allow_def)
  have w: "with_allow (b\<lparr>br_router := with_allow b\<rparr>) = with_allow b" by (simp add: with_allow_def)
  show ?case using Cons.IH [of "b\<lparr>br_router := with_allow b\<rparr>"] Cons.prems by (simp add: pm h w)
qed simp

text \<open>A bridge whose log holds one pending payment of five atoms.\<close>

definition demo_entry :: SpendEntry where
  "demo_entry = \<lparr>se_ts = 0, se_bot = ''AB'', se_tool = ''fortune'', se_rail = ''tip'', se_atoms = 5, se_status = spendPending, se_err = '''', se_seq = 1\<rparr>"

definition demo_files :: "(Settings \<times> string option) plain_file \<times> SpendEntry list plain_file" where
  "demo_files = (\<lparr>pf_file = Absent, pf_script = []\<rparr>, \<lparr>pf_file = Holds [demo_entry], pf_script = []\<rparr>)"

definition demo_bridge_config :: bridge_config where
  "demo_bridge_config = \<lparr>bg_DataDir = ''/data'', bg_Sender = False, bg_Payer = False, bg_ListenAddr = '''', bg_Name = '''', bg_TTL = 0,
     bg_ChunkSize = 0, bg_Assembler = asm_withDefaults (rc_assembler demo_rcfg)\<rparr>"

lemma late_outcome_recorded_witness:
  "case Attach 10 (fst demo_files) (snd demo_files) demo_bridge_config of Inl _ \<Rightarrow> False
   | Inr (p, b :: (string, nat) bridge) \<Rightarrow>
       (case pay_begin ''AB'' 5 p of (p1, i) \<Rightarrow>
         sp_entries (br_spend (snd (Progress ''ab'' 5000 False (Some ''no route'') False (pay_cancel i p1) b))) =
           [demo_entry\<lparr>se_status := spendFailed, se_err := ''no route''\<rparr>])"
proof -
  obtain p and b :: "(string, nat) bridge" where a: "Attach 10 (fst demo_files) (snd demo_files) demo_bridge_config = Inr (p, b)"
    and b: "br_spend b = \<lparr>sp_entries = [demo_entry], sp_seq = 0, sp_file = snd demo_files\<rparr>" "br_now b = 10"
    by (auto simp: Attach_def bridge_New_def demo_bridge_config_def demo_files_def load_settings_def load_spend_def new_conf_def
        new_spend_def Let_def split_beta)
  have p: "p = SetLate (Some late_handler) NewTipPayer" by (rule attach_payer [OF a])
  obtain p1 i where b1: "pay_begin ''AB'' 5 p = (p1, i)" by fastforce
  then have c: "tp_late (pay_cancel i p1) = Some late_handler" "tm_waiters (tp_matcher (pay_cancel i p1)) = []"
    by (auto simp: p pay_begin_def Expect_def Let_def pay_cancel_def Cancel_def SetLate_def NewTipPayer_def NewTipMatcher_def)
  have m: "late_match ''ab'' 5 demo_entry" by code_simp
  obtain p' b' where r: "Progress ''ab'' 5000 False (Some ''no route'') False (pay_cancel i p1) b = (p', b')" by fastforce
  have "sp_entries (br_spend b') = prune (br_now b) ([] @ late_outcome (progress_outcome False (Some ''no route'')) demo_entry # [])"
    using late_outcome_recorded [OF c(1), of 5 "''ab''" b "[]" demo_entry "[]" False "Some ''no route''" p' b'] c(2) b(1) r m
    by (simp add: range64)
  also have "\<dots> = [demo_entry\<lparr>se_status := spendFailed, se_err := ''no route''\<rparr>]"
    by (simp add: prune_def spendKeep_def late_outcome_def progress_outcome_def demo_entry_def)
  finally show ?thesis using a b1 r by simp
qed

lemma revoked_bots_ignored_witness:
  "case Attach 10 (fst demo_files) (snd demo_files) demo_bridge_config of Inl _ \<Rightarrow> False
   | Inr (p, b :: (string, nat) bridge) \<Rightarrow>
       with_allow (fold (\<lambda>(uid, msg). bridge_HandlePM (\<lambda>_. Some 7) True uid msg) [(''ab'', SampleEnvelope), (''ab'', ''hi'')] b) = with_allow b"
proof -
  obtain p and b :: "(string, nat) bridge" where a: "Attach 10 (fst demo_files) (snd demo_files) demo_bridge_config = Inr (p, b)"
    and b: "AllowedBots (bc_settings (br_conf b)) = []"
    by (auto simp: Attach_def bridge_New_def demo_bridge_config_def demo_files_def load_settings_def load_spend_def new_conf_def
        new_spend_def Let_def split_beta withDefaults_def no_settings_def)
  show ?thesis using a revoked_bots_ignored [of "[(''ab'', SampleEnvelope), (''ab'', ''hi'')]" b "\<lambda>_. Some 7" True] b by simp
qed

end
