(* ===== verification/DirTypes.thy ===== *)
theory DirTypes
  imports GoLib Persist
begin

text \<open>
  The directory's data, \<^verbatim>\<open>directory/types.go\<close>, \<^verbatim>\<open>directory/store.go\<close> and the policy of
  \<^verbatim>\<open>directory/service.go\<close>, and the generic \<^verbatim>\<open>jsonStore\<close>: a string-keyed map written synchronously to one file.
  A JSON object that the code only carries around is its text.
\<close>

section \<open>Records\<close>

definition MaxDescriptionLen :: nat where "MaxDescriptionLen = 1024"
definition MaxTags :: nat where "MaxTags = 16"
definition MaxTagLen :: nat where "MaxTagLen = 32"

record TestSpec =
  ts_tool :: string
  ts_args :: "string option"
  ts_max :: int64

record RegisterIn =
  ri_description :: string
  ri_tags :: "string list"
  ri_test :: TestSpec

record StatusOut =
  so_state :: string
  so_required :: int64
  so_balance :: int64
  so_shortfall :: int64
  so_fee :: int64
  so_budget :: int64
  so_expires :: int64
  so_note :: string

definition status_zero :: "string \<Rightarrow> StatusOut" where
  "status_zero st = \<lparr>so_state = st, so_required = 0, so_balance = 0, so_shortfall = 0, so_fee = 0, so_budget = 0,
     so_expires = 0, so_note = ''''\<rparr>"

text \<open>The stages of a registration, in the order of the pipeline.\<close>

datatype RegState = RegAwaitingFunding | RegCrawling | RegTesting | RegPendingReview

fun stage :: "RegState \<Rightarrow> nat" where
  "stage RegAwaitingFunding = 0"
| "stage RegCrawling = 1"
| "stage RegTesting = 2"
| "stage RegPendingReview = 3"

lemma stage_inj: "stage a = stage b \<Longrightarrow> a = b"
  by (cases a; cases b) simp_all

instantiation RegState :: linorder
begin

definition less_eq_RegState :: "RegState \<Rightarrow> RegState \<Rightarrow> bool" where
  "less_eq_RegState a b \<longleftrightarrow> stage a \<le> stage b"

definition less_RegState :: "RegState \<Rightarrow> RegState \<Rightarrow> bool" where
  "less_RegState a b \<longleftrightarrow> stage a < stage b"

instance
  by standard (auto simp: less_eq_RegState_def less_RegState_def stage_inj)

end

fun state_name :: "RegState \<Rightarrow> string" where
  "state_name RegAwaitingFunding = ''awaiting_funding''"
| "state_name RegCrawling = ''crawling''"
| "state_name RegTesting = ''testing''"
| "state_name RegPendingReview = ''pending_review''"

definition StateNone :: string where "StateNone = ''none''"
definition StateListed :: string where "StateListed = ''listed''"
definition StateRejected :: string where "StateRejected = ''rejected''"

record Registration =
  r_state :: RegState
  r_description :: string
  r_tags :: "string list"
  r_test :: TestSpec
  r_fee :: int64
  r_budget :: int64
  r_callKey :: string
  r_paid :: int64
  r_renewal :: bool
  r_created :: int64
  r_catalog :: "string option"
  r_outcome :: string
  r_err :: string
  r_latency :: int64

record Listing =
  l_description :: string
  l_tags :: "string list"
  l_test :: TestSpec
  l_catalog :: "string option"
  l_checked :: int64
  l_verified :: int64
  l_latency :: int64
  l_approved :: int64
  l_renewed :: int64
  l_expires :: int64

record Entry =
  e_Live :: "Listing option"
  e_Reg :: "Registration option"
  e_Flag :: string

definition no_entry :: Entry where "no_entry = \<lparr>e_Live = None, e_Reg = None, e_Flag = ''''\<rparr>"

record Peer =
  p_PubKey :: string
  p_AddedAt :: int64
  p_LastVerifiedAt :: int64

definition no_peer :: Peer where "no_peer = \<lparr>p_PubKey = '''', p_AddedAt = 0, p_LastVerifiedAt = 0\<rparr>"

datatype LeadState = LeadBlank | LeadNew | LeadPursuing | LeadInvited | LeadConverted

record Lead =
  ld_ProviderUID :: string
  ld_PeerUID :: string
  ld_Description :: string
  ld_Tags :: "string list"
  ld_State :: LeadState
  ld_Note :: string
  ld_CreatedAt :: int64
  ld_UpdatedAt :: int64

definition no_lead :: Lead where
  "no_lead = \<lparr>ld_ProviderUID = '''', ld_PeerUID = '''', ld_Description = '''', ld_Tags = [], ld_State = LeadBlank,
     ld_Note = '''', ld_CreatedAt = 0, ld_UpdatedAt = 0\<rparr>"

record Policy =
  py_admins :: "string list"
  py_fee :: int64
  py_snapshotPrice :: int64
  py_searchPrice :: int64
  py_expiryDays :: int64
  py_callsPerMinute :: int64
  py_budgetMax :: int64
  py_recrawlHours :: int64
  py_name :: string

definition policy_withDefaults :: "Policy \<Rightarrow> Policy" where
  "policy_withDefaults p =
     p\<lparr>py_fee := (if py_fee p \<le> 0 then 100000 else py_fee p),
       py_snapshotPrice := (if py_snapshotPrice p \<le> 0 then 10000 else py_snapshotPrice p),
       py_expiryDays := (if py_expiryDays p \<le> 0 then 30 else py_expiryDays p),
       py_budgetMax := (if py_budgetMax p \<le> 0 then 10000000 else py_budgetMax p),
       py_recrawlHours := (if py_recrawlHours p \<le> 0 then 24 else py_recrawlHours p),
       py_name := (if py_name p = '''' then ''brmcpdir'' else py_name p)\<rparr>"

section \<open>The store\<close>

record 'v json_store =
  js_m :: "(string, 'v) gomap"
  js_file :: "(string, 'v) gomap store"

definition openJSONStore :: "(string, 'v) gomap store \<Rightarrow> open_error + 'v json_store" where
  "openJSONStore s = (case open_file [] s of
     Inl e \<Rightarrow> Inl e
   | Inr m \<Rightarrow> Inr \<lparr>js_m = m, js_file = s\<rparr>)"

definition js_persistLocked :: "'v json_store \<Rightarrow> io_error option \<times> 'v json_store" where
  "js_persistLocked s = (let (e, f) = persist (js_m s) (js_file s) in (e, s\<lparr>js_file := f\<rparr>))"

definition js_get :: "string \<Rightarrow> 'v json_store \<Rightarrow> 'v option" where
  "js_get k s = map_of (js_m s) k"

definition js_put :: "string \<Rightarrow> 'v \<Rightarrow> 'v json_store \<Rightarrow> io_error option \<times> 'v json_store" where
  "js_put k v s = js_persistLocked (s\<lparr>js_m := gput k v (js_m s)\<rparr>)"

text \<open>\<^verbatim>\<open>mutate\<close>: the callback's error comes back as \<open>Inl\<close> and nothing is stored; an error of the disk as
  \<open>Inr\<close>, with the new value in the map all the same.\<close>

definition js_mutate :: "'v \<Rightarrow> string \<Rightarrow> ('v \<Rightarrow> 'e + 'v) \<Rightarrow> 'v json_store \<Rightarrow> ('e + io_error) option \<times> 'v json_store" where
  "js_mutate zero k fn s = (case fn (case map_of (js_m s) k of None \<Rightarrow> zero | Some v \<Rightarrow> v) of
     Inl e \<Rightarrow> (Some (Inl e), s)
   | Inr v \<Rightarrow> (case js_put k v s of (err, s') \<Rightarrow> (map_option Inr err, s')))"

definition js_delete :: "string \<Rightarrow> 'v json_store \<Rightarrow> io_error option \<times> 'v json_store" where
  "js_delete k s = (case map_of (js_m s) k of
     None \<Rightarrow> (None, s)
   | Some _ \<Rightarrow> js_persistLocked (s\<lparr>js_m := gdel k (js_m s)\<rparr>))"

definition js_all :: "'v json_store \<Rightarrow> (string, 'v) gomap" where
  "js_all s = js_m s"

section \<open>Laws\<close>

definition js_ok :: "'v json_store \<Rightarrow> bool" where
  "js_ok s \<longleftrightarrow> gmap_ok (js_m s)"

text \<open>The value an operation works on.\<close>

definition js_val :: "'v \<Rightarrow> 'v json_store \<Rightarrow> string \<Rightarrow> 'v" where
  "js_val zero s k = (case map_of (js_m s) k of None \<Rightarrow> zero | Some v \<Rightarrow> v)"

lemma js_persist_simps [simp]:
  "js_m (snd (js_persistLocked s)) = js_m s" "fst (js_persistLocked s) = fst (persist (js_m s) (js_file s))"
  "js_file (snd (js_persistLocked s)) = snd (persist (js_m s) (js_file s))"
  by (simp_all add: js_persistLocked_def Let_def split: prod.splits)

lemma js_put_simps [simp]: "js_m (snd (js_put k v s)) = gput k v (js_m s)"
  by (simp add: js_put_def)

lemma js_delete_simps [simp]: "map_of (js_m (snd (js_delete k s))) = (map_of (js_m s))(k := None)"
  by (auto simp: js_delete_def fun_eq_iff split: option.splits)

lemma js_mutate_refused: "fn (js_val zero s k) = Inl e \<Longrightarrow> js_mutate zero k fn s = (Some (Inl e), s)"
  by (simp add: js_mutate_def js_val_def)

lemma js_mutate_done:
  "fn (js_val zero s k) = Inr v \<Longrightarrow> js_m (snd (js_mutate zero k fn s)) = gput k v (js_m s) \<and>
    fst (js_mutate zero k fn s) = map_option Inr (fst (js_put k v s))"
  by (simp add: js_mutate_def js_val_def split_beta)

lemma js_mutate_m:
  "map_of (js_m (snd (js_mutate zero k fn s))) = (case fn (js_val zero s k) of
     Inl _ \<Rightarrow> map_of (js_m s) | Inr v \<Rightarrow> (map_of (js_m s))(k \<mapsto> v))"
  using js_mutate_done [of fn zero s k] js_mutate_refused [of fn zero s k] by (auto split: sum.splits)

lemma js_ok_ops [simp, intro]:
  "js_ok s \<Longrightarrow> js_ok (snd (js_put k v s))" "js_ok s \<Longrightarrow> js_ok (snd (js_delete k s))"
  "js_ok s \<Longrightarrow> js_ok (snd (js_mutate zero k fn s))"
proof -
  assume ok: "js_ok s"
  show "js_ok (snd (js_put k v s))" using ok by (simp add: js_ok_def)
  show "js_ok (snd (js_delete k s))" using ok by (auto simp: js_ok_def js_delete_def split: option.splits)
  show "js_ok (snd (js_mutate zero k fn s))"
    using ok by (simp add: js_ok_def js_mutate_def split_beta split: sum.splits)
qed

text \<open>A nil answer means that the file restores the map; an error leaves the file as it was.\<close>

lemma js_put_durable:
  "fst (js_put k v s) = None \<Longrightarrow> openJSONStore (js_file (snd (js_put k v s))) =
      Inr \<lparr>js_m = gput k v (js_m s), js_file = js_file (snd (js_put k v s))\<rparr>"
  by (simp add: openJSONStore_def js_put_def open_file_def persist_atomic)

text \<open>A property of every key and value of a store, now and after a restart from its file.\<close>

definition store_all :: "(string \<Rightarrow> 'v \<Rightarrow> bool) \<Rightarrow> 'v json_store \<Rightarrow> bool" where
  "store_all P s \<longleftrightarrow> gmap_ok (js_m s) \<and> (\<forall>k v. map_of (js_m s) k = Some v \<longrightarrow> P k v) \<and>
     (\<forall>m. st_file (js_file s) = Holds m \<longrightarrow> gmap_ok m \<and> (\<forall>k v. map_of m k = Some v \<longrightarrow> P k v))"

lemma store_all_ok: "store_all P s \<Longrightarrow> js_ok s"
  by (simp add: store_all_def js_ok_def)

lemma store_all_get: "store_all P s \<Longrightarrow> js_get k s = Some v \<Longrightarrow> P k v"
  by (simp add: store_all_def js_get_def)

lemma store_all_val: "store_all P s \<Longrightarrow> P k zero \<Longrightarrow> P k (js_val zero s k)"
  by (auto simp: store_all_def js_val_def split: option.splits)

lemma store_all_persist:
  "gmap_ok (js_m s) \<Longrightarrow> (\<forall>k v. map_of (js_m s) k = Some v \<longrightarrow> P k v) \<Longrightarrow>
   (\<forall>m. st_file (js_file s) = Holds m \<longrightarrow> gmap_ok m \<and> (\<forall>k v. map_of m k = Some v \<longrightarrow> P k v)) \<Longrightarrow> store_all P (snd (js_persistLocked s))"
  by (auto simp: store_all_def persist_atomic split: if_splits)

lemma store_all_ops [intro]:
  "store_all P s \<Longrightarrow> P k v \<Longrightarrow> store_all P (snd (js_put k v s))"
  "store_all P s \<Longrightarrow> store_all P (snd (js_delete k s))"
  "openJSONStore (js_file s) = Inr s' \<Longrightarrow> store_all P s \<Longrightarrow> store_all P s'"
proof -
  show "store_all P s \<Longrightarrow> P k v \<Longrightarrow> store_all P (snd (js_put k v s))"
    unfolding js_put_def by (rule store_all_persist) (auto simp: store_all_def split: if_splits)
  have "store_all P (snd (js_persistLocked (s\<lparr>js_m := gdel k (js_m s)\<rparr>)))" if "store_all P s"
    using that by (intro store_all_persist) (auto simp: store_all_def split: if_splits)
  then show "store_all P s \<Longrightarrow> store_all P (snd (js_delete k s))"
    by (auto simp: js_delete_def split: option.splits)
  show "openJSONStore (js_file s) = Inr s' \<Longrightarrow> store_all P s \<Longrightarrow> store_all P s'"
    by (auto simp: openJSONStore_def open_file_def store_all_def split: disk_file.splits)
qed

lemma store_all_mutate:
  "store_all P s \<Longrightarrow> (\<And>v. fn (js_val zero s k) = Inr v \<Longrightarrow> P k v) \<Longrightarrow> store_all P (snd (js_mutate zero k fn s))"
  by (cases "fn (js_val zero s k)") (auto simp: js_mutate_def js_val_def [symmetric] split_beta)

lemma store_all_open: "openJSONStore f = Inr s \<Longrightarrow> st_file f = Absent \<Longrightarrow> store_all P s"
  by (auto simp: openJSONStore_def open_file_def store_all_def)

end
