(* ===== verification/SpendJournal.thy ===== *)
theory SpendJournal
  imports DirTypes
begin

text \<open>
  The directory's journal of outbound payments, \<^verbatim>\<open>spendJournal\<close> of \<^verbatim>\<open>directory/client.go\<close>: a payment is
  recorded before the rail is asked, and taken out again, by its position, when the rail definitely failed.
\<close>

section \<open>The journal\<close>

record dir_spend =
  ds_ts :: int64
  ds_uid :: string
  ds_tool :: string
  ds_atoms :: int64

record spend_journal =
  sj_entries :: "dir_spend list"
  sj_store :: "dir_spend list store"

definition openSpendJournal :: "dir_spend list store \<Rightarrow> open_error + spend_journal" where
  "openSpendJournal s = (case open_file [] s of
     Inl e \<Rightarrow> Inl e
   | Inr es \<Rightarrow> Inr \<lparr>sj_entries = es, sj_store = s\<rparr>)"

definition sj_persistLocked :: "spend_journal \<Rightarrow> io_error option \<times> spend_journal" where
  "sj_persistLocked j = (let (e, s) = persist (sj_entries j) (sj_store j) in (e, j\<lparr>sj_store := s\<rparr>))"

text \<open>The position and the error of the write; the caller pays even when the write failed.\<close>

definition record_spend :: "dir_spend \<Rightarrow> spend_journal \<Rightarrow> (nat \<times> io_error option) \<times> spend_journal" where
  "record_spend e j =
     (let (err, j) = sj_persistLocked (j\<lparr>sj_entries := sj_entries j @ [e]\<rparr>) in ((length (sj_entries j) - 1, err), j))"

definition remove_spend :: "nat \<Rightarrow> spend_journal \<Rightarrow> spend_journal" where
  "remove_spend token j =
     (if length (sj_entries j) \<le> token then j
      else snd (sj_persistLocked (j\<lparr>sj_entries := take token (sj_entries j) @ drop (token + 1) (sj_entries j)\<rparr>)))"

definition all_spends :: "spend_journal \<Rightarrow> dir_spend list" where
  "all_spends j = sj_entries j"

section \<open>Laws\<close>

lemma sj_persist_simps [simp]:
  "sj_entries (snd (sj_persistLocked j)) = sj_entries j"
  "fst (sj_persistLocked j) = fst (persist (sj_entries j) (sj_store j))"
  "sj_store (snd (sj_persistLocked j)) = snd (persist (sj_entries j) (sj_store j))"
  by (simp_all add: sj_persistLocked_def Let_def split: prod.splits)

lemma record_spend_simps [simp]:
  "sj_entries (snd (record_spend e j)) = sj_entries j @ [e]" "fst (fst (record_spend e j)) = length (sj_entries j)"
  by (simp_all add: record_spend_def Let_def split_beta)

lemma remove_spend_entries:
  "sj_entries (remove_spend n j) = take n (sj_entries j) @ drop (n + 1) (sj_entries j)"
  by (simp add: remove_spend_def)

text \<open>Taking the newest entry out again undoes the record.\<close>

lemma remove_newest: "sj_entries (remove_spend (length es) j) = es @ ys" if "sj_entries j = es @ e # ys"
  using that by (simp add: remove_spend_entries)

lemma record_durable:
  "snd (fst (record_spend e j)) = None \<Longrightarrow>
    openSpendJournal (sj_store (snd (record_spend e j))) = Inr (snd (record_spend e j))"
  by (simp add: openSpendJournal_def record_spend_def Let_def split_beta)

section \<open>Overlapping payments\<close>

datatype spend_step = Launch dir_spend | Failed nat

text \<open>\<open>Failed k\<close>: the rail failed for the \<open>k\<close>th payment launched. The state holds the journal, every launched
  payment with the position it was given, and the payments that definitely failed.\<close>

record spend_flow =
  sf_journal :: spend_journal
  sf_launched :: "(dir_spend \<times> nat) list"
  sf_failed :: "nat set"

fun spend_flow_step :: "spend_flow \<Rightarrow> spend_step \<Rightarrow> spend_flow" where
  "spend_flow_step s (Launch e) = (case record_spend e (sf_journal s) of ((token, _), j) \<Rightarrow>
     s\<lparr>sf_journal := j, sf_launched := sf_launched s @ [(e, token)]\<rparr>)"
| "spend_flow_step s (Failed k) =
     (if k < length (sf_launched s) \<and> k \<notin> sf_failed s
      then s\<lparr>sf_journal := remove_spend (snd (sf_launched s ! k)) (sf_journal s), sf_failed := insert k (sf_failed s)\<rparr>
      else s)"

definition flow0 :: spend_flow where
  "flow0 = \<lparr>sf_journal = \<lparr>sj_entries = [], sj_store = \<lparr>st_file = Absent, st_script = []\<rparr>\<rparr>, sf_launched = [], sf_failed = {}\<rparr>"

text \<open>What the journal is to hold: the launched payments that have not definitely failed.\<close>

definition standing :: "spend_flow \<Rightarrow> dir_spend list" where
  "standing s = map (\<lambda>k. fst (sf_launched s ! k)) (filter (\<lambda>k. k \<notin> sf_failed s) [0..<length (sf_launched s)])"

text \<open>Payments overlap when one fails after another was launched.\<close>

fun in_turn :: "nat \<Rightarrow> spend_step list \<Rightarrow> bool" where
  "in_turn n [] = True"
| "in_turn n (Launch e # xs) = in_turn (n + 1) xs"
| "in_turn n (Failed k # xs) = (k + 1 = n \<and> in_turn n xs)"

lemma serial_step:
  assumes "sj_entries (sf_journal s) = standing s"
    and "sf_launched s \<noteq> [] \<Longrightarrow> length (sf_launched s) - 1 \<notin> sf_failed s \<Longrightarrow> snd (last (sf_launched s)) + 1 = length (standing s)"
    and "sf_failed s \<subseteq> {..<length (sf_launched s)}" "in_turn (length (sf_launched s)) (x # xs)"
  defines "t \<equiv> spend_flow_step s x"
  shows "sj_entries (sf_journal t) = standing t \<and>
    (sf_launched t \<noteq> [] \<longrightarrow> length (sf_launched t) - 1 \<notin> sf_failed t \<longrightarrow> snd (last (sf_launched t)) + 1 = length (standing t)) \<and>
    sf_failed t \<subseteq> {..<length (sf_launched t)} \<and> in_turn (length (sf_launched t)) xs"
proof (cases x)
  case (Launch e)
  obtain r j where r: "record_spend e (sf_journal s) = (r, j)" by fastforce
  have j: "sj_entries j = standing s @ [e]" "fst r = length (standing s)"
    using record_spend_simps [of e "sf_journal s"] assms(1) r by simp_all
  have t: "t = s\<lparr>sf_journal := j, sf_launched := sf_launched s @ [(e, fst r)]\<rparr>"
    using r Launch by (cases r) (simp add: t_def)
  have "length (sf_launched s) \<notin> sf_failed s" using assms(3) by auto
  then have st: "standing t = standing s @ [e]"
    by (auto simp: t standing_def nth_append intro!: map_cong)
  have p: "sf_journal t = j" "sf_launched t = sf_launched s @ [(e, fst r)]" "sf_failed t = sf_failed s" by (simp_all add: t)
  show ?thesis using assms(3,4) j Launch by (auto simp: p st)
next
  case (Failed k)
  show ?thesis
  proof (cases "k \<in> sf_failed s")
    case True
    then show ?thesis using assms Failed by simp
  next
    case False
    have k: "length (sf_launched s) = Suc k" "sf_launched s \<noteq> []" using assms(4) Failed by auto
    have nth: "sf_launched s ! k = last (sf_launched s)" using k by (simp add: last_conv_nth)
    have t: "t = s\<lparr>sf_journal := remove_spend (snd (last (sf_launched s))) (sf_journal s), sf_failed := insert k (sf_failed s)\<rparr>"
      using Failed False k by (simp add: t_def nth)
    have st: "standing s = standing t @ [fst (last (sf_launched s))]"
      using False k by (auto simp: t standing_def nth intro!: map_cong filter_cong)
    then have "snd (last (sf_launched s)) = length (standing t)" using assms(2) k False by simp
    then have "sj_entries (sf_journal t) = standing t"
      using remove_newest [of "sf_journal s" "standing t" _ "[]"] assms(1) st by (simp add: t)
    then show ?thesis using assms(3,4) Failed k by (auto simp: t)
  qed
qed

lemma serial_run:
  assumes "sj_entries (sf_journal s) = standing s"
    and "sf_launched s \<noteq> [] \<Longrightarrow> length (sf_launched s) - 1 \<notin> sf_failed s \<Longrightarrow> snd (last (sf_launched s)) + 1 = length (standing s)"
    and "sf_failed s \<subseteq> {..<length (sf_launched s)}" "in_turn (length (sf_launched s)) xs"
  shows "sj_entries (sf_journal (foldl spend_flow_step s xs)) = standing (foldl spend_flow_step s xs)"
  using assms
proof (induction xs arbitrary: s)
  case Nil
  then show ?case by simp
next
  case (Cons x xs)
  note st = serial_step [OF Cons.prems(1-4)]
  show ?case unfolding foldl_Cons by (rule Cons.IH) (use st in blast)+
qed

text \<open>
  As long as a payment has its result before the next one is launched, the directory's spend journal
  holds exactly the payments that were launched and have not definitely failed, in their order, whatever
  the disk does.
\<close>

lemma serial_spends_stand:
  assumes "in_turn 0 xs" "s = foldl spend_flow_step (flow0\<lparr>sf_journal := \<lparr>sj_entries = [], sj_store = f\<rparr>\<rparr>) xs"
  shows "all_spends (sf_journal s) = standing s"
  unfolding assms(2) all_spends_def by (rule serial_run) (use assms(1) in \<open>simp_all add: flow0_def standing_def\<close>)

definition demo_spend :: "string \<Rightarrow> dir_spend" where
  "demo_spend uid = \<lparr>ds_ts = 0, ds_uid = uid, ds_tool = ''echo'', ds_atoms = 5\<rparr>"

lemma serial_spends_stand_witness:
  "all_spends (sf_journal (foldl spend_flow_step flow0 [Launch (demo_spend ''a''), Failed 0, Launch (demo_spend ''b'')])) =
    standing (foldl spend_flow_step flow0 [Launch (demo_spend ''a''), Failed 0, Launch (demo_spend ''b'')])"
  using serial_spends_stand [of "[Launch (demo_spend ''a''), Failed 0, Launch (demo_spend ''b'')]", OF _ refl,
      of "\<lparr>st_file = Absent, st_script = []\<rparr>"]
  by (simp add: flow0_def)

text \<open>
  Payments that overlap break the journal, with a disk that never fails. The pipelines of three
  providers pay at the same time; the first two payments fail for good and are taken out by the positions
  they were recorded at, the second of which meanwhile belongs to the third payment. The journal
  then still counts the money that never left and no longer shows the payment that was made.
\<close>

lemma stale_position_hides_payment:
  "let s = foldl spend_flow_step flow0 [Launch (demo_spend ''a''), Launch (demo_spend ''b''), Launch (demo_spend ''c''), Failed 0, Failed 1] in
    all_spends (sf_journal s) = [demo_spend ''b''] \<and> standing s = [demo_spend ''c''] \<and>
    openSpendJournal (sj_store (sf_journal s)) = Inr (sf_journal s)"
  by code_simp

end
