(* ===== verification/Registry.thy ===== *)
theory Registry
  imports SpendJournal Ledger
begin

text \<open>
  The registration pipeline of the directory, \<^verbatim>\<open>directory/pipeline.go\<close>, with the parts of
  \<^verbatim>\<open>directory/service.go\<close> and \<^verbatim>\<open>directory/admin.go\<close> that start it or interfere with it. Billing is the
  interface \<open>Billing\<close>. A pipeline is a goroutine; it is cut where it leaves the index's mutex, so that
  other operations can come in between.
\<close>

section \<open>Validation\<close>

text \<open>\<open>None\<close> is a nil error.\<close>

definition validateRegister :: "RegisterIn \<Rightarrow> int64 \<Rightarrow> string option" where
  "validateRegister i budgetMax =
     (if trim_space (ri_description i) = '''' then Some ''description is required''
      else if MaxDescriptionLen < length (ri_description i) then Some ''description exceeds 1024 characters''
      else if MaxTags < length (ri_tags i) then Some ''at most 16 tags''
      else if \<exists>t \<in> set (ri_tags i). t = '''' \<or> MaxTagLen < length t then Some ''tags must be 1-32 characters''
      else if trim_space (ts_tool (ri_test i)) = '''' then Some ''test.tool is required''
      else if ts_max (ri_test i) \<le> 0 then Some ''test.maxAtoms must be positive''
      else if budgetMax < ts_max (ri_test i)
        then Some (''test.maxAtoms exceeds the directory's '' @ dec_of_int budgetMax @ '' atom ceiling'')
      else None)"

fun normalize_from :: "string list \<Rightarrow> string list \<Rightarrow> string list" where
  "normalize_from seen [] = []"
| "normalize_from seen (t # ts) =
     (let u = to_lower (trim_space t) in
      if u = '''' \<or> u \<in> set seen then normalize_from seen ts else u # normalize_from (u # seen) ts)"

definition normalizeTags :: "string list \<Rightarrow> string list" where
  "normalizeTags tags = normalize_from [] tags"

section \<open>State\<close>

text \<open>A pipeline and where it stands; \<open>PTest reg\<close> holds the copy that is being tested.\<close>

datatype pipe_phase = PStart | PCrawl Registration | PReread | PTest Registration | PPromote | PEnd | PDone

record pipeline =
  pl_uid :: string
  pl_phase :: pipe_phase
  pl_debited :: int64

record 'b registry =
  rg_policy :: Policy
  rg_index :: "Entry json_store"
  rg_leads :: "Lead json_store"
  rg_peers :: "Peer json_store"
  rg_spend :: spend_journal
  rg_billing :: 'b
  rg_self :: string
  rg_inflight :: "(string, bool) gomap"
  rg_pipes :: "pipeline list"
  rg_started :: bool
  rg_closed :: bool
  rg_now :: instant

definition entry_of :: "'b registry \<Rightarrow> string \<Rightarrow> Entry" where
  "entry_of g uid = js_val no_entry (rg_index g) uid"

definition put_entry :: "string \<Rightarrow> Entry \<Rightarrow> 'b registry \<Rightarrow> io_error option \<times> 'b registry" where
  "put_entry uid e g = (case js_put uid e (rg_index g) of (err, s) \<Rightarrow> (err, g\<lparr>rg_index := s\<rparr>))"

section \<open>Registering\<close>

definition spawnPipeline :: "string \<Rightarrow> 'b registry \<Rightarrow> 'b registry" where
  "spawnPipeline uid g =
     (if rg_closed g \<or> gbool (rg_inflight g) uid \<or> \<not> rg_started g then g
      else g\<lparr>rg_inflight := gput uid True (rg_inflight g),
             rg_pipes := rg_pipes g @ [\<lparr>pl_uid = uid, pl_phase = PStart, pl_debited = 0\<rparr>]\<rparr>)"

definition reg_busy :: "Entry \<Rightarrow> bool" where
  "reg_busy e \<longleftrightarrow> (case e_Reg e of None \<Rightarrow> False | Some r \<Rightarrow> r_state r = RegCrawling \<or> r_state r = RegTesting)"

definition new_registration :: "Policy \<Rightarrow> int64 \<Rightarrow> RegisterIn \<Rightarrow> bool \<Rightarrow> Registration" where
  "new_registration p now i renewal =
     \<lparr>r_state = RegAwaitingFunding, r_description = ri_description i, r_tags = normalizeTags (ri_tags i), r_test = ri_test i,
      r_fee = py_fee p, r_budget = ts_max (ri_test i), r_callKey = '''', r_paid = 0, r_renewal = renewal,
      r_created = now, r_catalog = None, r_outcome = '''', r_err = '''', r_latency = 0\<rparr>"

text \<open>The store mutation of \<^verbatim>\<open>handleRegister\<close>, which also rewrites the file when it is busy.\<close>

definition register_commit :: "string \<Rightarrow> RegisterIn \<Rightarrow> 'b registry \<Rightarrow> io_error option \<times> 'b registry" where
  "register_commit uid i g =
     (let e = entry_of g uid in
      put_entry uid (if reg_busy e then e
        else e\<lparr>e_Reg := Some (new_registration (rg_policy g) (unix (rg_now g)) i (e_Live e \<noteq> None))\<rparr>) g)"

definition convertLead :: "string \<Rightarrow> 'b registry \<Rightarrow> 'b registry" where
  "convertLead uid g =
     (let l = js_val no_lead (rg_leads g) uid in
      if ld_ProviderUID l = '''' \<or> ld_State l = LeadConverted then g
      else g\<lparr>rg_leads := snd (js_put uid (l\<lparr>ld_State := LeadConverted, ld_UpdatedAt := unix (rg_now g)\<rparr>) (rg_leads g))\<rparr>)"

definition required_atoms :: "Registration \<Rightarrow> int64" where
  "required_atoms r = add64 (r_fee r) (r_budget r)"

text \<open>\<^verbatim>\<open>pokeFunding\<close>: the debit happens inside the mutation, and the pipeline starts even when the file
  could not be written. The flag says that the fee was taken.\<close>

definition pokeFunding :: "'b Billing \<Rightarrow> string \<Rightarrow> 'b registry \<Rightarrow> 'b registry \<times> bool" where
  "pokeFunding B uid g =
     (let e = entry_of g uid in
      case e_Reg e of
        None \<Rightarrow> (g, False)
      | Some r \<Rightarrow>
          if r_state r \<noteq> RegAwaitingFunding then (g, False)
          else if bl_balance B (rg_billing g) uid < required_atoms r then (g, False)
          else (case bl_debit B (rg_billing g) uid (r_fee r) of
              (Some _, b) \<Rightarrow> (g\<lparr>rg_billing := b\<rparr>, False)
            | (None, b) \<Rightarrow>
                (spawnPipeline uid (snd (put_entry uid (e\<lparr>e_Reg := Some (r\<lparr>r_state := RegCrawling\<rparr>)\<rparr>)
                   (g\<lparr>rg_billing := b\<rparr>))), True)))"

definition statusFor :: "'b Billing \<Rightarrow> string \<Rightarrow> 'b registry \<Rightarrow> StatusOut" where
  "statusFor B peer g = (case js_get peer (rg_index g) of
     None \<Rightarrow> status_zero StateNone
   | Some e \<Rightarrow> (case e_Reg e of
       Some r \<Rightarrow>
         let st = (status_zero (state_name (r_state r)))\<lparr>so_fee := r_fee r, so_budget := r_budget r\<rparr>;
             st = (if r_state r = RegAwaitingFunding
               then let required = required_atoms r; balance = bl_balance B (rg_billing g) peer in
                 st\<lparr>so_required := required, so_balance := balance,
                    so_shortfall := (if balance < required then sub64 required balance else 0)\<rparr>
               else st)
         in if r_state r = RegPendingReview \<and> r_err r \<noteq> '''' then st\<lparr>so_note := r_err r\<rparr> else st
     | None \<Rightarrow> (case e_Live e of
         Some l \<Rightarrow> (status_zero StateListed)\<lparr>so_expires := l_expires l, so_note := e_Flag e\<rparr>
       | None \<Rightarrow> if e_Flag e \<noteq> '''' then (status_zero StateRejected)\<lparr>so_note := e_Flag e\<rparr> else status_zero StateNone)))"

text \<open>The whole handler, when nothing comes in between.\<close>

definition handleRegister :: "'b Billing \<Rightarrow> string \<Rightarrow> RegisterIn \<Rightarrow> 'b registry \<Rightarrow> (string + StatusOut) \<times> 'b registry" where
  "handleRegister B peer i g =
     (if rg_self g \<noteq> '''' \<and> peer = rg_self g then (Inl ''the directory cannot list itself'', g)
      else case validateRegister i (py_budgetMax (rg_policy g)) of
        Some e \<Rightarrow> (Inl e, g)
      | None \<Rightarrow>
          let busy = reg_busy (entry_of g peer) in
          (case register_commit peer i g of
             (Some _, g) \<Rightarrow> (Inl ''store'', g)
           | (None, g) \<Rightarrow>
               let g = (if busy then g else fst (pokeFunding B peer (convertLead peer g)));
                   st = statusFor B peer g
               in (Inr (if busy then st\<lparr>so_note := ''verification in progress; the previous registration continues''\<rparr> else st), g)))"

definition CreditTip :: "'b Billing \<Rightarrow> string \<Rightarrow> int64 \<Rightarrow> 'b registry \<Rightarrow> 'b registry" where
  "CreditTip B uid atoms g =
     (if atoms \<le> 0 then g
      else case bl_credit B (rg_billing g) uid atoms of
        (Some _, b) \<Rightarrow> g\<lparr>rg_billing := b\<rparr>
      | (None, b) \<Rightarrow> fst (pokeFunding B uid (g\<lparr>rg_billing := b\<rparr>)))"

section \<open>Publishing\<close>

definition listing_from :: "Registration \<Rightarrow> Listing option \<Rightarrow> int64 \<Rightarrow> int64 \<Rightarrow> Listing" where
  "listing_from r live now days =
     \<lparr>l_description = r_description r, l_tags = r_tags r, l_test = r_test r, l_catalog = r_catalog r, l_checked = now,
      l_verified = now, l_latency = r_latency r,
      l_approved = (case live of None \<Rightarrow> now | Some l \<Rightarrow> l_approved l),
      l_renewed = (case live of None \<Rightarrow> 0 | Some _ \<Rightarrow> now),
      l_expires = add64 now (mul64 days 86400)\<rparr>"

definition promote :: "string \<Rightarrow> 'b registry \<Rightarrow> string option \<times> 'b registry" where
  "promote uid g =
     (let e = entry_of g uid; now = unix (rg_now g) in
      case e_Reg e of
        None \<Rightarrow> (Some ''no registration to promote'', g)
      | Some r \<Rightarrow>
          if r_outcome r \<noteq> ''ok'' then (Some ''verification has not passed'', g)
          else (case put_entry uid \<lparr>e_Live = Some (listing_from r (e_Live e) now (py_expiryDays (rg_policy g))), e_Reg = None, e_Flag = ''''\<rparr> g of
              (err, g) \<Rightarrow> (map_option (\<lambda>_. ''store'') err, g)))"

definition park_failed :: "string \<Rightarrow> string \<Rightarrow> 'b registry \<Rightarrow> 'b registry" where
  "park_failed uid msg g =
     (let e = entry_of g uid in
      case e_Reg e of
        None \<Rightarrow> g
      | Some r \<Rightarrow> snd (put_entry uid (e\<lparr>e_Reg := Some (r\<lparr>r_state := RegPendingReview, r_outcome := ''failed'', r_err := msg\<rparr>)\<rparr>) g))"

definition approveRegistration :: "string \<Rightarrow> 'b registry \<Rightarrow> string option \<times> 'b registry" where
  "approveRegistration uid g =
     (case js_get uid (rg_index g) of
        Some e \<Rightarrow> (case e_Reg e of
            Some r \<Rightarrow> if r_state r = RegPendingReview then promote uid g else (Some ''nothing pending review for that uid'', g)
          | None \<Rightarrow> (Some ''nothing pending review for that uid'', g))
      | None \<Rightarrow> (Some ''nothing pending review for that uid'', g))"

definition rejectRegistration :: "string \<Rightarrow> string \<Rightarrow> 'b registry \<Rightarrow> string option \<times> 'b registry" where
  "rejectRegistration uid reason g =
     (let e = entry_of g uid in
      case e_Reg e of
        None \<Rightarrow> (Some ''no registration for that uid'', g)
      | Some _ \<Rightarrow> (case put_entry uid (e\<lparr>e_Reg := None, e_Flag := (if reason \<noteq> '''' then reason else e_Flag e)\<rparr>) g of
          (err, g) \<Rightarrow> (map_option (\<lambda>_. ''store'') err, g)))"

section \<open>The pipeline\<close>

definition set_pipe :: "nat \<Rightarrow> pipe_phase \<Rightarrow> 'b registry \<Rightarrow> 'b registry" where
  "set_pipe i ph g = g\<lparr>rg_pipes := (rg_pipes g)[i := (rg_pipes g ! i)\<lparr>pl_phase := ph\<rparr>]\<rparr>"

definition pipe_start :: "nat \<Rightarrow> 'b registry \<Rightarrow> 'b registry option" where
  "pipe_start i g = (case pl_phase (rg_pipes g ! i) of
     PStart \<Rightarrow> Some (set_pipe i (case e_Reg (entry_of g (pl_uid (rg_pipes g ! i))) of
         None \<Rightarrow> PEnd
       | Some r \<Rightarrow> if r_state r = RegCrawling then PCrawl r else PReread) g)
   | _ \<Rightarrow> None)"

text \<open>The crawl ends with an error or a catalog; \<open>stopped\<close> is \<^verbatim>\<open>ctx.Err() != nil\<close>, \<open>key\<close> a fresh call key.\<close>

definition pipe_crawled :: "nat \<Rightarrow> string + string \<Rightarrow> bool \<Rightarrow> string \<Rightarrow> 'b registry \<Rightarrow> 'b registry option" where
  "pipe_crawled i res stopped key g = (let uid = pl_uid (rg_pipes g ! i) in case pl_phase (rg_pipes g ! i) of
     PCrawl reg \<Rightarrow> Some (case res of
         Inl err \<Rightarrow> set_pipe i PEnd (if stopped then g else park_failed uid (''crawl: '' @ err) g)
       | Inr cat \<Rightarrow>
           let e = entry_of g uid; k = (if r_callKey reg = '''' then key else r_callKey reg) in
           (case e_Reg e of
              None \<Rightarrow> set_pipe i PEnd g
            | Some r \<Rightarrow> (case put_entry uid (e\<lparr>e_Reg := Some (r\<lparr>r_catalog := Some cat, r_callKey := k, r_state := RegTesting\<rparr>)\<rparr>) g of
                (Some _, g) \<Rightarrow> set_pipe i PEnd g
              | (None, g) \<Rightarrow> set_pipe i PReread g)))
   | _ \<Rightarrow> None)"

definition pipe_reread :: "nat \<Rightarrow> 'b registry \<Rightarrow> 'b registry option" where
  "pipe_reread i g = (case pl_phase (rg_pipes g ! i) of
     PReread \<Rightarrow> Some (set_pipe i (case e_Reg (entry_of g (pl_uid (rg_pipes g ! i))) of
         None \<Rightarrow> PEnd
       | Some r \<Rightarrow> if r_state r = RegTesting then PTest r else PEnd) g)
   | _ \<Rightarrow> None)"

text \<open>What the test may still spend, and the escrow moves of its one settlement.\<close>

definition remaining :: "Registration \<Rightarrow> int64" where
  "remaining reg = (let m = sub64 (r_budget reg) (r_paid reg) in if m < 0 then 0 else m)"

definition test_debit :: "'b Billing \<Rightarrow> nat \<Rightarrow> int64 \<Rightarrow> 'b registry \<Rightarrow> 'b registry option" where
  "test_debit B i n g = (let p = rg_pipes g ! i in case pl_phase p of
     PTest reg \<Rightarrow>
       if pl_debited p = 0 \<and> 0 < n \<and> n \<le> remaining reg then
         (case bl_debit B (rg_billing g) (pl_uid p) n of
            (Some _, b) \<Rightarrow> Some (g\<lparr>rg_billing := b\<rparr>)
          | (None, b) \<Rightarrow> Some (g\<lparr>rg_billing := b, rg_pipes := (rg_pipes g)[i := p\<lparr>pl_debited := n\<rparr>]\<rparr>))
       else None
   | _ \<Rightarrow> None)"

definition test_refund :: "'b Billing \<Rightarrow> nat \<Rightarrow> 'b registry \<Rightarrow> 'b registry option" where
  "test_refund B i g = (let p = rg_pipes g ! i in case pl_phase p of
     PTest reg \<Rightarrow>
       if 0 < pl_debited p
       then Some (g\<lparr>rg_billing := snd (bl_credit B (rg_billing g) (pl_uid p) (pl_debited p)),
                    rg_pipes := (rg_pipes g)[i := p\<lparr>pl_debited := 0\<rparr>]\<rparr>)
       else None
   | _ \<Rightarrow> None)"

record test_result =
  tr_paid :: int64
  tr_outcome :: string
  tr_err :: string
  tr_latency :: int64

definition pipe_tested :: "nat \<Rightarrow> test_result \<Rightarrow> bool \<Rightarrow> 'b registry \<Rightarrow> 'b registry option" where
  "pipe_tested i t stopped g = (let uid = pl_uid (rg_pipes g ! i); passed = (tr_outcome t = ''ok'') in case pl_phase (rg_pipes g ! i) of
     PTest reg \<Rightarrow>
       if \<not> passed \<and> stopped then Some (set_pipe i PEnd g)
       else
         let e = entry_of g uid in
         (case e_Reg e of
            None \<Rightarrow> Some (set_pipe i PEnd g)
          | Some r \<Rightarrow>
              let r1 = r\<lparr>r_paid := tr_paid t, r_outcome := tr_outcome t, r_err := tr_err t, r_latency := tr_latency t\<rparr>;
                  go = (passed \<and> r_renewal r) in
              (case put_entry uid (e\<lparr>e_Reg := Some (if go then r1 else r1\<lparr>r_state := RegPendingReview\<rparr>)\<rparr>) g of
                 (Some _, g) \<Rightarrow> Some (set_pipe i PEnd g)
               | (None, g) \<Rightarrow> Some (set_pipe i (if go then PPromote else PEnd) g)))
   | _ \<Rightarrow> None)"

definition pipe_promote :: "nat \<Rightarrow> 'b registry \<Rightarrow> 'b registry option" where
  "pipe_promote i g = (case pl_phase (rg_pipes g ! i) of
     PPromote \<Rightarrow> Some (set_pipe i PEnd (snd (promote (pl_uid (rg_pipes g ! i)) g)))
   | _ \<Rightarrow> None)"

definition pipe_end :: "nat \<Rightarrow> 'b registry \<Rightarrow> 'b registry option" where
  "pipe_end i g = (case pl_phase (rg_pipes g ! i) of
     PEnd \<Rightarrow> Some (set_pipe i PDone (g\<lparr>rg_inflight := gdel (pl_uid (rg_pipes g ! i)) (rg_inflight g)\<rparr>))
   | _ \<Rightarrow> None)"

end
