(* ===== verification/Registrant.thy ===== *)
theory Registrant
  imports Registry
begin

text \<open>
  The provider's side of the directory, \<^verbatim>\<open>directory/registrant.go\<close>: the auto-funding policy with its history
  of payments, \<^verbatim>\<open>Register\<close>, and the invitation tool. What a directory and the rail answer are arguments.
\<close>

section \<open>Policy and history\<close>

record AutoFund =
  af_Enabled :: bool
  af_perRequest :: int64
  af_perMonth :: int64
  af_allowed :: "string list"

record RegistrantConfig =
  rc_description :: string
  rc_tags :: "string list"
  rc_test :: TestSpec
  rc_autoFund :: AutoFund
  rc_router :: bool
  rc_payer :: bool
  rc_dataDir :: string
  rc_name :: string

record fundEntry =
  fe_ts :: int64
  fe_dir :: string
  fe_atoms :: int64

record fundHistory =
  fh_entries :: "fundEntry list"
  fh_store :: "fundEntry list store"

definition openFundHistory :: "fundEntry list store \<Rightarrow> open_error + fundHistory" where
  "openFundHistory s = (case open_file [] s of
     Inl e \<Rightarrow> Inl e
   | Inr es \<Rightarrow> Inr \<lparr>fh_entries = es, fh_store = s\<rparr>)"

text \<open>\<^verbatim>\<open>record\<close> keeps the entry in memory also when it could not be written.\<close>

definition fund_record :: "fundEntry \<Rightarrow> fundHistory \<Rightarrow> io_error option \<times> fundHistory" where
  "fund_record e h =
     (let es = fh_entries h @ [e]; (err, s) = persist es (fh_store h) in (err, \<lparr>fh_entries = es, fh_store = s\<rparr>))"

definition totalSince :: "int64 \<Rightarrow> fundHistory \<Rightarrow> int64" where
  "totalSince lim h = foldl add64 0 (map fe_atoms (filter (\<lambda>e. lim \<le> fe_ts e) (fh_entries h)))"

definition NewRegistrant :: "RegistrantConfig \<Rightarrow> fundEntry list store \<Rightarrow> string + RegistrantConfig \<times> fundHistory" where
  "NewRegistrant cfg s =
     (if \<not> rc_router cfg then Inl ''registrant: Config.Router is required''
      else if \<not> rc_payer cfg then Inl ''registrant: Config.Payer is required''
      else if rc_dataDir cfg = '''' then Inl ''registrant: Config.DataDir is required''
      else case validateRegister \<lparr>ri_description = rc_description cfg, ri_tags = rc_tags cfg, ri_test = rc_test cfg\<rparr> (ts_max (rc_test cfg)) of
        Some e \<Rightarrow> Inl (''registrant: '' @ e)
      | None \<Rightarrow>
          let cfg = (if rc_name cfg = '''' then cfg\<lparr>rc_name := ''registrant''\<rparr> else cfg) in
          (case openFundHistory s of
             Inl _ \<Rightarrow> Inl ''fund history''
           | Inr h \<Rightarrow> Inr (cfg, h)))"

section \<open>Funding\<close>

definition fund_window :: duration where "fund_window = 30 * (24 * hour)"

text \<open>\<open>None\<close> allows the payment; otherwise the reason of the refusal.\<close>

definition allowFund :: "AutoFund \<Rightarrow> instant \<Rightarrow> fundHistory \<Rightarrow> string \<Rightarrow> int64 \<Rightarrow> string option" where
  "allowFund p now h dir atoms =
     (if \<not> af_Enabled p then Some ''auto-funding is disabled''
      else if af_allowed p \<noteq> [] \<and> dir \<notin> set (af_allowed p) then Some ''directory not in the allowlist''
      else if 0 < af_perRequest p \<and> af_perRequest p < atoms then
        Some (dec_of_int atoms @ '' atoms exceeds the '' @ dec_of_int (af_perRequest p) @ '' per-request cap'')
      else if 0 < af_perMonth p \<and> af_perMonth p < add64 (totalSince (unix (now - fund_window)) h) atoms then
        Some (dec_of_int atoms @ '' atoms would exceed the '' @ dec_of_int (af_perMonth p) @ '' monthly cap ('' @
          dec_of_int (totalSince (unix (now - fund_window)) h) @ '' spent)'')
      else None)"

section \<open>Register\<close>

text \<open>\<^verbatim>\<open>json.Unmarshal\<close> into a variable that already holds a status: the directory leaves out zero fields, and
  a field that is left out keeps its old value.\<close>

definition decode_into :: "StatusOut \<Rightarrow> StatusOut \<Rightarrow> StatusOut" where
  "decode_into reply st =
     \<lparr>so_state = so_state reply,
      so_required = (if so_required reply = 0 then so_required st else so_required reply),
      so_balance = (if so_balance reply = 0 then so_balance st else so_balance reply),
      so_shortfall = (if so_shortfall reply = 0 then so_shortfall st else so_shortfall reply),
      so_fee = (if so_fee reply = 0 then so_fee st else so_fee reply),
      so_budget = (if so_budget reply = 0 then so_budget st else so_budget reply),
      so_expires = (if so_expires reply = 0 then so_expires st else so_expires reply),
      so_note = (if so_note reply = '''' then so_note st else so_note reply)\<rparr>"

text \<open>The answers of one run, each the error of \<^verbatim>\<open>callDecode\<close> or the directory's reply.\<close>

record register_answers =
  an_dial :: "string option"
  an_status :: "string + StatusOut"
  an_register :: "string + StatusOut"
  an_pay :: "string option"
  an_after :: "string + StatusOut"

definition renewAhead :: duration where "renewAhead = 7 * (24 * hour)"

text \<open>The two reads before the money: \<open>Inl\<close> ends the run with an error or with a listing that is fresh, and
  what is notified; \<open>Inr\<close> is the variable \<^verbatim>\<open>st\<close> after the \<^verbatim>\<open>register\<close> call.\<close>

definition register_ask :: "instant \<Rightarrow> register_answers \<Rightarrow> string option \<times> StatusOut + StatusOut" where
  "register_ask now a =
     (let zero = status_zero '''' in
      case an_dial a of
        Some e \<Rightarrow> Inl (Some e, zero)
      | None \<Rightarrow>
          let st = (case an_status a of Inl _ \<Rightarrow> zero | Inr s \<Rightarrow> decode_into s zero) in
          if (case an_status a of Inl _ \<Rightarrow> False | Inr _ \<Rightarrow> so_state st = StateListed \<and> unix (now + renewAhead) < so_expires st)
          then Inl (None, st)
          else (case an_register a of
              Inl e \<Rightarrow> Inl (Some e, zero)
            | Inr s \<Rightarrow> Inr (decode_into s st)))"

text \<open>\<^verbatim>\<open>Register\<close>: the error and the status it notifies, the payments it launched, and the history.\<close>

definition Register :: "AutoFund \<Rightarrow> instant \<Rightarrow> string \<Rightarrow> register_answers \<Rightarrow> fundHistory \<Rightarrow>
    (string option \<times> StatusOut) \<times> int64 list \<times> fundHistory" where
  "Register p now dir a h = (case register_ask now a of
     Inl r \<Rightarrow> (r, [], h)
   | Inr st \<Rightarrow>
       if so_shortfall st \<le> 0 then ((None, st), [], h)
       else (case allowFund p now h dir (so_shortfall st) of
           Some reason \<Rightarrow> ((Some (''funding declined: '' @ reason), st), [], h)
         | None \<Rightarrow>
             (case fund_record \<lparr>fe_ts = unix now, fe_dir = dir, fe_atoms = so_shortfall st\<rparr> h of
                (Some _, h) \<Rightarrow> ((Some ''fund history'', st), [], h)
              | (None, h) \<Rightarrow>
                  (case an_pay a of
                     Some e \<Rightarrow> ((Some (''funding payment: '' @ e), st), [so_shortfall st], h)
                   | None \<Rightarrow>
                       (case an_after a of
                          Inl e \<Rightarrow> ((Some e, status_zero ''''), [so_shortfall st], h)
                        | Inr s \<Rightarrow> ((None, decode_into s st), [so_shortfall st], h))))))"

text \<open>The \<^verbatim>\<open>listing_invite\<close> tool: the reason of a refusal, or \<open>None\<close> when a registration is started.\<close>

definition listing_invite :: "RegistrantConfig \<Rightarrow> instant \<Rightarrow> fundHistory \<Rightarrow> string \<Rightarrow> int64 \<Rightarrow> string option" where
  "listing_invite cfg now h peer fee = allowFund (rc_autoFund cfg) now h peer (add64 fee (ts_max (rc_test cfg)))"

section \<open>Runs\<close>

text \<open>Registrations one after another, each with its time, its directory and its answers; the payments with
  the directory they went to.\<close>

record register_run =
  rr_now :: instant
  rr_dir :: string
  rr_answers :: register_answers

fun register_all :: "AutoFund \<Rightarrow> register_run list \<Rightarrow> fundHistory \<Rightarrow> (string \<times> int64) list \<times> fundHistory" where
  "register_all p [] h = ([], h)"
| "register_all p (r # rs) h = (case Register p (rr_now r) (rr_dir r) (rr_answers r) h of
     (_, ps, h) \<Rightarrow> (case register_all p rs h of (qs, h) \<Rightarrow> (map (Pair (rr_dir r)) ps @ qs, h)))"

section \<open>Laws\<close>

definition funded :: "int64 \<Rightarrow> fundHistory \<Rightarrow> int" where
  "funded lim h = sum_list (map fe_atoms (filter (\<lambda>e. lim \<le> fe_ts e) (fh_entries h)))"

lemma totalSince_exact: "in64 (funded lim h) \<Longrightarrow> totalSince lim h = funded lim h"
  by (simp add: totalSince_def funded_def foldl_add64_exact)

text \<open>Only positive amounts are ever recorded; a later window holds no more than an earlier one.\<close>

definition fund_ok :: "fundHistory \<Rightarrow> bool" where
  "fund_ok h \<longleftrightarrow> (\<forall>e \<in> set (fh_entries h). 0 \<le> fe_atoms e)"

lemma funded_later: "fund_ok h \<Longrightarrow> lim \<le> lim' \<Longrightarrow> funded lim' h \<le> funded lim h"
proof -
  have "\<forall>e \<in> set es. 0 \<le> fe_atoms e \<Longrightarrow> lim \<le> lim' \<Longrightarrow>
      sum_list (map fe_atoms (filter (\<lambda>e. lim' \<le> fe_ts e) es)) \<le> sum_list (map fe_atoms (filter (\<lambda>e. lim \<le> fe_ts e) es))" for es
    by (induction es) auto
  then show "fund_ok h \<Longrightarrow> lim \<le> lim' \<Longrightarrow> ?thesis" by (simp add: fund_ok_def funded_def)
qed

lemma funded_nonneg: "fund_ok h \<Longrightarrow> 0 \<le> funded lim h"
  unfolding funded_def fund_ok_def by (rule sum_list_nonneg) auto

lemma fund_record_entries: "fh_entries (snd (fund_record e h)) = fh_entries h @ [e]"
  by (simp add: fund_record_def Let_def split_beta)

lemma fund_record_durable:
  "fst (fund_record e h) = None \<Longrightarrow> openFundHistory (fh_store (snd (fund_record e h))) = Inr (snd (fund_record e h))"
  by (auto simp: fund_record_def openFundHistory_def Let_def split_beta)

lemma funded_record: "funded lim (snd (fund_record e h)) = funded lim h + (if lim \<le> fe_ts e then fe_atoms e else 0)"
  by (simp add: funded_def fund_record_entries)

text \<open>What a run does: nothing to the history and no payment, or an entry that the policy allowed, with a
  payment of its amount exactly when the entry is on disk.\<close>

lemma Register_shape:
  assumes "Register p now dir a h = (r, ps, h')"
  shows "(ps = [] \<and> h' = h) \<or> (\<exists>n. 0 < n \<and> allowFund p now h dir n = None \<and>
     h' = snd (fund_record \<lparr>fe_ts = unix now, fe_dir = dir, fe_atoms = n\<rparr> h) \<and>
     (case fst (fund_record \<lparr>fe_ts = unix now, fe_dir = dir, fe_atoms = n\<rparr> h) of None \<Rightarrow> ps = [n] | Some _ \<Rightarrow> ps = []))"
proof (cases "register_ask now a")
  case (Inl x)
  then show ?thesis using assms by (simp add: Register_def)
next
  case (Inr st)
  obtain err g where f: "fund_record \<lparr>fe_ts = unix now, fe_dir = dir, fe_atoms = so_shortfall st\<rparr> h = (err, g)" by fastforce
  show ?thesis
  proof (cases "so_shortfall st \<le> 0 \<or> allowFund p now h dir (so_shortfall st) \<noteq> None")
    case True
    then show ?thesis using assms Inr by (auto simp: Register_def split: option.splits if_splits)
  next
    case False
    then have "ps = (if err = None then [so_shortfall st] else [])" "h' = g"
      using assms Inr f by (auto simp: Register_def split: option.splits sum.splits)
    then show ?thesis using False f by (intro disjI2 exI [of _ "so_shortfall st"]) (auto split: option.splits)
  qed
qed

definition within_month :: "AutoFund \<Rightarrow> instant \<Rightarrow> fundHistory \<Rightarrow> bool" where
  "within_month p now h \<longleftrightarrow> fund_ok h \<and> funded (unix (now - fund_window)) h \<le> af_perMonth p"

lemma within_month_later: "within_month p s h \<Longrightarrow> s \<le> t \<Longrightarrow> within_month p t h"
  using funded_later [of h "unix (s - fund_window)" "unix (t - fund_window)"] unix_mono [of "s - fund_window" "t - fund_window"]
  by (auto simp: within_month_def)

lemma within_month_register:
  assumes "within_month p now h" "Register p now dir a h = (r, ps, h')"
    and "0 < af_perRequest p" "0 < af_perMonth p" "af_perRequest p + af_perMonth p \<le> max64"
  shows "within_month p now h' \<and> (\<forall>n \<in> set ps. 0 < n \<and> n \<le> af_perRequest p \<and> af_Enabled p \<and> (af_allowed p = [] \<or> dir \<in> set (af_allowed p)))"
  using Register_shape [OF assms(2)]
proof (elim disjE exE conjE)
  assume "ps = []" "h' = h"
  then show ?thesis using assms(1) by simp
next
  fix n
  let ?e = "\<lparr>fe_ts = unix now, fe_dir = dir, fe_atoms = n\<rparr>" and ?lim = "unix (now - fund_window)"
  assume n: "0 < n" "allowFund p now h dir n = None" "h' = snd (fund_record ?e h)"
    "case fst (fund_record ?e h) of None \<Rightarrow> ps = [n] | Some _ \<Rightarrow> ps = []"
  have cap: "af_Enabled p" "af_allowed p = [] \<or> dir \<in> set (af_allowed p)" "n \<le> af_perRequest p"
    "add64 (totalSince ?lim h) n \<le> af_perMonth p"
    using n(2) assms(3,4) by (auto simp: allowFund_def Let_def split: if_splits)
  have bounds: "0 \<le> funded ?lim h" "funded ?lim h \<le> af_perMonth p"
    using assms(1) funded_nonneg by (auto simp: within_month_def)
  then have "in64 (funded ?lim h)" "in64 (funded ?lim h + n)" using n(1) cap(3) assms(3-5) by (auto simp: range64)
  then have "funded ?lim h + n \<le> af_perMonth p" using cap(4) by (simp add: totalSince_exact add64_exact)
  moreover have "?lim \<le> unix now" by (rule unix_mono) (simp add: fund_window_def durations)
  moreover have "fund_ok h'" using assms(1) n(1,3) by (auto simp: within_month_def fund_ok_def fund_record_entries)
  ultimately have "within_month p now h'" by (simp add: within_month_def n(3) funded_record)
  then show ?thesis using n(1,4) cap by (auto split: option.splits)
qed

text \<open>Registrations in the order of their times.\<close>

fun timed :: "instant \<Rightarrow> register_run list \<Rightarrow> bool" where
  "timed t [] = True"
| "timed t (r # rs) = (t \<le> rr_now r \<and> timed (rr_now r) rs)"

lemma within_month_all:
  assumes "0 < af_perRequest p" "0 < af_perMonth p" "af_perRequest p + af_perMonth p \<le> max64"
  shows "timed t rs \<Longrightarrow> within_month p t h \<Longrightarrow> register_all p rs h = (ps, h') \<Longrightarrow>
    within_month p (last (t # map rr_now rs)) h' \<and>
    (\<forall>(dir, n) \<in> set ps. 0 < n \<and> n \<le> af_perRequest p \<and> af_Enabled p \<and> (af_allowed p = [] \<or> dir \<in> set (af_allowed p)))"
proof (induction rs arbitrary: t h ps)
  case Nil
  then show ?case by simp
next
  case (Cons r rs)
  obtain x ps1 h1 where r: "Register p (rr_now r) (rr_dir r) (rr_answers r) h = (x, ps1, h1)" by (metis prod_cases3)
  obtain ps2 where rs: "register_all p rs h1 = (ps2, h')" "ps = map (Pair (rr_dir r)) ps1 @ ps2"
    using Cons.prems(3) r by (auto split: prod.splits)
  have "within_month p (rr_now r) h" using within_month_later Cons.prems(1,2) by simp
  note one = within_month_register [OF this r assms]
  have "timed (rr_now r) rs" using Cons.prems(1) by simp
  note rest = Cons.IH [OF this conjunct1 [OF one] rs(1)]
  show ?case using rest one rs(2) by auto
qed

section \<open>Properties\<close>

text \<open>
  Auto-funding stays within the operator's policy. With a per-request and a monthly cap set, whatever the
  directories and the rail answer and whether or not the history can be written, registrations made
  one after another launch only positive payments up to the per-request cap, only while funding is enabled
  and only to allowed directories, and at no later time do the payments of the last thirty days add up to
  more than the monthly cap.
\<close>

lemma funding_within_policy:
  assumes "0 < af_perRequest p" "0 < af_perMonth p" "af_perRequest p + af_perMonth p \<le> max64"
    and "timed t rs" "within_month p t h" "register_all p rs h = (ps, h')" "last (t # map rr_now rs) \<le> now"
  shows "funded (unix (now - fund_window)) h' \<le> af_perMonth p \<and>
    (\<forall>(dir, n) \<in> set ps. 0 < n \<and> n \<le> af_perRequest p \<and> af_Enabled p \<and> (af_allowed p = [] \<or> dir \<in> set (af_allowed p)))"
  using within_month_all [OF assms(1-6)] within_month_later [OF _ assms(7)] by (auto simp: within_month_def)

definition demo_fund :: AutoFund where
  "demo_fund = \<lparr>af_Enabled = True, af_perRequest = 150, af_perMonth = 200, af_allowed = [''d1'', ''d2'']\<rparr>"

definition invoice :: "string \<Rightarrow> int64 \<Rightarrow> StatusOut" where
  "invoice st short = (status_zero st)\<lparr>so_shortfall := short\<rparr>"

definition demo_answers :: "int64 \<Rightarrow> register_answers" where
  "demo_answers short = \<lparr>an_dial = None, an_status = Inr (status_zero StateNone),
     an_register = Inr (invoice ''awaiting_funding'' short), an_pay = None, an_after = Inr (status_zero ''crawling'')\<rparr>"

definition no_history :: fundHistory where
  "no_history = \<lparr>fh_entries = [], fh_store = \<lparr>st_file = Absent, st_script = []\<rparr>\<rparr>"

lemma funding_within_policy_witness:
  "let rs = [\<lparr>rr_now = 0, rr_dir = ''d1'', rr_answers = demo_answers 120\<rparr>, \<lparr>rr_now = hour, rr_dir = ''d2'', rr_answers = demo_answers 100\<rparr>,
       \<lparr>rr_now = 2 * hour, rr_dir = ''d2'', rr_answers = demo_answers 80\<rparr>];
     x = register_all demo_fund rs no_history in
   fst x = [(''d1'', 120), (''d2'', 80)] \<and> funded (unix (2 * hour - fund_window)) (snd x) \<le> af_perMonth demo_fund"
proof -
  define rs where "rs = [\<lparr>rr_now = 0, rr_dir = ''d1'', rr_answers = demo_answers 120\<rparr>, \<lparr>rr_now = hour, rr_dir = ''d2'', rr_answers = demo_answers 100\<rparr>,
       \<lparr>rr_now = 2 * hour, rr_dir = ''d2'', rr_answers = demo_answers 80\<rparr>]"
  obtain ps h where x: "register_all demo_fund rs no_history = (ps, h)" by fastforce
  have ps: "fst (register_all demo_fund rs no_history) = [(''d1'', 120), (''d2'', 80)]" unfolding rs_def by code_simp
  have "funded (unix (2 * hour - fund_window)) h \<le> af_perMonth demo_fund"
    using funding_within_policy [OF _ _ _ _ _ x, of 0 "2 * hour"]
    by (simp add: demo_fund_def max64_def rs_def durations within_month_def fund_ok_def funded_def no_history_def)
  then show ?thesis using x ps unfolding Let_def rs_def [symmetric] by simp
qed

text \<open>
  A registrant pays invoices that it was not sent. It reads its status while 100 atoms are missing; before its
  registration arrives the balance has come to cover the terms, so the directory answers that it is
  crawling and that nothing is missing. The reply leaves the zero shortfall out, the variable that it is
  decoded into keeps the old one, and the 100 atoms are paid all the same.
\<close>

lemma old_shortfall_paid:
  "let a = \<lparr>an_dial = None, an_status = Inr (invoice ''awaiting_funding'' 100), an_register = Inr (invoice ''crawling'' 0),
      an_pay = None, an_after = Inr (invoice ''crawling'' 0)\<rparr> in
    fst (snd (Register demo_fund 0 ''d1'' a no_history)) = [100] \<and>
    fst (snd (Register demo_fund 0 ''d1'' (a\<lparr>an_status := Inl ''lost''\<rparr>) no_history)) = []"
  by code_simp

text \<open>
  Without a per-request cap the monthly cap can be jumped. A directory that asks for the largest amount
  there is makes the sum with what was already spent wrap around to a negative number, which is below every
  cap: the payment is allowed although the month's budget is used up.
\<close>

lemma monthly_cap_wraps:
  "let p = demo_fund\<lparr>af_perRequest := 0\<rparr>; h = snd (fund_record \<lparr>fe_ts = 0, fe_dir = ''d1'', fe_atoms = 200\<rparr> no_history) in
    allowFund p 0 h ''d1'' 1 \<noteq> None \<and> allowFund p 0 h ''d1'' max64 = None \<and>
    fst (snd (Register p 0 ''d1'' (demo_answers max64) h)) = [max64]"
  by code_simp

end
