(* ===== verification/ServeBot.thy ===== *)
theory ServeBot
  imports Harness Wire BotKit Registrant
begin

text \<open>
  The serving bot: the loops of \<^verbatim>\<open>RunBotHooked\<close> in \<^verbatim>\<open>server/bot.go\<close> around the tip branch of \<open>Tips\<close>, and
  \<^verbatim>\<open>cmd/brmcp-serve/main.go\<close> with its configuration file, its two tools and its registrant. Each loop reads one channel; what a
  loop calls is logged as an action.
\<close>

section \<open>Hooks and channels\<close>

text \<open>Which hooks the host has set.\<close>

record RunBotHooks =
  hk_OnRouter :: bool
  hk_OnBot :: bool
  hk_OnTipProgress :: bool
  hk_OnPM :: bool
  hk_OnTipReceived :: bool

datatype bot_action =
    ToRouter string string
  | CallsOnPM string string
  | CallsOnRouter
  | CallsOnBot bool
  | CallsOnTipProgress TipProgressEvent
  | CallsOnTipReceived string int64
  | AcksTip uint64
  | AcksProgress "64 word"

definition dispatchPM :: "RunBotHooks \<Rightarrow> string \<Rightarrow> string \<Rightarrow> bot_action list" where
  "dispatchPM hooks uid msg =
     (if parse msg = None then (if hk_OnPM hooks then [CallsOnPM uid msg] else [])
      else [ToRouter uid msg])"

text \<open>The bot pointer of \<^verbatim>\<open>botBackend\<close>, and the state that the loops share. \<open>rb_tips\<close> is the server of \<open>Tips\<close>.\<close>

record ('b, 'k) run_bot =
  rb_bot :: "'k option"
  rb_tips :: "'b tip_server"
  rb_actions :: "bot_action list"

definition backend_SendPM :: "('k \<Rightarrow> string \<Rightarrow> string \<Rightarrow> string option) \<Rightarrow> ('b, 'k) run_bot \<Rightarrow> string \<Rightarrow> string \<Rightarrow> string option" where
  "backend_SendPM send s peer msg = (case rb_bot s of None \<Rightarrow> Some ''brmcp: bot not connected'' | Some k \<Rightarrow> send k peer msg)"

text \<open>The start, with the tip journal if there is a directory for it.\<close>

definition RunBot_start :: "RunBotHooks \<Rightarrow> bool \<Rightarrow> 'b \<Rightarrow> uint64 list store \<Rightarrow> open_error + ('b, 'k) run_bot" where
  "RunBot_start hooks dataDir b store =
     (case (if dataDir then map_sum id Some (OpenTipJournal store) else Inr None) of
        Inl e \<Rightarrow> Inl e
      | Inr tips \<Rightarrow> Inr \<lparr>rb_bot = None, rb_tips = \<lparr>ts_billing = b, ts_tips = tips, ts_acked = [], ts_received = []\<rparr>,
          rb_actions = (if hk_OnRouter hooks then [CallsOnRouter] else [])\<rparr>)"

text \<open>\<open>None\<close> is a nil event, which the loops skip. \<open>BotInit\<close> is the return of \<^verbatim>\<open>kit.NewBot\<close>, \<open>RunEnds\<close> that of \<^verbatim>\<open>Run\<close>.\<close>

datatype 'k bot_event =
    PMArrives "(string \<times> string) option"
  | TipArrives "tip option"
  | ProgressArrives "TipProgressEvent option"
  | BotInit "'k option"
  | RunEnds

definition tip_loop :: "'b Billing \<Rightarrow> (string \<Rightarrow> bool) \<Rightarrow> RunBotHooks \<Rightarrow> tip \<Rightarrow> ('b, 'k) run_bot \<Rightarrow> ('b, 'k) run_bot" where
  "tip_loop B allowed hooks t s =
     (let s' = s\<lparr>rb_tips := handle_tip B allowed (rb_bot s \<noteq> None) t (rb_tips s)\<rparr>;
          acked = drop (length (ts_acked (rb_tips s))) (ts_acked (rb_tips s'));
          received = drop (length (ts_received (rb_tips s))) (ts_received (rb_tips s'))
      in s'\<lparr>rb_actions := rb_actions s @ map AcksTip acked @
            (if hk_OnTipReceived hooks then map (\<lambda>(uid, atoms). CallsOnTipReceived uid atoms) received else [])\<rparr>)"

fun bot_step :: "'b Billing \<Rightarrow> (string \<Rightarrow> bool) \<Rightarrow> RunBotHooks \<Rightarrow> 'k bot_event \<Rightarrow> ('b, 'k) run_bot \<Rightarrow> ('b, 'k) run_bot" where
  "bot_step B allowed hooks (PMArrives None) s = s"
| "bot_step B allowed hooks (PMArrives (Some (uid, msg))) s = s\<lparr>rb_actions := rb_actions s @ dispatchPM hooks uid msg\<rparr>"
| "bot_step B allowed hooks (TipArrives None) s = s"
| "bot_step B allowed hooks (TipArrives (Some t)) s = tip_loop B allowed hooks t s"
| "bot_step B allowed hooks (ProgressArrives None) s = s"
| "bot_step B allowed hooks (ProgressArrives (Some ev)) s =
     s\<lparr>rb_actions := rb_actions s @ (if hk_OnTipProgress hooks then [CallsOnTipProgress ev] else []) @
        (if rb_bot s \<noteq> None then [AcksProgress (tpe_SequenceId ev)] else [])\<rparr>"
| "bot_step B allowed hooks (BotInit None) s = s"
| "bot_step B allowed hooks (BotInit (Some k)) s =
     s\<lparr>rb_bot := Some k, rb_actions := rb_actions s @ (if hk_OnBot hooks then [CallsOnBot True] else [])\<rparr>"
| "bot_step B allowed hooks RunEnds s =
     s\<lparr>rb_bot := None, rb_actions := rb_actions s @ (if hk_OnBot hooks then [CallsOnBot False] else [])\<rparr>"

section \<open>The example server\<close>

record directoryEntry =
  de_Description :: string
  de_Tags :: "string list"
  de_Test :: TestSpec
  de_AutoFund :: AutoFund
  de_RegisterAtUIDs :: "string list"

record serveConfig =
  sv_AllowedUIDs :: "string list"
  sv_CallsPerMinute :: int
  sv_Directory :: "directoryEntry option"

text \<open>The first run writes the template, in place.\<close>

definition loadServeConfig :: "serveConfig plain_file \<Rightarrow> (string + serveConfig) \<times> serveConfig plain_file" where
  "loadServeConfig f = (case pf_file f of
     Absent \<Rightarrow>
       let cfg = \<lparr>sv_AllowedUIDs = [], sv_CallsPerMinute = 30, sv_Directory = None\<rparr> in
       (case write_file cfg f of (ok, f) \<Rightarrow> (if ok then Inr cfg else Inl ''write'', f))
   | Unreadable \<Rightarrow> (Inl ''read'', f)
   | Corrupt \<Rightarrow> (Inl ''parse'', f)
   | Holds cfg \<Rightarrow> (Inr cfg, f))"

definition fortunes :: "string list" where
  "fortunes =
     [''The relay carries more than messages.'',
      ''A tool worth calling is worth paying for.'',
      ''Consensus is silence that agrees.'',
      ''Your keys, your tools.'',
      ''Latency is just the network thinking it over.'']"

text \<open>The answers of the two tools; \<open>r\<close> is what \<^verbatim>\<open>rand.Intn\<close> returns.\<close>

definition echo_tool :: "string \<Rightarrow> (string \<times> string) list" where
  "echo_tool txt = [(''echo'', txt)]"

definition fortune_tool :: "nat \<Rightarrow> (string \<times> string) list" where
  "fortune_tool r = [(''fortune'', fortunes ! r)]"

definition plain_tool :: "string \<Rightarrow> 'i tool" where
  "plain_tool name = \<lparr>t_name = name, t_meta = [], t_price = (\<lambda>_ _. Inr 0)\<rparr>"

definition serve_harness :: "'b Billing \<Rightarrow> (CallToolResult, 'o) codec \<Rightarrow> instant \<Rightarrow> serveConfig \<Rightarrow> 'b \<Rightarrow>
    (string, journalEntry) gomap store \<Rightarrow> open_error + ('b, 'i, 'o) harness" where
  "serve_harness B C now cfg b store =
     (case NewHarness B C now \<lparr>hc_dataDir = True, hc_allowedPeers = sv_AllowedUIDs cfg, hc_allowFunc = None,
          hc_callsPerMinute = sv_CallsPerMinute cfg, hc_toolVisible = None\<rparr> b store of
        Inl e \<Rightarrow> Inl e
      | Inr h \<Rightarrow> Inr (AddTool (AddTool h (plain_tool ''echo'') 0) (plain_tool ''fortune'') 10000))"

definition serve_registrant :: "string \<Rightarrow> directoryEntry \<Rightarrow> RegistrantConfig" where
  "serve_registrant datadir d = \<lparr>rc_description = de_Description d, rc_tags = de_Tags d, rc_test = de_Test d,
     rc_autoFund = de_AutoFund d, rc_router = True, rc_payer = True, rc_dataDir = datadir, rc_name = ''''\<rparr>"

text \<open>The hooks of the server: a directory block brings the registrant and its payer.\<close>

definition serve_hooks :: "serveConfig \<Rightarrow> RunBotHooks" where
  "serve_hooks cfg = (let d = (sv_Directory cfg \<noteq> None) in
     \<lparr>hk_OnRouter = d, hk_OnBot = d, hk_OnTipProgress = d, hk_OnPM = False, hk_OnTipReceived = False\<rparr>)"

section \<open>Lemmas\<close>

text \<open>Chat and envelopes go separate ways.\<close>

lemma dispatch_split:
  "ToRouter uid msg \<in> set (dispatchPM hooks uid' msg') \<longleftrightarrow> uid = uid' \<and> msg = msg' \<and> parse msg \<noteq> None"
  "CallsOnPM uid msg \<in> set (dispatchPM hooks uid' msg') \<longleftrightarrow> uid = uid' \<and> msg = msg' \<and> parse msg = None \<and> hk_OnPM hooks"
  by (auto simp: dispatchPM_def)

lemma handle_tip_logs:
  "\<exists>l. ts_acked (handle_tip B allowed c t s) = ts_acked s @ l" "\<exists>l. ts_received (handle_tip B allowed c t s) = ts_received s @ l"
  by (auto simp: handle_tip_def Let_def split: option.splits)

text \<open>A tip whose credit fails is neither acknowledged nor recorded nor reported: it will be delivered again.\<close>

lemma failed_tip_redelivered:
  assumes "fst (bl_credit B (ts_billing (rb_tips s)) (tip_uid t) (quot64 (tip_matoms t) matomsPerAtom)) \<noteq> None"
    "allowed (tip_uid t)" "case ts_tips (rb_tips s) of None \<Rightarrow> True | Some j \<Rightarrow> \<not> Seen j (tip_seq t)"
  shows "rb_actions (bot_step B allowed hooks (TipArrives (Some t)) s) = rb_actions s \<and>
    ts_tips (rb_tips (bot_step B allowed hooks (TipArrives (Some t)) s)) = ts_tips (rb_tips s)"
  using assms by (auto simp: tip_loop_def handle_tip_def Let_def split: option.splits)

lemma refund_all_allowed: "openJournal B C now store h = Inr h' \<Longrightarrow> h_allowed h' = h_allowed h \<and> h_cfg h' = h_cfg h"
  by (auto simp: openJournal_def Let_def split: sum.splits prod.splits)

lemma serve_allowed: "serve_harness B C now cfg b store = Inr h \<Longrightarrow> Allowed h peer \<longleftrightarrow> peer \<in> set (sv_AllowedUIDs cfg)"
proof -
  assume s: "serve_harness B C now cfg b store = Inr h"
  then obtain h0 where h0: "NewHarness B C now \<lparr>hc_dataDir = True, hc_allowedPeers = sv_AllowedUIDs cfg, hc_allowFunc = None,
          hc_callsPerMinute = sv_CallsPerMinute cfg, hc_toolVisible = None\<rparr> b store = Inr h0"
    and h: "h = AddTool (AddTool h0 (plain_tool ''echo'') 0) (plain_tool ''fortune'') 10000"
    by (auto simp: serve_harness_def split: sum.splits)
  have "h_allowed h0 = sv_AllowedUIDs cfg" "hc_allowFunc (h_cfg h0) = None"
    using h0 by (auto simp: NewHarness_def Let_def dest!: refund_all_allowed split: if_splits)
  then show ?thesis by (simp add: h AddTool_def AddToolPriced_def Let_def Allowed_def)
qed

section \<open>Properties\<close>

text \<open>
  A server that has just been installed serves nobody. The first start over an empty data directory writes a configuration with which
  the harness, if it starts, refuses every caller; the next start reads back the same; and an operator's
  list admits exactly the uids that it names.
\<close>

lemma first_start_serves_nobody:
  assumes "pf_file f = Absent" "loadServeConfig f = (Inr cfg, f')"
    and "serve_harness B C now cfg b store = Inr h" "serve_harness B C now (cfg\<lparr>sv_AllowedUIDs := uids\<rparr>) b store = Inr h2"
  shows "\<not> Allowed h peer \<and> loadServeConfig f' = (Inr cfg, f') \<and> (Allowed h2 peer \<longleftrightarrow> peer \<in> set uids)"
proof -
  have "sv_AllowedUIDs cfg = []" and f': "pf_file f' = Holds cfg"
    using assms(1,2) write_file_ok [of cfg f] by (auto simp: loadServeConfig_def Let_def split: prod.splits if_splits dest: write_file_ok)
  then show ?thesis using serve_allowed [OF assms(3)] serve_allowed [OF assms(4)] by (simp add: loadServeConfig_def)
qed

definition blank_codec :: "(CallToolResult, nat) codec" where
  "blank_codec = \<lparr>cd_result = (\<lambda>_. None), cd_unresult = (\<lambda>_. None), cd_out = (\<lambda>_. None)\<rparr>"

definition blank_journal :: "(string, journalEntry) gomap store" where
  "blank_journal = \<lparr>st_file = Absent, st_script = []\<rparr>"

definition served :: "serveConfig \<Rightarrow> (ledger, unit, nat) harness" where
  "served cfg = projr (serve_harness ledger_billing blank_codec 0 cfg \<lparr>ld_balances = [], ld_store = \<lparr>st_file = Absent, st_script = []\<rparr>\<rparr> blank_journal)"

lemma served: "serve_harness ledger_billing blank_codec 0 cfg \<lparr>ld_balances = [], ld_store = \<lparr>st_file = Absent, st_script = []\<rparr>\<rparr> blank_journal = Inr (served cfg)"
  by (simp add: served_def serve_harness_def NewHarness_def openJournal_def openCallJournal_def open_file_def blank_journal_def Let_def split_beta)

lemma first_start_serves_nobody_witness:
  "case loadServeConfig \<lparr>pf_file = Absent, pf_script = []\<rparr> of
     (Inr cfg, f) \<Rightarrow> \<not> Allowed (served cfg) ''eve'' \<and> Allowed (served (cfg\<lparr>sv_AllowedUIDs := [''ann'']\<rparr>)) ''ann''
   | _ \<Rightarrow> False"
proof -
  let ?f = "\<lparr>pf_file = Absent, pf_script = []\<rparr> :: serveConfig plain_file"
  obtain cfg f' where l: "loadServeConfig ?f = (Inr cfg, f')" by (simp add: loadServeConfig_def write_file_def Let_def)
  show ?thesis
    using first_start_serves_nobody [OF _ l served served, of "''eve''" "[]"]
      first_start_serves_nobody [OF _ l served served, of "''ann''" "[''ann'']"] l by simp
qed

end
