(* ===== verification/DirAdmin.thy ===== *)
theory DirAdmin
  imports Registry "HOL-Library.Char_ord" "HOL-Library.List_Lexorder"
begin

text \<open>
  The directory's administration and maintenance: \<^verbatim>\<open>directory/admin.go\<close>, the sweeps of
  \<^verbatim>\<open>directory/pipeline.go\<close>, and the start of \<^verbatim>\<open>directory/service.go\<close>. Operations that look at the index and
  act on it in a second locked section come in two parts and as their composition.
\<close>

section \<open>Expiry and refresh\<close>

definition expire_delete :: "string \<Rightarrow> 'b registry \<Rightarrow> 'b registry" where
  "expire_delete uid g = g\<lparr>rg_index := snd (js_delete uid (rg_index g))\<rparr>"

definition expire_clear :: "string \<Rightarrow> int64 \<Rightarrow> 'b registry \<Rightarrow> 'b registry" where
  "expire_clear uid now g =
     (let e = entry_of g uid in
      case e_Live e of
        None \<Rightarrow> g
      | Some l \<Rightarrow> if now < l_expires l then g else snd (put_entry uid (e\<lparr>e_Live := None\<rparr>) g))"

text \<open>The look of \<^verbatim>\<open>expire\<close>: nothing, a deletion, or a clearing.\<close>

datatype expiry = NotExpired | DeleteIt | ClearIt

definition expire_look :: "string \<Rightarrow> int64 \<Rightarrow> 'b registry \<Rightarrow> expiry" where
  "expire_look uid now g = (case js_get uid (rg_index g) of
     None \<Rightarrow> NotExpired
   | Some e \<Rightarrow> (case e_Live e of
       None \<Rightarrow> NotExpired
     | Some l \<Rightarrow> if now < l_expires l then NotExpired else if e_Reg e = None then DeleteIt else ClearIt))"

definition expire :: "string \<Rightarrow> int64 \<Rightarrow> 'b registry \<Rightarrow> 'b registry" where
  "expire uid now g = (case expire_look uid now g of
     NotExpired \<Rightarrow> g | DeleteIt \<Rightarrow> expire_delete uid g | ClearIt \<Rightarrow> expire_clear uid now g)"

definition recrawl_commit :: "string \<Rightarrow> string \<Rightarrow> 'b registry \<Rightarrow> 'b registry" where
  "recrawl_commit uid cat g =
     (let e = entry_of g uid in
      case e_Live e of
        None \<Rightarrow> g
      | Some l \<Rightarrow> snd (put_entry uid (e\<lparr>e_Live := Some (l\<lparr>l_catalog := Some cat, l_checked := unix (rg_now g)\<rparr>)\<rparr>) g))"

text \<open>\<open>crawled\<close> is what the crawl of a peer answers.\<close>

definition recrawlListing :: "(string \<Rightarrow> string + string) \<Rightarrow> string \<Rightarrow> 'b registry \<Rightarrow> 'b registry" where
  "recrawlListing crawled uid g = (case crawled uid of Inl _ \<Rightarrow> g | Inr cat \<Rightarrow> recrawl_commit uid cat g)"

definition sweep_entry :: "'b Billing \<Rightarrow> (string \<Rightarrow> string + string) \<Rightarrow> int64 \<Rightarrow> string \<times> Entry \<Rightarrow> 'b registry \<Rightarrow> 'b registry" where
  "sweep_entry B crawled now ue g = (case ue of (uid, e) \<Rightarrow>
     if (case e_Live e of None \<Rightarrow> False | Some l \<Rightarrow> l_expires l \<le> now) then expire uid now g
     else
       let g = (if (case e_Live e of None \<Rightarrow> False
                    | Some l \<Rightarrow> mul64 (py_recrawlHours (rg_policy g)) 3600 \<le> sub64 now (l_checked l))
                then recrawlListing crawled uid g else g)
       in (case e_Reg e of
            None \<Rightarrow> g
          | Some r \<Rightarrow> if r_state r = RegAwaitingFunding then fst (pokeFunding B uid g) else g))"

definition dir_sweep :: "'b Billing \<Rightarrow> (string \<Rightarrow> string + string) \<Rightarrow> 'b registry \<Rightarrow> 'b registry" where
  "dir_sweep B crawled g = fold (sweep_entry B crawled (unix (rg_now g))) (js_all (rg_index g)) g"

section \<open>Start\<close>

text \<open>\<^verbatim>\<open>New\<close>, over the files of the data directory and the balances \<open>b\<close> that the harness has loaded; the first
  file that cannot be opened refuses the start.\<close>

definition dir_New :: "Policy \<Rightarrow> string \<Rightarrow> 'b \<Rightarrow> instant \<Rightarrow> (string, Entry) gomap store \<Rightarrow> (string, Peer) gomap store \<Rightarrow>
    (string, Lead) gomap store \<Rightarrow> dir_spend list store \<Rightarrow> open_error + 'b registry" where
  "dir_New pol self b now index peers leads spend =
     (case openJSONStore index of Inl e \<Rightarrow> Inl e | Inr ix \<Rightarrow>
      case openJSONStore peers of Inl e \<Rightarrow> Inl e | Inr ps \<Rightarrow>
      case openJSONStore leads of Inl e \<Rightarrow> Inl e | Inr ls \<Rightarrow>
      case openSpendJournal spend of Inl e \<Rightarrow> Inl e | Inr sp \<Rightarrow>
        Inr \<lparr>rg_policy = policy_withDefaults pol, rg_index = ix, rg_leads = ls, rg_peers = ps, rg_spend = sp, rg_billing = b,
          rg_self = self, rg_inflight = [], rg_pipes = [], rg_started = False, rg_closed = False, rg_now = now\<rparr>)"

text \<open>A new process over the files that \<open>g\<close> leaves.\<close>

definition dir_restart :: "Policy \<Rightarrow> 'b \<Rightarrow> 'b registry \<Rightarrow> open_error + 'b registry" where
  "dir_restart pol b g = dir_New pol (rg_self g) b (rg_now g) (js_file (rg_index g)) (js_file (rg_peers g))
     (js_file (rg_leads g)) (sj_store (rg_spend g))"

definition resume_entry :: "'b Billing \<Rightarrow> string \<times> Entry \<Rightarrow> 'b registry \<Rightarrow> 'b registry" where
  "resume_entry B ue g = (case ue of (uid, e) \<Rightarrow> (case e_Reg e of
     None \<Rightarrow> g
   | Some r \<Rightarrow> (case r_state r of
       RegAwaitingFunding \<Rightarrow> fst (pokeFunding B uid g)
     | RegCrawling \<Rightarrow> spawnPipeline uid g
     | RegTesting \<Rightarrow> spawnPipeline uid g
     | RegPendingReview \<Rightarrow> g)))"

definition dir_Start :: "'b Billing \<Rightarrow> 'b registry \<Rightarrow> 'b registry" where
  "dir_Start B g = (let g = g\<lparr>rg_started := True\<rparr> in fold (resume_entry B) (js_all (rg_index g)) g)"

definition dir_Close :: "'b registry \<Rightarrow> 'b registry" where
  "dir_Close g = g\<lparr>rg_closed := True\<rparr>"

definition LiveListings :: "'b registry \<Rightarrow> nat" where
  "LiveListings g = length (filter (\<lambda>ue. e_Live (snd ue) \<noteq> None) (js_all (rg_index g)))"

definition SetSelfUID :: "string \<Rightarrow> 'b registry \<Rightarrow> 'b registry" where
  "SetSelfUID uid g = g\<lparr>rg_self := uid\<rparr>"

section \<open>Administration\<close>

definition isAdmin :: "'b registry \<Rightarrow> string \<Rightarrow> bool" where
  "isAdmin g uid \<longleftrightarrow> uid \<in> set (py_admins (rg_policy g))"

definition toolVisible :: "string list \<Rightarrow> 'b registry \<Rightarrow> string \<Rightarrow> string \<Rightarrow> bool" where
  "toolVisible adminTools g peer tool \<longleftrightarrow> tool \<notin> set adminTools \<or> isAdmin g peer"

definition spotCheck :: "'b Billing \<Rightarrow> string \<Rightarrow> string \<Rightarrow> 'b registry \<Rightarrow> string option \<times> 'b registry" where
  "spotCheck B key uid g =
     (let e = entry_of g uid in
      case e_Live e of
        None \<Rightarrow> (Some ''no listing for that uid'', g)
      | Some l \<Rightarrow>
          if e_Reg e \<noteq> None then (Some ''a registration is already in flight'', g)
          else
            let bal = bl_balance B (rg_billing g) uid in
            if bal < ts_max (l_test l) then
              (Some (''provider balance '' @ dec_of_int bal @ '' cannot fund the '' @ dec_of_int (ts_max (l_test l)) @ '' atom test''), g)
            else
              (case put_entry uid (e\<lparr>e_Reg := Some \<lparr>r_state = RegTesting, r_description = l_description l, r_tags = l_tags l,
                   r_test = l_test l, r_fee = 0, r_budget = ts_max (l_test l), r_callKey = key, r_paid = 0, r_renewal = True,
                   r_created = unix (rg_now g), r_catalog = l_catalog l, r_outcome = '''', r_err = '''', r_latency = 0\<rparr>\<rparr>) g of
                 (Some _, g) \<Rightarrow> (Some ''store'', g)
               | (None, g) \<Rightarrow> (None, spawnPipeline uid g)))"

definition unlist_clear :: "string \<Rightarrow> 'b registry \<Rightarrow> string option \<times> 'b registry" where
  "unlist_clear uid g =
     (let e = entry_of g uid in
      if e_Live e = None then (Some ''no listing for that uid'', g)
      else case put_entry uid (e\<lparr>e_Live := None\<rparr>) g of (err, g) \<Rightarrow> (map_option (\<lambda>_. ''store'') err, g))"

definition unlist :: "string \<Rightarrow> 'b registry \<Rightarrow> string option \<times> 'b registry" where
  "unlist uid g = (case unlist_clear uid g of
     (Some err, g) \<Rightarrow> (Some err, g)
   | (None, g) \<Rightarrow>
       let e = entry_of g uid in
       (None, if e_Reg e = None \<and> e_Flag e = '''' then expire_delete uid g else g))"

definition flag_entry :: "string \<Rightarrow> string \<Rightarrow> 'b registry \<Rightarrow> string option \<times> 'b registry" where
  "flag_entry uid note g =
     (case put_entry uid ((entry_of g uid)\<lparr>e_Flag := note\<rparr>) g of (err, g) \<Rightarrow> (map_option (\<lambda>_. ''store'') err, g))"

section \<open>Admin tools\<close>

text \<open>The audit trail: appended, never rewritten; an append that cannot be written is skipped. The arguments
  are the fields of the tool's input.\<close>

record audit_entry =
  al_ts :: int64
  al_actor :: string
  al_action :: string
  al_args :: "string list"

definition alog_append :: "bool \<Rightarrow> instant \<Rightarrow> string \<Rightarrow> string \<times> string list \<Rightarrow> audit_entry list \<Rightarrow> audit_entry list" where
  "alog_append writable now actor action log =
     (if writable then log @ [\<lparr>al_ts = unix now, al_actor = actor, al_action = fst action, al_args = snd action\<rparr>] else log)"

record ProviderOut =
  po_UID :: string
  po_description :: string
  po_tags :: "string list"
  po_catalog :: "string option"
  po_checked :: int64
  po_verified :: int64
  po_latency :: int64
  po_approved :: int64
  po_renewed :: int64
  po_expires :: int64

definition providerOut :: "string \<Rightarrow> Listing \<Rightarrow> ProviderOut" where
  "providerOut uid l = \<lparr>po_UID = uid, po_description = l_description l, po_tags = l_tags l, po_catalog = l_catalog l,
     po_checked = l_checked l, po_verified = l_verified l, po_latency = l_latency l, po_approved = l_approved l,
     po_renewed = l_renewed l, po_expires = l_expires l\<rparr>"

text \<open>The tools that change the index or the peers; a fresh call key comes with \<^verbatim>\<open>run_verification\<close>, the answer
  of the crawl with \<^verbatim>\<open>recrawl\<close>.\<close>

datatype admin_call =
    Approve string
  | Reject string string
  | SpotCheck string string
  | Recrawl string "string + string"
  | Unlist string
  | Flag string string
  | AddPeer string string
  | RemovePeer string

fun admin_action :: "admin_call \<Rightarrow> string \<times> string list" where
  "admin_action (Approve uid) = (''approve'', [uid])"
| "admin_action (Reject uid reason) = (''reject'', [uid, reason])"
| "admin_action (SpotCheck uid _) = (''run_verification'', [uid])"
| "admin_action (Recrawl uid _) = (''recrawl'', [uid])"
| "admin_action (Unlist uid) = (''unlist'', [uid])"
| "admin_action (Flag uid msg) = (''flag'', [uid, msg])"
| "admin_action (AddPeer uid pub) = (''add_peer'', [uid, pub])"
| "admin_action (RemovePeer uid) = (''remove_peer'', [uid])"

datatype admin_reply = ReplyStatus StatusOut | ReplyProvider ProviderOut | ReplyDone

definition reply_of :: "string option \<times> 'b registry \<Rightarrow> ('b registry \<Rightarrow> admin_reply) \<Rightarrow> (string + admin_reply) \<times> 'b registry \<times> bool" where
  "reply_of r f = (case r of (Some err, g) \<Rightarrow> (Inl err, g, False) | (None, g) \<Rightarrow> (Inr (f g), g, True))"

definition add_peer :: "string \<Rightarrow> string \<Rightarrow> 'b registry \<Rightarrow> string option \<times> 'b registry" where
  "add_peer uid pub g =
     (if length uid \<noteq> 64 \<or> pub = '''' then (Some ''uid (64-hex) and pubKey are required'', g)
      else case js_put uid \<lparr>p_PubKey = pub, p_AddedAt = unix (rg_now g), p_LastVerifiedAt = 0\<rparr> (rg_peers g) of
        (err, s) \<Rightarrow> (map_option (\<lambda>_. ''store'') err, g\<lparr>rg_peers := s\<rparr>))"

definition remove_peer :: "string \<Rightarrow> 'b registry \<Rightarrow> string option \<times> 'b registry" where
  "remove_peer uid g = (case js_delete uid (rg_peers g) of (err, s) \<Rightarrow> (map_option (\<lambda>_. ''store'') err, g\<lparr>rg_peers := s\<rparr>))"

text \<open>The body of each tool: its reply, the state, and whether it came to write the trail.\<close>

fun admin_do :: "'b Billing \<Rightarrow> admin_call \<Rightarrow> 'b registry \<Rightarrow> (string + admin_reply) \<times> 'b registry \<times> bool" where
  "admin_do B (Approve uid) g = reply_of (approveRegistration uid g) (\<lambda>g. ReplyStatus (statusFor B uid g))"
| "admin_do B (Reject uid reason) g = reply_of (rejectRegistration uid reason g) (\<lambda>g. ReplyStatus (statusFor B uid g))"
| "admin_do B (SpotCheck uid key) g = reply_of (spotCheck B key uid g) (\<lambda>g. ReplyStatus (statusFor B uid g))"
| "admin_do B (Recrawl uid res) g =
     (if e_Live (entry_of g uid) = None then (Inl ''no listing for that uid'', g, False)
      else let g = recrawlListing (\<lambda>_. res) uid g in
        (case e_Live (entry_of g uid) of
           None \<Rightarrow> (Inl ''listing vanished during recrawl'', g, True)
         | Some l \<Rightarrow> (Inr (ReplyProvider (providerOut uid l)), g, True)))"
| "admin_do B (Unlist uid) g = reply_of (unlist uid g) (\<lambda>_. ReplyDone)"
| "admin_do B (Flag uid msg) g = reply_of (flag_entry uid msg g) (\<lambda>_. ReplyDone)"
| "admin_do B (AddPeer uid pub) g = reply_of (add_peer uid pub g) (\<lambda>_. ReplyDone)"
| "admin_do B (RemovePeer uid) g = reply_of (remove_peer uid g) (\<lambda>_. ReplyDone)"

text \<open>\<^verbatim>\<open>adminTool\<close>: the check on the caller, the body, and one line in the trail.\<close>

definition adminTool :: "'b Billing \<Rightarrow> bool \<Rightarrow> string \<Rightarrow> admin_call \<Rightarrow> 'b registry \<times> audit_entry list \<Rightarrow>
    (string + admin_reply) \<times> 'b registry \<times> audit_entry list" where
  "adminTool B writable peer c s = (case s of (g, log) \<Rightarrow>
     if \<not> isAdmin g peer then (Inl ''admin only'', g, log)
     else case admin_do B c g of (r, g', logged) \<Rightarrow>
       (r, g', if logged then alog_append writable (rg_now g) peer (admin_action c) log else log))"

section \<open>Reports\<close>

record StatsOut =
  sx_live :: nat
  sx_inPipeline :: nat
  sx_pendingReview :: nat
  sx_leads :: nat
  sx_peers :: nat
  sx_spendEntries :: nat
  sx_spendAtoms :: int64

fun count_entry :: "string \<times> Entry \<Rightarrow> StatsOut \<Rightarrow> StatsOut" where
  "count_entry (_, e) o1 =
     (let o2 = (if e_Live e \<noteq> None then o1\<lparr>sx_live := sx_live o1 + 1\<rparr> else o1) in
      case e_Reg e of
        None \<Rightarrow> o2
      | Some r \<Rightarrow> if r_state r = RegPendingReview then o2\<lparr>sx_pendingReview := sx_pendingReview o2 + 1\<rparr>
          else o2\<lparr>sx_inPipeline := sx_inPipeline o2 + 1\<rparr>)"

definition count_spend :: "dir_spend \<Rightarrow> StatsOut \<Rightarrow> StatsOut" where
  "count_spend sp o1 = o1\<lparr>sx_spendEntries := sx_spendEntries o1 + 1, sx_spendAtoms := add64 (sx_spendAtoms o1) (ds_atoms sp)\<rparr>"

definition stats :: "'b registry \<Rightarrow> StatsOut" where
  "stats g =
     (let o1 = fold count_entry (js_all (rg_index g)) \<lparr>sx_live = 0, sx_inPipeline = 0, sx_pendingReview = 0, sx_leads = 0,
            sx_peers = 0, sx_spendEntries = 0, sx_spendAtoms = 0\<rparr>;
          o2 = o1\<lparr>sx_leads := length (js_all (rg_leads g)), sx_peers := length (js_all (rg_peers g))\<rparr>
      in fold count_spend (all_spends (rg_spend g)) o2)"

text \<open>The review queue: every registration under way, by uid.\<close>

record PendingOut =
  pd_UID :: string
  pd_State :: string
  pd_Description :: string
  pd_Tags :: "string list"
  pd_Test :: TestSpec
  pd_Renewal :: bool
  pd_Outcome :: string
  pd_Err :: string
  pd_FeeAtoms :: int64
  pd_BudgetAtoms :: int64
  pd_PaidAtoms :: int64
  pd_CreatedAt :: int64

definition pending_out :: "string \<Rightarrow> Registration \<Rightarrow> PendingOut" where
  "pending_out uid r = \<lparr>pd_UID = uid, pd_State = state_name (r_state r), pd_Description = r_description r, pd_Tags = r_tags r,
     pd_Test = r_test r, pd_Renewal = r_renewal r, pd_Outcome = r_outcome r, pd_Err = r_err r, pd_FeeAtoms = r_fee r,
     pd_BudgetAtoms = r_budget r, pd_PaidAtoms = r_paid r, pd_CreatedAt = r_created r\<rparr>"

definition pending_registrations :: "'b registry \<Rightarrow> PendingOut list" where
  "pending_registrations g = map (\<lambda>(uid, r). pending_out uid r)
     (sort_key fst (List.map_filter (\<lambda>ue. map_option (Pair (fst ue)) (e_Reg (snd ue))) (js_all (rg_index g))))"

definition leads_out :: "'b registry \<Rightarrow> Lead list" where
  "leads_out g = sort_key ld_ProviderUID (map snd (js_all (rg_leads g)))"

end
