(* ===== verification/Verified.thy ===== *)
theory Verified
  imports DirAdmin
begin

text \<open>
  What a listing stands for. The operations of the directory take turns as the steps \<open>dir_step\<close>, one per
  section under a mutex; beside the state we log which fees were taken and which tests were passed. Listings
  stand for a fee and a passed test of their own as long as nobody discards a registration under its
  running pipeline.
\<close>

section \<open>Steps\<close>

datatype 'b dir_event =
    DRegister string RegisterIn
  | DPoke string
  | DCredit string int64
  | DPipeStart nat
  | DCrawled nat "string + string" bool string
  | DReread nat
  | DDebit nat int64
  | DRefund nat
  | DTested nat test_result bool
  | DPromote nat
  | DEnd nat
  | DApprove string
  | DReject string string
  | DSpot string string
  | DUnlist string
  | DDrop string
  | DClear string int64
  | DRecrawl string string
  | DFlag string string
  | DTick duration
  | DLead string
  | DSelf string
  | DStart
  | DResume string
  | DClose
  | DRestart Policy 'b
  | DAddPeer string string
  | DRemovePeer string

definition on_pipe :: "nat \<Rightarrow> ('b registry \<Rightarrow> 'b registry option) \<Rightarrow> 'b registry \<Rightarrow> 'b registry option" where
  "on_pipe i f g = (if i < length (rg_pipes g) then f g else None)"

text \<open>\<open>DDrop\<close> is the deletion that \<^verbatim>\<open>expire\<close> and \<^verbatim>\<open>unlist\<close> carry out some time after they looked.\<close>

fun dir_step :: "'b Billing \<Rightarrow> 'b dir_event \<Rightarrow> 'b registry \<Rightarrow> 'b registry option" where
  "dir_step B (DRegister uid i) g =
     (if validateRegister i (py_budgetMax (rg_policy g)) = None then Some (snd (register_commit uid i g)) else None)"
| "dir_step B (DPoke uid) g = Some (fst (pokeFunding B uid g))"
| "dir_step B (DCredit uid n) g = (if 0 < n then Some (g\<lparr>rg_billing := snd (bl_credit B (rg_billing g) uid n)\<rparr>) else None)"
| "dir_step B (DPipeStart i) g = on_pipe i (pipe_start i) g"
| "dir_step B (DCrawled i res stopped key) g = on_pipe i (pipe_crawled i res stopped key) g"
| "dir_step B (DReread i) g = on_pipe i (pipe_reread i) g"
| "dir_step B (DDebit i n) g = on_pipe i (test_debit B i n) g"
| "dir_step B (DRefund i) g = on_pipe i (test_refund B i) g"
| "dir_step B (DTested i t stopped) g = on_pipe i (pipe_tested i t stopped) g"
| "dir_step B (DPromote i) g = on_pipe i (pipe_promote i) g"
| "dir_step B (DEnd i) g = on_pipe i (pipe_end i) g"
| "dir_step B (DApprove uid) g = Some (snd (approveRegistration uid g))"
| "dir_step B (DReject uid reason) g = Some (snd (rejectRegistration uid reason g))"
| "dir_step B (DSpot uid key) g = Some (snd (spotCheck B key uid g))"
| "dir_step B (DUnlist uid) g = Some (snd (unlist_clear uid g))"
| "dir_step B (DDrop uid) g = Some (expire_delete uid g)"
| "dir_step B (DClear uid now) g = Some (expire_clear uid now g)"
| "dir_step B (DRecrawl uid cat) g = Some (recrawl_commit uid cat g)"
| "dir_step B (DFlag uid note) g = Some (snd (flag_entry uid note g))"
| "dir_step B (DTick d) g = (if 0 \<le> d then Some (g\<lparr>rg_now := rg_now g + d\<rparr>) else None)"
| "dir_step B (DLead uid) g = Some (convertLead uid g)"
| "dir_step B (DSelf uid) g = Some (SetSelfUID uid g)"
| "dir_step B DStart g = Some (g\<lparr>rg_started := True\<rparr>)"
| "dir_step B (DResume uid) g = Some (spawnPipeline uid g)"
| "dir_step B DClose g = Some (dir_Close g)"
| "dir_step B (DRestart pol b) g = (case dir_restart pol b g of Inl _ \<Rightarrow> None | Inr g' \<Rightarrow> Some g')"
| "dir_step B (DAddPeer uid pub) g = Some (snd (add_peer uid pub g))"
| "dir_step B (DRemovePeer uid) g = Some (snd (remove_peer uid g))"

section \<open>The log\<close>

datatype dir_fact = Charged string int64 | Passed string TestSpec

fun dir_log :: "'b Billing \<Rightarrow> 'b dir_event \<Rightarrow> 'b registry \<Rightarrow> dir_fact list" where
  "dir_log B (DPoke uid) g =
     (if snd (pokeFunding B uid g) then (case e_Reg (entry_of g uid) of None \<Rightarrow> [] | Some r \<Rightarrow> [Charged uid (r_fee r)]) else [])"
| "dir_log B (DTested i t stopped) g = (let p = rg_pipes g ! i in case pl_phase p of
     PTest reg \<Rightarrow> if tr_outcome t = ''ok'' then [Passed (pl_uid p) (r_test reg)] else []
   | _ \<Rightarrow> [])"
| "dir_log B _ g = []"

fun dir_run :: "'b Billing \<Rightarrow> 'b dir_event list \<Rightarrow> 'b registry \<times> dir_fact list \<Rightarrow> ('b registry \<times> dir_fact list) option" where
  "dir_run B [] s = Some s"
| "dir_run B (e # es) (g, log) = (case dir_step B e g of None \<Rightarrow> None | Some g' \<Rightarrow> dir_run B es (g', log @ dir_log B e g))"

text \<open>Nobody discards an entry under its running pipeline.\<close>

fun discards :: "'b dir_event \<Rightarrow> string option" where
  "discards (DReject uid _) = Some uid"
| "discards (DDrop uid) = Some uid"
| "discards _ = None"

fun calm :: "'b Billing \<Rightarrow> 'b dir_event list \<Rightarrow> 'b registry \<Rightarrow> bool" where
  "calm B [] g = True"
| "calm B (e # es) g = ((case discards e of None \<Rightarrow> True | Some uid \<Rightarrow> \<not> gbool (rg_inflight g) uid) \<and>
     (case dir_step B e g of None \<Rightarrow> True | Some g' \<Rightarrow> calm B es g'))"

section \<open>Invariant\<close>

definition fee_charged :: "dir_fact list \<Rightarrow> string \<Rightarrow> bool" where
  "fee_charged log uid \<longleftrightarrow> (\<exists>n. Charged uid n \<in> set log)"

definition reg_ok :: "dir_fact list \<Rightarrow> string \<Rightarrow> Registration \<Rightarrow> bool" where
  "reg_ok log uid r \<longleftrightarrow>
     (if r_state r = RegAwaitingFunding then r_outcome r \<noteq> ''ok''
      else fee_charged log uid \<and> (r_fee r \<noteq> 0 \<longrightarrow> Charged uid (r_fee r) \<in> set log)) \<and>
     (r_outcome r = ''ok'' \<longrightarrow> Passed uid (r_test r) \<in> set log)"

definition live_ok :: "dir_fact list \<Rightarrow> string \<Rightarrow> Listing \<Rightarrow> bool" where
  "live_ok log uid l \<longleftrightarrow> fee_charged log uid \<and> Passed uid (l_test l) \<in> set log"

definition entry_ok :: "dir_fact list \<Rightarrow> string \<Rightarrow> Entry \<Rightarrow> bool" where
  "entry_ok log uid e \<longleftrightarrow> (\<forall>r. e_Reg e = Some r \<longrightarrow> reg_ok log uid r) \<and> (\<forall>l. e_Live e = Some l \<longrightarrow> live_ok log uid l)"

text \<open>A pipeline that crawls or tests works on the registration that is in the index.\<close>

fun owns :: "pipe_phase \<Rightarrow> Entry \<Rightarrow> bool" where
  "owns (PCrawl reg) e = (e_Reg e = Some reg \<and> r_state reg = RegCrawling)"
| "owns (PTest reg) e = (e_Reg e = Some reg \<and> r_state reg = RegTesting)"
| "owns _ e = True"

definition pipes_ok :: "'b registry \<Rightarrow> bool" where
  "pipes_ok g \<longleftrightarrow> (\<forall>i < length (rg_pipes g). pl_phase (rg_pipes g ! i) \<noteq> PDone \<longrightarrow>
     gbool (rg_inflight g) (pl_uid (rg_pipes g ! i)) \<and>
     owns (pl_phase (rg_pipes g ! i)) (entry_of g (pl_uid (rg_pipes g ! i))) \<and>
     (\<forall>j < length (rg_pipes g). pl_phase (rg_pipes g ! j) \<noteq> PDone \<and> pl_uid (rg_pipes g ! j) = pl_uid (rg_pipes g ! i) \<longrightarrow> j = i))"

text \<open>The entries that a restart would load.\<close>

definition rg_disk :: "'b registry \<Rightarrow> string \<Rightarrow> Entry" where
  "rg_disk g uid = (case openJSONStore (js_file (rg_index g)) of Inl _ \<Rightarrow> no_entry | Inr s \<Rightarrow> js_val no_entry s uid)"

definition dir_ok :: "'b registry \<times> dir_fact list \<Rightarrow> bool" where
  "dir_ok s \<longleftrightarrow> (case s of (g, log) \<Rightarrow>
     (\<forall>uid. entry_ok log uid (entry_of g uid)) \<and> (\<forall>uid. entry_ok log uid (rg_disk g uid)) \<and> pipes_ok g)"

lemma put_entry_simps [simp]:
  "entry_of (snd (put_entry uid e g)) = (entry_of g)(uid := e)"
  "rg_pipes (snd (put_entry uid e g)) = rg_pipes g" "rg_inflight (snd (put_entry uid e g)) = rg_inflight g"
  by (auto simp: put_entry_def entry_of_def js_val_def fun_eq_iff split_beta)

lemma disk_persisted: "rg_disk (g\<lparr>rg_index := snd (js_persistLocked s)\<rparr>) =
    (if fst (js_persistLocked s) = None then entry_of (g\<lparr>rg_index := s\<rparr>)
     else rg_disk (g\<lparr>rg_index := s\<rparr>))"
  by (auto simp: rg_disk_def entry_of_def openJSONStore_def open_file_def persist_atomic js_val_def fun_eq_iff split: disk_file.splits)

lemma put_entry_disk [simp]: "rg_disk (snd (put_entry uid e g)) =
    (if fst (put_entry uid e g) = None then (entry_of g)(uid := e) else rg_disk g)"
  by (auto simp: put_entry_def js_put_def split_beta disk_persisted simp del: js_persist_simps)
    (auto simp: entry_of_def js_val_def fun_eq_iff rg_disk_def)

lemma entry_of_drop [simp]: "entry_of (expire_delete uid g) = (entry_of g)(uid := no_entry)"
  "rg_pipes (expire_delete uid g) = rg_pipes g" "rg_inflight (expire_delete uid g) = rg_inflight g"
  by (auto simp: expire_delete_def entry_of_def js_val_def fun_eq_iff)

lemma disk_drop: "rg_disk (expire_delete uid g) = rg_disk g \<or> rg_disk (expire_delete uid g) = (entry_of g)(uid := no_entry)"
proof (cases "map_of (js_m (rg_index g)) uid")
  case None
  then show ?thesis by (simp add: expire_delete_def js_delete_def)
next
  case (Some e)
  have "entry_of (g\<lparr>rg_index := (rg_index g)\<lparr>js_m := gdel uid (js_m (rg_index g))\<rparr>\<rparr>) = (entry_of g)(uid := no_entry)"
    by (auto simp: entry_of_def js_val_def fun_eq_iff)
  then show ?thesis using Some
    by (simp add: expire_delete_def js_delete_def disk_persisted del: js_persist_simps) (simp add: rg_disk_def fun_eq_iff)
qed

lemma entry_of_frame [simp]:
  "entry_of (g\<lparr>rg_billing := b\<rparr>) = entry_of g" "entry_of (g\<lparr>rg_pipes := ps\<rparr>) = entry_of g"
  "entry_of (g\<lparr>rg_inflight := fl\<rparr>) = entry_of g" "entry_of (g\<lparr>rg_now := t\<rparr>) = entry_of g"
  "rg_disk (g\<lparr>rg_billing := b\<rparr>) = rg_disk g" "rg_disk (g\<lparr>rg_pipes := ps\<rparr>) = rg_disk g"
  "rg_disk (g\<lparr>rg_inflight := fl\<rparr>) = rg_disk g" "rg_disk (g\<lparr>rg_now := t\<rparr>) = rg_disk g"
  "rg_disk (set_pipe i ph g) = rg_disk g" "rg_disk (spawnPipeline uid g) = rg_disk g"
  "entry_of (g\<lparr>rg_started := c\<rparr>) = entry_of g" "rg_disk (g\<lparr>rg_started := c\<rparr>) = rg_disk g"
  "entry_of (dir_Close g) = entry_of g" "rg_disk (dir_Close g) = rg_disk g"
  "entry_of (SetSelfUID uid g) = entry_of g" "rg_disk (SetSelfUID uid g) = rg_disk g"
  "entry_of (convertLead uid g) = entry_of g" "rg_disk (convertLead uid g) = rg_disk g"
  "entry_of (snd (add_peer uid pub g)) = entry_of g" "rg_disk (snd (add_peer uid pub g)) = rg_disk g"
  "entry_of (snd (remove_peer uid g)) = entry_of g" "rg_disk (snd (remove_peer uid g)) = rg_disk g"
  by (simp_all add: entry_of_def rg_disk_def set_pipe_def spawnPipeline_def dir_Close_def SetSelfUID_def convertLead_def
    add_peer_def remove_peer_def Let_def fun_eq_iff split_beta)

lemma pipes_frame [simp]:
  "rg_pipes (dir_Close g) = rg_pipes g" "rg_inflight (dir_Close g) = rg_inflight g"
  "rg_pipes (SetSelfUID uid g) = rg_pipes g" "rg_inflight (SetSelfUID uid g) = rg_inflight g"
  "rg_pipes (convertLead uid g) = rg_pipes g" "rg_inflight (convertLead uid g) = rg_inflight g"
  "rg_pipes (snd (add_peer uid pub g)) = rg_pipes g" "rg_inflight (snd (add_peer uid pub g)) = rg_inflight g"
  "rg_pipes (snd (remove_peer uid g)) = rg_pipes g" "rg_inflight (snd (remove_peer uid g)) = rg_inflight g"
  by (simp_all add: dir_Close_def SetSelfUID_def convertLead_def add_peer_def remove_peer_def Let_def split_beta)

lemma restart_shape:
  assumes "dir_restart pol b g = Inr g'"
  shows "entry_of g' = rg_disk g" "rg_disk g' = rg_disk g" "rg_pipes g' = []"
  using assms by (auto simp: dir_restart_def dir_New_def entry_of_def rg_disk_def openJSONStore_def fun_eq_iff split: sum.splits)

lemma no_entry_ok [simp]: "entry_ok log uid no_entry"
  by (simp add: entry_ok_def no_entry_def)

lemma entry_ok_mono: "entry_ok log uid e \<Longrightarrow> entry_ok (log @ l) uid e"
  by (auto simp: entry_ok_def reg_ok_def live_ok_def fee_charged_def split: if_splits)

section \<open>Preservation\<close>

text \<open>Changing one entry: its new value must be justified, and no pipeline may own another registration of it.\<close>

definition held :: "'b registry \<Rightarrow> string \<Rightarrow> bool" where
  "held g uid \<longleftrightarrow> (\<exists>p \<in> set (rg_pipes g). pl_uid p = uid \<and> (\<exists>r. pl_phase p = PCrawl r \<or> pl_phase p = PTest r))"

lemma held_busy:
  assumes "pipes_ok g" "held g uid"
  shows "reg_busy (entry_of g uid) \<and> gbool (rg_inflight g) uid"
proof -
  obtain i r where i: "i < length (rg_pipes g)" "pl_uid (rg_pipes g ! i) = uid"
    "pl_phase (rg_pipes g ! i) = PCrawl r \<or> pl_phase (rg_pipes g ! i) = PTest r"
    using assms(2) unfolding held_def by (metis in_set_conv_nth)
  then have "gbool (rg_inflight g) uid" "owns (pl_phase (rg_pipes g ! i)) (entry_of g uid)"
    using assms(1) unfolding pipes_ok_def by fastforce+
  then show ?thesis using i(3) by (auto simp: reg_busy_def)
qed

lemma not_held:
  assumes "pipes_ok g" "i < length (rg_pipes g)" "pl_phase (rg_pipes g ! i) \<noteq> PDone"
    "\<And>r. pl_phase (rg_pipes g ! i) \<noteq> PCrawl r" "\<And>r. pl_phase (rg_pipes g ! i) \<noteq> PTest r"
  shows "\<not> held g (pl_uid (rg_pipes g ! i))"
proof
  assume "held g (pl_uid (rg_pipes g ! i))"
  then obtain j r where j: "j < length (rg_pipes g)" "pl_uid (rg_pipes g ! j) = pl_uid (rg_pipes g ! i)"
    "pl_phase (rg_pipes g ! j) = PCrawl r \<or> pl_phase (rg_pipes g ! j) = PTest r"
    unfolding held_def by (metis in_set_conv_nth)
  then have "pl_phase (rg_pipes g ! j) \<noteq> PDone" by auto
  then have "j = i" using assms(1-3) j unfolding pipes_ok_def by blast
  then show False using j(3) assms(4,5) by blast
qed

lemma pipes_ok_entry:
  assumes "pipes_ok g" "entry_of g' = (entry_of g)(uid := e)" "rg_pipes g' = rg_pipes g" "rg_inflight g' = rg_inflight g"
    "e_Reg e = e_Reg (entry_of g uid) \<or> \<not> held g uid"
  shows "pipes_ok g'"
  unfolding pipes_ok_def
proof (intro allI impI)
  fix i
  assume i: "i < length (rg_pipes g')" "pl_phase (rg_pipes g' ! i) \<noteq> PDone"
  let ?p = "rg_pipes g ! i"
  have p: "gbool (rg_inflight g) (pl_uid ?p)" "owns (pl_phase ?p) (entry_of g (pl_uid ?p))"
    "\<forall>j < length (rg_pipes g). pl_phase (rg_pipes g ! j) \<noteq> PDone \<and> pl_uid (rg_pipes g ! j) = pl_uid ?p \<longrightarrow> j = i"
    using assms(1,3) i by (simp_all add: pipes_ok_def)
  have "owns (pl_phase ?p) (entry_of g' (pl_uid ?p))"
  proof (cases "pl_uid ?p = uid")
    case True
    have "held g uid" if "pl_phase ?p = PCrawl r \<or> pl_phase ?p = PTest r" for r
      using that True i(1) assms(3) unfolding held_def by (metis nth_mem)
    then show ?thesis using p(2) True assms(2,5) by (cases "pl_phase ?p") auto
  next
    case False
    then show ?thesis using p(2) assms(2) by simp
  qed
  then show "gbool (rg_inflight g') (pl_uid (rg_pipes g' ! i)) \<and> owns (pl_phase (rg_pipes g' ! i)) (entry_of g' (pl_uid (rg_pipes g' ! i))) \<and>
     (\<forall>j < length (rg_pipes g'). pl_phase (rg_pipes g' ! j) \<noteq> PDone \<and> pl_uid (rg_pipes g' ! j) = pl_uid (rg_pipes g' ! i) \<longrightarrow> j = i)"
    using p unfolding assms(3,4) by blast
qed

lemma dir_ok_entry:
  assumes "dir_ok (g, log)" "entry_of g' = (entry_of g)(uid := e)" "rg_pipes g' = rg_pipes g" "rg_inflight g' = rg_inflight g"
    "e_Reg e = e_Reg (entry_of g uid) \<or> \<not> held g uid"
    "rg_disk g' = rg_disk g \<or> rg_disk g' = (entry_of g)(uid := e)" "entry_ok (log @ l) uid e"
  shows "dir_ok (g', log @ l)"
  using assms pipes_ok_entry [OF _ assms(2-5)] entry_ok_mono [of log]
  by (auto simp: dir_ok_def)

lemma dir_ok_frame:
  assumes "dir_ok (g, log)" "entry_of g' = entry_of g" "rg_pipes g' = rg_pipes g" "rg_inflight g' = rg_inflight g"
    "rg_disk g' = rg_disk g"
  shows "dir_ok (g', log @ l)"
  using assms entry_ok_mono [of log] unfolding dir_ok_def pipes_ok_def by simp

text \<open>A pipeline moves, and may change the entry it owns.\<close>

lemma pipes_ok_move:
  assumes "pipes_ok g" "i < length (rg_pipes g)" "pl_phase (rg_pipes g ! i) \<noteq> PDone" "u = pl_uid (rg_pipes g ! i)"
    "rg_pipes g' = (rg_pipes g)[i := q]" "pl_uid q = u" "rg_inflight g' = (if pl_phase q = PDone then gdel u (rg_inflight g) else rg_inflight g)"
    "\<And>v. v \<noteq> u \<Longrightarrow> entry_of g' v = entry_of g v" "owns (pl_phase q) (entry_of g' u)"
  shows "pipes_ok g'"
  unfolding pipes_ok_def
proof (intro allI impI)
  have D: "gbool (rg_inflight g) (pl_uid (rg_pipes g ! k)) \<and> owns (pl_phase (rg_pipes g ! k)) (entry_of g (pl_uid (rg_pipes g ! k)))"
    "\<And>j. j < length (rg_pipes g) \<Longrightarrow> pl_phase (rg_pipes g ! j) \<noteq> PDone \<Longrightarrow> pl_uid (rg_pipes g ! j) = pl_uid (rg_pipes g ! k) \<Longrightarrow> j = k"
    if "k < length (rg_pipes g)" "pl_phase (rg_pipes g ! k) \<noteq> PDone" for k
    using assms(1) that unfolding pipes_ok_def by blast+
  fix k
  assume k: "k < length (rg_pipes g')" "pl_phase (rg_pipes g' ! k) \<noteq> PDone"
  have other: "pl_uid (rg_pipes g ! j) \<noteq> u" if "j < length (rg_pipes g)" "pl_phase (rg_pipes g ! j) \<noteq> PDone" "j \<noteq> i" for j
    using D(2) [OF assms(2,3), of j] that assms(4) by auto
  have uid: "pl_uid (rg_pipes g' ! j) = pl_uid (rg_pipes g ! j)" if "j < length (rg_pipes g)" for j
    using assms(2,4,5,6) that by (cases "j = i") simp_all
  have ph: "pl_phase (rg_pipes g' ! j) = (if j = i then pl_phase q else pl_phase (rg_pipes g ! j))" if "j < length (rg_pipes g)" for j
    using assms(2,5) that by simp
  have len: "length (rg_pipes g') = length (rg_pipes g)" using assms(5) by simp
  have kk: "k < length (rg_pipes g)" using k len by simp
  show "gbool (rg_inflight g') (pl_uid (rg_pipes g' ! k)) \<and> owns (pl_phase (rg_pipes g' ! k)) (entry_of g' (pl_uid (rg_pipes g' ! k))) \<and>
     (\<forall>j < length (rg_pipes g'). pl_phase (rg_pipes g' ! j) \<noteq> PDone \<and> pl_uid (rg_pipes g' ! j) = pl_uid (rg_pipes g' ! k) \<longrightarrow> j = k)"
  proof (cases "k = i")
    case True
    then have "pl_phase q \<noteq> PDone" using k(2) ph kk by simp
    then show ?thesis using True D(1) [OF assms(2,3)] assms(4,7,9) uid ph other len kk by auto
  next
    case False
    then have o: "pl_phase (rg_pipes g ! k) \<noteq> PDone" using k(2) ph kk by simp
    then have n: "pl_uid (rg_pipes g ! k) \<noteq> u" using other kk False by simp
    have "\<forall>j < length (rg_pipes g'). pl_phase (rg_pipes g' ! j) \<noteq> PDone \<and> pl_uid (rg_pipes g' ! j) = pl_uid (rg_pipes g' ! k) \<longrightarrow> j = k"
    proof (intro allI impI)
      fix j assume j: "j < length (rg_pipes g')" "pl_phase (rg_pipes g' ! j) \<noteq> PDone \<and> pl_uid (rg_pipes g' ! j) = pl_uid (rg_pipes g' ! k)"
      then have "j \<noteq> i" using n uid kk len assms(2,4) by metis
      then show "j = k" using D(2) [OF kk o, of j] j ph uid kk len by simp
    qed
    then show ?thesis using D(1) [OF kk o] n False assms(7,8) uid ph kk by auto
  qed
qed

lemma dir_ok_move:
  assumes "dir_ok (g, log)" "i < length (rg_pipes g)" "pl_phase (rg_pipes g ! i) \<noteq> PDone" "u = pl_uid (rg_pipes g ! i)"
    "rg_pipes g' = (rg_pipes g)[i := q]" "pl_uid q = u" "rg_inflight g' = (if pl_phase q = PDone then gdel u (rg_inflight g) else rg_inflight g)"
    "entry_of g' = (entry_of g)(u := e)" "owns (pl_phase q) e" "entry_ok (log @ l) u e"
    "rg_disk g' = rg_disk g \<or> rg_disk g' = (entry_of g)(u := e)"
  shows "dir_ok (g', log @ l)"
proof -
  have "pipes_ok g'"
    by (rule pipes_ok_move [OF _ assms(2-7)]) (use assms in \<open>simp_all add: dir_ok_def\<close>)
  then show ?thesis using assms(1,8,10,11) entry_ok_mono [of log] by (auto simp: dir_ok_def)
qed

text \<open>A pipeline that moves without touching the index.\<close>

lemma dir_ok_phase:
  assumes "dir_ok (g, log)" "i < length (rg_pipes g)" "pl_phase (rg_pipes g ! i) \<noteq> PDone" "ph \<noteq> PDone"
    "owns ph (entry_of g (pl_uid (rg_pipes g ! i)))"
  shows "dir_ok (set_pipe i ph g, log @ l)"
  using assms entry_ok_mono [of log]
  by (intro dir_ok_move [OF assms(1-3) refl, where q = "(rg_pipes g ! i)\<lparr>pl_phase := ph\<rparr>"
      and e = "entry_of g (pl_uid (rg_pipes g ! i))"]) (simp_all add: set_pipe_def dir_ok_def)

text \<open>A pipeline that moves and writes the entry it works on.\<close>

lemma dir_ok_write:
  assumes "dir_ok (g, log)" "i < length (rg_pipes g)" "pl_phase (rg_pipes g ! i) \<noteq> PDone" "ph \<noteq> PDone"
    "u = pl_uid (rg_pipes g ! i)" "put_entry u e g = (err, g1)" "owns ph e" "entry_ok (log @ l) u e"
  shows "dir_ok (set_pipe i ph g1, log @ l)"
proof -
  have "g1 = snd (put_entry u e g)" using assms(6) by simp
  then show ?thesis using assms
    by (intro dir_ok_move [OF assms(1-3,5), where q = "(rg_pipes g ! i)\<lparr>pl_phase := ph\<rparr>" and e = e])
      (simp_all add: set_pipe_def)
qed

lemma dir_ok_spawn: "dir_ok (g, log) \<Longrightarrow> dir_ok (spawnPipeline uid g, log)"
proof (cases "rg_closed g \<or> gbool (rg_inflight g) uid \<or> \<not> rg_started g")
  case True
  then show "dir_ok (g, log) \<Longrightarrow> ?thesis" by (simp add: spawnPipeline_def)
next
  case False
  assume ok: "dir_ok (g, log)"
  have eq: "rg_pipes (spawnPipeline uid g) = rg_pipes g @ [\<lparr>pl_uid = uid, pl_phase = PStart, pl_debited = 0\<rparr>]"
    "rg_inflight (spawnPipeline uid g) = gput uid True (rg_inflight g)" "entry_of (spawnPipeline uid g) = entry_of g"
    using False by (simp_all add: spawnPipeline_def)
  have no: "pl_phase (rg_pipes g ! i) = PDone" if "i < length (rg_pipes g)" "pl_uid (rg_pipes g ! i) = uid" for i
    using ok False that unfolding dir_ok_def pipes_ok_def by auto
  have "pipes_ok (spawnPipeline uid g)" unfolding pipes_ok_def
  proof (intro allI impI)
    fix i assume i: "i < length (rg_pipes (spawnPipeline uid g))" "pl_phase (rg_pipes (spawnPipeline uid g) ! i) \<noteq> PDone"
    let ?P = "rg_pipes (spawnPipeline uid g)"
    have old: "?P ! j = rg_pipes g ! j" if "j < length (rg_pipes g)" for j using that by (simp add: eq nth_append)
    have new: "?P ! length (rg_pipes g) = \<lparr>pl_uid = uid, pl_phase = PStart, pl_debited = 0\<rparr>" by (simp add: eq)
    have len: "length ?P = Suc (length (rg_pipes g))" by (simp add: eq)
    show "gbool (rg_inflight (spawnPipeline uid g)) (pl_uid (?P ! i)) \<and>
        owns (pl_phase (?P ! i)) (entry_of (spawnPipeline uid g) (pl_uid (?P ! i))) \<and>
        (\<forall>j < length ?P. pl_phase (?P ! j) \<noteq> PDone \<and> pl_uid (?P ! j) = pl_uid (?P ! i) \<longrightarrow> j = i)"
    proof (cases "i < length (rg_pipes g)")
      case True
      then have p: "pl_phase (rg_pipes g ! i) \<noteq> PDone" using i(2) old by simp
      then have u: "pl_uid (rg_pipes g ! i) \<noteq> uid" using no True by blast
      have D: "gbool (rg_inflight g) (pl_uid (rg_pipes g ! i)) \<and> owns (pl_phase (rg_pipes g ! i)) (entry_of g (pl_uid (rg_pipes g ! i)))"
        "\<And>j. j < length (rg_pipes g) \<Longrightarrow> pl_phase (rg_pipes g ! j) \<noteq> PDone \<Longrightarrow> pl_uid (rg_pipes g ! j) = pl_uid (rg_pipes g ! i) \<Longrightarrow> j = i"
        using ok True p unfolding dir_ok_def pipes_ok_def by blast+
      have "j = i" if "j < length ?P" "pl_phase (?P ! j) \<noteq> PDone" "pl_uid (?P ! j) = pl_uid (?P ! i)" for j
      proof (cases "j < length (rg_pipes g)")
        case True
        then show ?thesis using D(2) that old \<open>i < length (rg_pipes g)\<close> by simp
      next
        case False
        then have "j = length (rg_pipes g)" using that(1) len by simp
        then show ?thesis using that(3) new old True u by simp
      qed
      then show ?thesis using D(1) old True by (simp add: eq(2,3))
    next
      case False
      then have ii: "i = length (rg_pipes g)" using i(1) len by simp
      have "j = i" if "j < length ?P" "pl_phase (?P ! j) \<noteq> PDone" "pl_uid (?P ! j) = uid" for j
        using that no [of j] old [of j] len ii by (cases "j < length (rg_pipes g)") auto
      then show ?thesis using ii new by (simp add: eq(2,3))
    qed
  qed
  then show ?thesis using ok by (simp add: dir_ok_def eq(3))
qed

lemma dir_ok_poke:
  assumes "dir_ok (g, log)"
  shows "dir_ok (fst (pokeFunding B uid g), log @ dir_log B (DPoke uid) g)"
proof (cases "snd (pokeFunding B uid g)")
  case False
  then have "\<exists>b. fst (pokeFunding B uid g) = g\<lparr>rg_billing := b\<rparr> \<or> fst (pokeFunding B uid g) = g"
    by (auto simp: pokeFunding_def Let_def split: option.splits prod.splits if_splits)
  then have "entry_of (fst (pokeFunding B uid g)) = entry_of g" "rg_pipes (fst (pokeFunding B uid g)) = rg_pipes g"
    "rg_inflight (fst (pokeFunding B uid g)) = rg_inflight g" "rg_disk (fst (pokeFunding B uid g)) = rg_disk g" by auto
  then show ?thesis by (rule dir_ok_frame [OF assms])
next
  case True
  then obtain r b where r: "e_Reg (entry_of g uid) = Some r" "r_state r = RegAwaitingFunding"
    and eq: "fst (pokeFunding B uid g) = spawnPipeline uid (snd (put_entry uid
      ((entry_of g uid)\<lparr>e_Reg := Some (r\<lparr>r_state := RegCrawling\<rparr>)\<rparr>) (g\<lparr>rg_billing := b\<rparr>)))"
    by (auto simp: pokeFunding_def Let_def split: option.splits prod.splits if_splits)
  have log: "dir_log B (DPoke uid) g = [Charged uid (r_fee r)]" using True r by simp
  have e: "entry_ok log uid (entry_of g uid)" using assms by (simp add: dir_ok_def)
  have "dir_ok (snd (put_entry uid ((entry_of g uid)\<lparr>e_Reg := Some (r\<lparr>r_state := RegCrawling\<rparr>)\<rparr>) (g\<lparr>rg_billing := b\<rparr>)), log @ [Charged uid (r_fee r)])"
  proof (rule dir_ok_entry [OF assms, of _ uid])
    show "entry_ok (log @ [Charged uid (r_fee r)]) uid ((entry_of g uid)\<lparr>e_Reg := Some (r\<lparr>r_state := RegCrawling\<rparr>)\<rparr>)"
      using entry_ok_mono [OF e, of "[Charged uid (r_fee r)]"] r by (auto simp: entry_ok_def reg_ok_def fee_charged_def)
    have "\<not> reg_busy (entry_of g uid)" by (simp add: reg_busy_def r)
    then show "e_Reg ((entry_of g uid)\<lparr>e_Reg := Some (r\<lparr>r_state := RegCrawling\<rparr>)\<rparr>) = e_Reg (entry_of g uid) \<or> \<not> held g uid"
      using held_busy assms by (auto simp: dir_ok_def)
  qed simp_all
  then show ?thesis unfolding eq log by (rule dir_ok_spawn)
qed

lemma dir_ok_promote:
  assumes "dir_ok (g, log)" "\<not> held g uid"
  shows "dir_ok (snd (promote uid g), log @ l)"
proof (cases "snd (promote uid g) = g")
  case True
  show ?thesis unfolding True by (rule dir_ok_frame [OF assms(1) refl refl refl refl])
next
  case False
  then obtain r where r: "e_Reg (entry_of g uid) = Some r" "r_outcome r = ''ok''"
    and eq: "snd (promote uid g) = snd (put_entry uid \<lparr>e_Live = Some (listing_from r (e_Live (entry_of g uid)) (unix (rg_now g))
      (py_expiryDays (rg_policy g))), e_Reg = None, e_Flag = ''''\<rparr> g)"
    by (auto simp: promote_def Let_def split: option.splits prod.splits if_splits)
  have "entry_ok log uid (entry_of g uid)" using assms by (simp add: dir_ok_def)
  then have "reg_ok log uid r" using r by (simp add: entry_ok_def)
  then have "live_ok (log @ l) uid (listing_from r (e_Live (entry_of g uid)) (unix (rg_now g)) (py_expiryDays (rg_policy g)))"
    using r(2) by (auto simp: reg_ok_def live_ok_def listing_from_def fee_charged_def split: if_splits)
  then show ?thesis unfolding eq
    by (intro dir_ok_entry [OF assms(1), of _ uid]) (use assms(2) in \<open>auto simp: entry_ok_def\<close>)
qed

lemma dir_okD:
  assumes "dir_ok (g, log)"
  shows "entry_ok log uid (entry_of g uid)" "pipes_ok g"
    and "i < length (rg_pipes g) \<Longrightarrow> pl_phase (rg_pipes g ! i) \<noteq> PDone \<Longrightarrow>
      owns (pl_phase (rg_pipes g ! i)) (entry_of g (pl_uid (rg_pipes g ! i)))"
  using assms by (auto simp: dir_ok_def pipes_ok_def)

lemma unheld: "dir_ok (g, log) \<Longrightarrow> \<not> reg_busy (entry_of g uid) \<or> \<not> gbool (rg_inflight g) uid \<Longrightarrow> \<not> held g uid"
  using held_busy dir_okD(2) by blast

text \<open>Operations that write one entry.\<close>

lemma dir_ok_put:
  assumes "dir_ok (g, log)" "e_Reg e = e_Reg (entry_of g uid) \<or> \<not> held g uid" "entry_ok log uid e"
  shows "dir_ok (snd (put_entry uid e g), log @ l)"
  by (rule dir_ok_entry [OF assms(1), of _ uid e]) (use assms(2,3) entry_ok_mono in simp_all)

lemma dir_ok_same: "dir_ok (g, log) \<Longrightarrow> dir_ok (g, log @ l)"
  by (rule dir_ok_frame) simp_all

lemma dir_ok_register:
  assumes "dir_ok (g, log)"
  shows "dir_ok (snd (register_commit uid i g), log @ l)"
proof (cases "reg_busy (entry_of g uid)")
  case True
  then show ?thesis using dir_ok_put [OF assms, of "entry_of g uid" uid] dir_okD(1) [OF assms]
    by (simp add: register_commit_def Let_def)
next
  case False
  have "entry_ok log uid ((entry_of g uid)\<lparr>e_Reg := Some (new_registration (rg_policy g) (unix (rg_now g)) i (e_Live (entry_of g uid) \<noteq> None))\<rparr>)"
    using dir_okD(1) [OF assms, of uid] by (auto simp: entry_ok_def reg_ok_def new_registration_def)
  then show ?thesis using dir_ok_put [OF assms] unheld [OF assms] False
    by (simp add: register_commit_def Let_def)
qed

lemma dir_ok_crawled:
  assumes "dir_ok (g, log)" "i < length (rg_pipes g)" "pipe_crawled i res stopped key g = Some g'"
  shows "dir_ok (g', log @ l)"
proof -
  let ?u = "pl_uid (rg_pipes g ! i)"
  obtain reg where ph: "pl_phase (rg_pipes g ! i) = PCrawl reg"
    using assms(3) by (auto simp: pipe_crawled_def Let_def split: pipe_phase.splits)
  then have own: "e_Reg (entry_of g ?u) = Some reg" "r_state reg = RegCrawling" "entry_ok log ?u (entry_of g ?u)"
    using dir_okD [OF assms(1)] assms(2) by force+
  then have rok: "reg_ok log ?u reg" by (simp add: entry_ok_def)
  have nd: "pl_phase (rg_pipes g ! i) \<noteq> PDone" using ph by simp
  show ?thesis
  proof (cases res)
    case (Inl err)
    show ?thesis
    proof (cases stopped)
      case True
      then have "g' = set_pipe i PEnd g" using assms(3) Inl ph by (simp add: pipe_crawled_def)
      then show ?thesis using dir_ok_phase [OF assms(1,2) nd, of PEnd] by simp
    next
      case False
      let ?r = "reg\<lparr>r_state := RegPendingReview, r_outcome := ''failed'', r_err := ''crawl: '' @ err\<rparr>"
      obtain er g1 where w: "put_entry ?u ((entry_of g ?u)\<lparr>e_Reg := Some ?r\<rparr>) g = (er, g1)" by fastforce
      have "g' = set_pipe i PEnd g1" using assms(3) Inl ph False own w by (simp add: pipe_crawled_def park_failed_def Let_def)
      moreover have "entry_ok (log @ l) ?u ((entry_of g ?u)\<lparr>e_Reg := Some ?r\<rparr>)"
        using entry_ok_mono [OF own(3), of l] own(1,2) by (auto simp: entry_ok_def reg_ok_def)
      ultimately show ?thesis using dir_ok_write [OF assms(1,2) nd _ refl w, of PEnd] by simp
    qed
  next
    case (Inr cat)
    let ?r = "reg\<lparr>r_catalog := Some cat, r_callKey := (if r_callKey reg = '''' then key else r_callKey reg), r_state := RegTesting\<rparr>"
    obtain er g1 where w: "put_entry ?u ((entry_of g ?u)\<lparr>e_Reg := Some ?r\<rparr>) g = (er, g1)" by fastforce
    have "g' = set_pipe i PEnd g1 \<or> g' = set_pipe i PReread g1"
      using assms(3) Inr ph own w by (auto simp: pipe_crawled_def Let_def split: option.splits)
    moreover have "entry_ok (log @ l) ?u ((entry_of g ?u)\<lparr>e_Reg := Some ?r\<rparr>)"
      using entry_ok_mono [OF own(3), of l] own(1,2) by (auto simp: entry_ok_def reg_ok_def)
    ultimately show ?thesis using dir_ok_write [OF assms(1,2) nd _ refl w] by auto
  qed
qed

lemma dir_ok_tested:
  assumes "dir_ok (g, log)" "i < length (rg_pipes g)" "pipe_tested i t stopped g = Some g'"
  shows "dir_ok (g', log @ dir_log B (DTested i t stopped) g)"
proof -
  let ?u = "pl_uid (rg_pipes g ! i)" and ?l = "dir_log B (DTested i t stopped) g"
  obtain reg where ph: "pl_phase (rg_pipes g ! i) = PTest reg"
    using assms(3) by (auto simp: pipe_tested_def Let_def split: pipe_phase.splits)
  then have own: "e_Reg (entry_of g ?u) = Some reg" "r_state reg = RegTesting" "entry_ok log ?u (entry_of g ?u)"
    using dir_okD [OF assms(1)] assms(2) by force+
  have nd: "pl_phase (rg_pipes g ! i) \<noteq> PDone" using ph by simp
  show ?thesis
  proof (cases "tr_outcome t \<noteq> ''ok'' \<and> stopped")
    case True
    then have "g' = set_pipe i PEnd g" using assms(3) ph by (simp add: pipe_tested_def)
    then show ?thesis using dir_ok_phase [OF assms(1,2) nd, of PEnd] by simp
  next
    case False
    let ?r1 = "reg\<lparr>r_paid := tr_paid t, r_outcome := tr_outcome t, r_err := tr_err t, r_latency := tr_latency t\<rparr>"
    let ?r = "if tr_outcome t = ''ok'' \<and> r_renewal reg then ?r1 else ?r1\<lparr>r_state := RegPendingReview\<rparr>"
    obtain er g1 where w: "put_entry ?u ((entry_of g ?u)\<lparr>e_Reg := Some ?r\<rparr>) g = (er, g1)" by fastforce
    have "\<exists>ph'. ph' \<in> {PEnd, PPromote} \<and> g' = set_pipe i ph' g1"
      using assms(3) ph False own w by (auto simp: pipe_tested_def Let_def split: option.splits if_splits)
    then obtain ph' where g': "ph' \<in> {PEnd, PPromote}" "g' = set_pipe i ph' g1" by blast
    have "tr_outcome t = ''ok'' \<Longrightarrow> Passed ?u (r_test reg) \<in> set ?l" using ph by (simp add: Let_def)
    then have "reg_ok (log @ ?l) ?u ?r"
      using entry_ok_mono [OF own(3), of ?l] own(1,2) by (auto simp: entry_ok_def reg_ok_def)
    then have "entry_ok (log @ ?l) ?u ((entry_of g ?u)\<lparr>e_Reg := Some ?r\<rparr>)"
      using entry_ok_mono [OF own(3), of ?l] by (auto simp: entry_ok_def)
    then show ?thesis using dir_ok_write [OF assms(1,2) nd _ refl w, of ph' ?l] g' by auto
  qed
qed

lemma dir_ok_spot:
  assumes "dir_ok (g, log)"
  shows "dir_ok (snd (spotCheck B key uid g), log @ l)"
proof (cases "snd (spotCheck B key uid g) = g")
  case True
  then show ?thesis using dir_ok_same [OF assms] by simp
next
  case False
  let ?e = "entry_of g uid"
  obtain lv where lv: "e_Live ?e = Some lv" and none: "e_Reg ?e = None"
    using False by (cases "e_Live ?e") (auto simp: spotCheck_def Let_def split: if_splits)
  define r where "r = \<lparr>r_state = RegTesting, r_description = l_description lv, r_tags = l_tags lv,
     r_test = l_test lv, r_fee = 0, r_budget = ts_max (l_test lv), r_callKey = key, r_paid = 0, r_renewal = True,
     r_created = unix (rg_now g), r_catalog = l_catalog lv, r_outcome = '''', r_err = '''', r_latency = 0\<rparr>"
  let ?g1 = "snd (put_entry uid (?e\<lparr>e_Reg := Some r\<rparr>) g)"
  have eq: "snd (spotCheck B key uid g) = ?g1 \<or> snd (spotCheck B key uid g) = spawnPipeline uid ?g1"
    using False lv none by (auto simp: spotCheck_def Let_def r_def split: if_splits prod.splits option.splits)
  have "fee_charged log uid" using dir_okD(1) [OF assms, of uid] lv by (simp add: entry_ok_def live_ok_def)
  then have "reg_ok log uid r" by (simp add: reg_ok_def r_def)
  then have "entry_ok log uid (?e\<lparr>e_Reg := Some r\<rparr>)" using dir_okD(1) [OF assms, of uid] by (auto simp: entry_ok_def)
  then have "dir_ok (?g1, log @ l)"
    using unheld [OF assms, of uid] none by (intro dir_ok_put [OF assms]) (simp_all add: reg_busy_def)
  then show ?thesis using eq dir_ok_spawn by metis
qed

lemma test_debit_shape:
  assumes "test_debit B i n g = Some g'"
  shows "\<exists>b m. g' = g\<lparr>rg_billing := b, rg_pipes := (rg_pipes g)[i := (rg_pipes g ! i)\<lparr>pl_debited := m\<rparr>]\<rparr>"
proof -
  obtain er b where b: "bl_debit B (rg_billing g) (pl_uid (rg_pipes g ! i)) n = (er, b)" by fastforce
  have "g' = (case er of None \<Rightarrow> g\<lparr>rg_billing := b, rg_pipes := (rg_pipes g)[i := (rg_pipes g ! i)\<lparr>pl_debited := n\<rparr>]\<rparr>
      | Some _ \<Rightarrow> g\<lparr>rg_billing := b\<rparr>)"
    using assms b by (auto simp: test_debit_def Let_def split: pipe_phase.splits if_splits option.splits)
  then have "g' = g\<lparr>rg_billing := b, rg_pipes := (rg_pipes g)[i := (rg_pipes g ! i)
      \<lparr>pl_debited := (if er = None then n else pl_debited (rg_pipes g ! i))\<rparr>]\<rparr>"
    by (cases er) simp_all
  then show ?thesis by blast
qed

lemma dir_ok_step:
  assumes "dir_ok (g, log)" "dir_step B e g = Some g'"
    "\<And>uid. discards e = Some uid \<Longrightarrow> \<not> gbool (rg_inflight g) uid"
  shows "dir_ok (g', log @ dir_log B e g)"
proof -
  note same = dir_ok_same [OF assms(1)]
  have entry: "\<And>uid. entry_ok log uid (entry_of g uid)" using dir_okD(1) [OF assms(1)] .
  have edit: "dir_ok (snd (put_entry uid e' g), log @ l)" if "e_Reg e' = e_Reg (entry_of g uid)" "entry_ok log uid e'" for uid e' l
    using dir_ok_put [OF assms(1)] that by blast
  have clear: "entry_ok log uid ((entry_of g uid)\<lparr>e_Live := None\<rparr>)" "entry_ok log uid ((entry_of g uid)\<lparr>e_Flag := f\<rparr>)" for uid f
    using entry [of uid] by (auto simp: entry_ok_def)
  show ?thesis
  proof (cases e)
    case (DRegister uid i)
    then have "g' = snd (register_commit uid i g)" using assms(2) by (simp split: if_splits)
    then show ?thesis using dir_ok_register [OF assms(1)] by simp
  next
    case (DPoke uid)
    then show ?thesis using assms(2) dir_ok_poke [OF assms(1), of B uid] by simp
  next
    case (DCredit uid n)
    then show ?thesis using assms(2) by (auto split: if_splits intro: dir_ok_frame [OF assms(1)] simp del: append_Nil2)
  next
    case (DPipeStart i)
    then obtain ph where i: "i < length (rg_pipes g)" "pl_phase (rg_pipes g ! i) = PStart" "g' = set_pipe i ph g"
      and own: "ph \<noteq> PDone" "owns ph (entry_of g (pl_uid (rg_pipes g ! i)))"
      using assms(2) by (auto simp: on_pipe_def pipe_start_def split: if_splits pipe_phase.splits option.splits)
    then show ?thesis using dir_ok_phase [OF assms(1) i(1) _ own] by simp
  next
    case (DCrawled i res stopped key)
    then show ?thesis using assms(2) dir_ok_crawled [OF assms(1)] by (simp add: on_pipe_def del: append_Nil2 split: if_splits)
  next
    case (DReread i)
    then obtain ph where i: "i < length (rg_pipes g)" "pl_phase (rg_pipes g ! i) = PReread" "g' = set_pipe i ph g"
      and own: "ph \<noteq> PDone" "owns ph (entry_of g (pl_uid (rg_pipes g ! i)))"
      using assms(2) by (auto simp: on_pipe_def pipe_reread_def split: if_splits pipe_phase.splits option.splits)
    then show ?thesis using dir_ok_phase [OF assms(1) i(1) _ own] by simp
  next
    case (DDebit i n)
    then have i: "i < length (rg_pipes g)" "pl_phase (rg_pipes g ! i) \<noteq> PDone" and d: "test_debit B i n g = Some g'"
      using assms(2) by (auto simp: on_pipe_def test_debit_def Let_def split: if_splits)
    from test_debit_shape [OF d] obtain b m
      where g': "g' = g\<lparr>rg_billing := b, rg_pipes := (rg_pipes g)[i := (rg_pipes g ! i)\<lparr>pl_debited := m\<rparr>]\<rparr>" by blast
    have "owns (pl_phase (rg_pipes g ! i)) (entry_of g (pl_uid (rg_pipes g ! i)))" using dir_okD(3) [OF assms(1) i] .
    then have "dir_ok (g', log @ [])" using i entry
      by (intro dir_ok_move [OF assms(1) i refl, where q = "(rg_pipes g ! i)\<lparr>pl_debited := m\<rparr>"
          and e = "entry_of g (pl_uid (rg_pipes g ! i))"]) (simp_all add: g')
    then show ?thesis using DDebit by simp
  next
    case (DRefund i)
    then obtain b where g': "g' = g\<lparr>rg_billing := b, rg_pipes := (rg_pipes g)[i := (rg_pipes g ! i)\<lparr>pl_debited := 0\<rparr>]\<rparr>"
      and i: "i < length (rg_pipes g)" "pl_phase (rg_pipes g ! i) \<noteq> PDone"
      using assms(2) by (auto simp: on_pipe_def test_refund_def Let_def split: if_splits pipe_phase.splits)
    have "owns (pl_phase (rg_pipes g ! i)) (entry_of g (pl_uid (rg_pipes g ! i)))" using dir_okD(3) [OF assms(1) i] .
    then have "dir_ok (g', log @ [])" using i entry
      by (intro dir_ok_move [OF assms(1) i refl, where q = "(rg_pipes g ! i)\<lparr>pl_debited := 0\<rparr>"
          and e = "entry_of g (pl_uid (rg_pipes g ! i))"]) (simp_all add: g')
    then show ?thesis using DRefund by simp
  next
    case (DTested i t stopped)
    then show ?thesis using assms(2) dir_ok_tested [OF assms(1), of i t stopped g' B] by (simp add: on_pipe_def del: dir_log.simps split: if_splits)
  next
    case (DPromote i)
    then have i: "i < length (rg_pipes g)" "pl_phase (rg_pipes g ! i) = PPromote"
      and g': "g' = set_pipe i PEnd (snd (promote (pl_uid (rg_pipes g ! i)) g))"
      using assms(2) by (auto simp: on_pipe_def pipe_promote_def split: if_splits pipe_phase.splits)
    have "\<not> held g (pl_uid (rg_pipes g ! i))" by (rule not_held [OF dir_okD(2) [OF assms(1)] i(1)]) (simp_all add: i(2))
    from dir_ok_promote [OF assms(1) this] have ok: "dir_ok (snd (promote (pl_uid (rg_pipes g ! i)) g), log @ [])" .
    have "rg_pipes (snd (promote u g)) = rg_pipes g" for u
      by (auto simp: promote_def Let_def split: option.splits prod.splits) (metis put_entry_simps(2) snd_conv)
    then have "dir_ok (g', (log @ []) @ [])" unfolding g' using i by (intro dir_ok_phase [OF ok]) simp_all
    then show ?thesis using DPromote by simp
  next
    case (DEnd i)
    then have i: "i < length (rg_pipes g)" "pl_phase (rg_pipes g ! i) = PEnd"
      and g': "g' = set_pipe i PDone (g\<lparr>rg_inflight := gdel (pl_uid (rg_pipes g ! i)) (rg_inflight g)\<rparr>)"
      using assms(2) by (auto simp: on_pipe_def pipe_end_def split: if_splits pipe_phase.splits)
    have "dir_ok (g', log @ [])"
      by (rule dir_ok_move [OF assms(1) i(1) _ refl, where q = "(rg_pipes g ! i)\<lparr>pl_phase := PDone\<rparr>"
          and e = "entry_of g (pl_uid (rg_pipes g ! i))"]) (simp_all add: i g' set_pipe_def entry)
    then show ?thesis using DEnd by simp
  next
    case (DApprove uid)
    then have g': "g' = snd (approveRegistration uid g)" using assms(2) by simp
    have "g' = g \<or> (g' = snd (promote uid g) \<and> \<not> reg_busy (entry_of g uid))"
      unfolding g' by (auto simp: approveRegistration_def js_get_def entry_of_def js_val_def reg_busy_def split: option.splits)
    then have "dir_ok (g', log @ [])" using same [of "[]"] dir_ok_promote [OF assms(1), of uid "[]"] unheld [OF assms(1), of uid] by auto
    then show ?thesis using DApprove by simp
  next
    case (DReject uid reason)
    then have u: "\<not> gbool (rg_inflight g) uid" using assms(3) by simp
    have "entry_ok log uid ((entry_of g uid)\<lparr>e_Reg := None, e_Flag := f\<rparr>)" for f
      using entry [of uid] by (auto simp: entry_ok_def)
    then have "dir_ok (snd (put_entry uid ((entry_of g uid)\<lparr>e_Reg := None, e_Flag := f\<rparr>) g), log @ [])" for f
      using unheld [OF assms(1), of uid] u by (intro dir_ok_put [OF assms(1)]) simp_all
    then show ?thesis using DReject assms(2) same [of "[]"]
      by (auto simp: rejectRegistration_def Let_def split_beta split: option.splits)
  next
    case (DSpot uid key)
    then show ?thesis using assms(2) dir_ok_spot [OF assms(1), of B key uid "[]"] by simp
  next
    case (DUnlist uid)
    then show ?thesis using assms(2) same [of "[]"] edit [OF _ clear(1), of uid "[]"]
      by (auto simp: unlist_clear_def Let_def split_beta split: if_splits)
  next
    case (DDrop uid)
    then have u: "\<not> held g uid" using assms(3) unheld [OF assms(1), of uid] by simp
    have "dir_ok (expire_delete uid g, log @ [])"
      by (rule dir_ok_entry [OF assms(1), of _ uid no_entry]) (use u disk_drop [of uid g] in simp_all)
    then show ?thesis using DDrop assms(2) by simp
  next
    case (DClear uid now)
    then show ?thesis using assms(2) same [of "[]"] edit [OF _ clear(1), of uid "[]"]
      by (auto simp: expire_clear_def Let_def split: option.splits if_splits)
  next
    case (DRecrawl uid cat)
    have "e_Live (entry_of g uid) = Some l \<Longrightarrow> entry_ok log uid ((entry_of g uid)\<lparr>e_Live := Some (l\<lparr>l_catalog := c, l_checked := t\<rparr>)\<rparr>)" for l c t
      using entry [of uid] by (auto simp: entry_ok_def live_ok_def)
    then show ?thesis using DRecrawl assms(2) same [of "[]"] edit [of _ uid "[]"]
      by (auto simp: recrawl_commit_def Let_def split: option.splits)
  next
    case (DFlag uid msg)
    then show ?thesis using assms(2) edit [OF _ clear(2), of msg uid "[]"] by (auto simp: flag_entry_def split_beta)
  next
    case (DTick d)
    then show ?thesis using assms(2) by (auto split: if_splits intro: dir_ok_frame [OF assms(1)] simp del: append_Nil2)
  next
    case (DLead uid)
    then show ?thesis using assms(2) by (auto intro: dir_ok_frame [OF assms(1)] simp del: append_Nil2)
  next
    case (DSelf uid)
    then show ?thesis using assms(2) by (auto intro: dir_ok_frame [OF assms(1)] simp del: append_Nil2)
  next
    case DStart
    then show ?thesis using assms(2) by (auto intro: dir_ok_frame [OF assms(1)] simp del: append_Nil2)
  next
    case (DResume uid)
    then show ?thesis using assms(2) dir_ok_spawn [OF assms(1), of uid] by auto
  next
    case DClose
    then show ?thesis using assms(2) by (auto intro: dir_ok_frame [OF assms(1)] simp del: append_Nil2)
  next
    case (DRestart pol b)
    then have "dir_restart pol b g = Inr g'" using assms(2) by (simp split: sum.splits)
    then show ?thesis using assms(1) DRestart restart_shape [of pol b g g'] by (simp add: dir_ok_def pipes_ok_def)
  next
    case (DAddPeer uid pub)
    then show ?thesis using assms(2) by (auto intro: dir_ok_frame [OF assms(1)] simp del: append_Nil2)
  next
    case (DRemovePeer uid)
    then show ?thesis using assms(2) by (auto intro: dir_ok_frame [OF assms(1)] simp del: append_Nil2)
  qed
qed

lemma dir_ok_run:
  "dir_run B es (g, log) = Some (g', log') \<Longrightarrow> calm B es g \<Longrightarrow> dir_ok (g, log) \<Longrightarrow> dir_ok (g', log')"
proof (induction es arbitrary: g log)
  case Nil
  then show ?case by simp
next
  case (Cons e es)
  then obtain t where t: "dir_step B e g = Some t" "dir_run B es (t, log @ dir_log B e g) = Some (g', log')"
    by (auto split: option.splits)
  have "dir_ok (t, log @ dir_log B e g)" by (rule dir_ok_step [OF Cons.prems(3) t(1)]) (use Cons.prems(2) in auto)
  then show ?case using Cons.IH [OF t(2)] Cons.prems(2) t(1) by simp
qed

section \<open>Properties\<close>

lemma dir_ok_new:
  assumes "dir_New pol self b now index peers leads spend = Inr g" "st_file index = Absent"
  shows "dir_ok (g, [])"
proof -
  have "rg_index g = \<lparr>js_m = [], js_file = index\<rparr>" "rg_pipes g = []"
    using assms by (auto simp: dir_New_def openJSONStore_def open_file_def split: sum.splits)
  then show ?thesis using assms(2)
    by (simp add: dir_ok_def pipes_ok_def entry_of_def rg_disk_def openJSONStore_def open_file_def js_val_def)
qed

lemma live_verified:
  "dir_ok (g, log) \<Longrightarrow> js_get uid (rg_index g) = Some e \<Longrightarrow> e_Live e = Some l \<Longrightarrow> live_ok log uid l"
  using dir_okD(1) [of g log uid] by (simp add: js_get_def entry_of_def js_val_def entry_ok_def)

text \<open>A directory over the ledger, with a provider of balance \<open>bal\<close>, a fee of 100 and three registrations.\<close>

definition demo_policy :: Policy where
  "demo_policy = policy_withDefaults \<lparr>py_admins = [''root''], py_fee = 100, py_snapshotPrice = 0, py_searchPrice = 0,
     py_expiryDays = 0, py_callsPerMinute = 0, py_budgetMax = 0, py_recrawlHours = 0, py_name = ''''\<rparr>"

definition no_file :: "'a store" where "no_file = \<lparr>st_file = Absent, st_script = []\<rparr>"

definition demo_directory :: "int64 \<Rightarrow> ledger registry" where
  "demo_directory bal = projr (dir_New demo_policy ''self'' \<lparr>ld_balances = [(''prov'', bal)], ld_store = no_file\<rparr> 0
     no_file no_file no_file no_file)"

definition demo_reg :: "string \<Rightarrow> RegisterIn" where
  "demo_reg name = \<lparr>ri_description = name, ri_tags = [''Search '', ''search''], ri_test = \<lparr>ts_tool = name, ts_args = None, ts_max = 50\<rparr>\<rparr>"

definition demo_pass :: test_result where
  "demo_pass = \<lparr>tr_paid = 5, tr_outcome = ''ok'', tr_err = '''', tr_latency = 12\<rparr>"

definition first_listing :: "ledger dir_event list" where
  "first_listing = [DStart, DRegister ''prov'' (demo_reg ''echo''), DPoke ''prov'', DPipeStart 0, DCrawled 0 (Inr ''cat'') False ''k0'',
     DReread 0, DDebit 0 5, DTested 0 demo_pass False, DEnd 0, DApprove ''prov'']"

definition overtaken_renewal :: "ledger dir_event list" where
  "overtaken_renewal = first_listing @ [DRegister ''prov'' (demo_reg ''sum''), DPoke ''prov'', DPipeStart 1,
     DCrawled 1 (Inr ''cat'') False ''k1'', DReread 1, DReject ''prov'' ''duplicate'',
     DRegister ''prov'' (demo_reg ''evil''), DPoke ''prov'', DTested 1 demo_pass False, DPromote 1]"

text \<open>
  C11: What is listed has been paid for and verified. Run the directory from an empty data directory, with any
  billing and any interleaving of registrations, funding, crawls, tests, promotions, sweeps and admin actions,
  with any failures of the disk and any number of crashes and restarts from whatever the files then hold: as
  long as no registration is discarded while its pipeline runs, every live listing belongs to a provider that
  was charged a fee, and the very test that the listing declares has been run for that provider and passed.
\<close>

theorem calm_listings_verified:
  assumes "dir_New pol self b now index peers leads spend = Inr g" "st_file index = Absent"
    and "dir_run B es (g, []) = Some (g', log)" "calm B es g"
    and "js_get uid (rg_index g') = Some e" "e_Live e = Some l"
  shows "(\<exists>fee. Charged uid fee \<in> set log) \<and> Passed uid (l_test l) \<in> set log"
  using live_verified [OF dir_ok_run [OF assms(3,4) dir_ok_new [OF assms(1,2)]] assms(5,6)]
  by (simp add: live_ok_def fee_charged_def)

lemma calm_listings_verified_witness:
  "(case dir_run ledger_billing first_listing (demo_directory 350, []) of None \<Rightarrow> False
    | Some (g, log) \<Rightarrow> js_get ''prov'' (rg_index g) \<noteq> None \<and>
        (\<exists>fee. Charged ''prov'' fee \<in> set log) \<and> Passed ''prov'' (ri_test (demo_reg ''echo'')) \<in> set log)"
proof -
  have c: "calm ledger_billing first_listing (demo_directory 350)" by code_simp
  have r: "case dir_run ledger_billing first_listing (demo_directory 350, []) of None \<Rightarrow> False
    | Some (g, log) \<Rightarrow> map_option (map_option l_test \<circ> e_Live) (js_get ''prov'' (rg_index g)) = Some (Some (ri_test (demo_reg ''echo'')))"
    by code_simp
  then obtain g log where g: "dir_run ledger_billing first_listing (demo_directory 350, []) = Some (g, log)"
    by (auto split: option.splits)
  with r obtain e l where e: "js_get ''prov'' (rg_index g) = Some e" "e_Live e = Some l" "l_test l = ri_test (demo_reg ''echo'')"
    by auto
  have "dir_New demo_policy ''self'' \<lparr>ld_balances = [(''prov'', 350)], ld_store = no_file\<rparr> 0 no_file no_file no_file no_file
      = Inr (demo_directory 350)" by (simp add: demo_directory_def dir_New_def openJSONStore_def openSpendJournal_def open_file_def no_file_def)
  from calm_listings_verified [OF this _ g c e(1,2)] show ?thesis using e g by (simp add: no_file_def)
qed


lemma spawn_frame [simp]:
  "rg_billing (spawnPipeline uid g) = rg_billing g" "rg_index (spawnPipeline uid g) = rg_index g"
  "entry_of (spawnPipeline uid g) = entry_of g" "rg_billing (snd (put_entry uid e g)) = rg_billing g"
  by (simp_all add: spawnPipeline_def put_entry_def entry_of_def fun_eq_iff split: prod.splits)

lemma poke_covered:
  assumes "ledger_sound (rg_billing g)" "e_Reg (entry_of g uid) = Some r" "r_state r = RegAwaitingFunding" "0 < r_fee r" "0 \<le> r_budget r"
    "r_fee r + r_budget r \<le> Balance (rg_billing g) uid"
  shows "e_Reg (entry_of (fst (pokeFunding ledger_billing uid g)) uid) = Some (r\<lparr>r_state := RegCrawling\<rparr>) \<and>
    Balance (rg_billing (fst (pokeFunding ledger_billing uid g))) = (Balance (rg_billing g))(uid := Balance (rg_billing g) uid - r_fee r) \<and>
    ledger_sound (rg_billing (fst (pokeFunding ledger_billing uid g)))"
proof -
  let ?l = "rg_billing g"
  have "Balance ?l uid \<le> max64" using ledger.balance_range [OF assms(1), of uid] by (simp add: ledger_billing_def)
  then have req: "required_atoms r = r_fee r + r_budget r" and cov: "r_fee r \<le> Balance ?l uid"
    using assms(4-6) by (simp_all add: required_atoms_def add64_exact range64)
  obtain b where b: "Debit ?l uid (r_fee r) = (None, b)" "ledger_sound b" "Balance b = (Balance ?l)(uid := Balance ?l uid - r_fee r)"
    using ledger.debit_covered [OF assms(1,4), of uid] cov
    by (cases "Debit ?l uid (r_fee r)") (simp add: ledger_billing_def)
  show ?thesis using assms(2,3,6) b req by (simp add: pokeFunding_def Let_def ledger_billing_def)
qed

lemma poke_busy [simp]:
  "e_Reg (entry_of g uid) = Some r \<Longrightarrow> r_state r \<noteq> RegAwaitingFunding \<Longrightarrow> pokeFunding B uid g = (g, False)"
  by (simp add: pokeFunding_def Let_def)

lemma credit_ledger:
  assumes "ledger_sound l" "0 < n" "Balance l uid + n \<le> max64"
  obtains b where "Credit l uid n = (None, b)" "ledger_sound b" "Balance b = (Balance l)(uid := Balance l uid + n)"
  using ledger.credit_fits [OF assms(1,2), of uid] assms(3) by (cases "Credit l uid n") (simp add: ledger_billing_def)

lemma shortfall_covers:
  assumes "ledger_sound (rg_billing g)" "js_get uid (rg_index g) = Some e" "e_Reg e = Some r" "r_state r = RegAwaitingFunding"
    "0 < r_fee r" "0 \<le> r_budget r" "r_fee r + r_budget r \<le> max64" "so_shortfall (statusFor ledger_billing uid g) \<le> n" "0 < n"
  shows "r_fee r + r_budget r \<le> Balance (rg_billing g) uid + n"
proof -
  have bal: "0 \<le> Balance (rg_billing g) uid" using ledger.balance_range [OF assms(1), of uid] by (simp add: ledger_billing_def)
  have req: "required_atoms r = r_fee r + r_budget r"
    using assms(5-7) by (simp add: required_atoms_def add64_exact range64)
  show ?thesis
  proof (cases "Balance (rg_billing g) uid < required_atoms r")
    case True
    then have "sub64 (required_atoms r) (Balance (rg_billing g) uid) = required_atoms r - Balance (rg_billing g) uid"
      using bal assms(7) by (intro sub64_exact) (simp add: req range64)
    then show ?thesis using assms(2-4,8) True req by (simp add: statusFor_def Let_def ledger_billing_def split: if_splits)
  next
    case False
    then show ?thesis using req assms(9) by simp
  qed
qed



end
