(* ===== verification/DirHandlers.thy ===== *)
theory DirHandlers
  imports Verified
begin

text \<open>
  The steps of \<open>Verified\<close> make up the handlers: a registration, a tip, a sweep, a start and every admin tool
  leave the directory in a state that a sequence of steps reaches. What holds in every reachable
  state therefore holds before and after every handler.
\<close>

section \<open>Reachability\<close>

definition reaches :: "'b Billing \<Rightarrow> 'b registry \<Rightarrow> 'b registry \<Rightarrow> bool" where
  "reaches B g g' \<longleftrightarrow> (\<exists>es log. dir_run B es (g, []) = Some (g', log))"

lemma dir_run_log: "dir_run B es (g, log) = map_option (\<lambda>(g', l). (g', log @ l)) (dir_run B es (g, []))"
proof (induction es arbitrary: g log)
  case Nil
  then show ?case by simp
next
  case (Cons e es)
  show ?case
  proof (cases "dir_step B e g")
    case (Some t)
    then show ?thesis using Cons.IH [of t "log @ dir_log B e g"] Cons.IH [of t "dir_log B e g"]
      by (auto simp: option.map_comp comp_def split_beta intro!: option.map_cong0)
  qed simp
qed

lemma dir_run_append:
  "dir_run B es (g, log) = Some (g1, log1) \<Longrightarrow> dir_run B (es @ es') (g, log) = dir_run B es' (g1, log1)"
  by (induction es arbitrary: g log) (auto split: option.splits)

lemma reaches_refl [simp, intro]: "reaches B g g"
  unfolding reaches_def by (rule exI [of _ "[]"]) simp

lemma reaches_step: "dir_step B e g = Some g' \<Longrightarrow> reaches B g g'"
  unfolding reaches_def by (rule exI [of _ "[e]"]) simp

lemma reaches_trans [trans]:
  assumes "reaches B g g1" "reaches B g1 g2"
  shows "reaches B g g2"
proof -
  from assms obtain es l es' l' where r: "dir_run B es (g, []) = Some (g1, l)" "dir_run B es' (g1, []) = Some (g2, l')"
    by (auto simp: reaches_def)
  then have "dir_run B (es @ es') (g, []) = Some (g2, l @ l')"
    by (simp add: dir_run_append dir_run_log [of B es' g1 l])
  then show ?thesis unfolding reaches_def by blast
qed

lemma reaches_fold:
  assumes "\<And>x g. x \<in> set xs \<Longrightarrow> reaches B g (f x g)"
  shows "reaches B g (fold f xs g)"
  using assms
proof (induction xs arbitrary: g)
  case (Cons x xs)
  then show ?case using reaches_trans [of B g "f x g"] by simp
qed simp

section \<open>Handlers\<close>

text \<open>Each single step, as a reachability fact.\<close>

lemma reaches_ops [intro]:
  "validateRegister i (py_budgetMax (rg_policy g)) = None \<Longrightarrow> reaches B g (snd (register_commit uid i g))"
  "reaches B g (fst (pokeFunding B uid g))" "reaches B g (convertLead uid g)" "reaches B g (spawnPipeline uid g)"
  "0 < n \<Longrightarrow> reaches B g (g\<lparr>rg_billing := snd (bl_credit B (rg_billing g) uid n)\<rparr>)"
  "reaches B g (snd (approveRegistration uid g))" "reaches B g (snd (rejectRegistration uid reason g))"
  "reaches B g (snd (spotCheck B key uid g))" "reaches B g (snd (unlist_clear uid g))" "reaches B g (expire_delete uid g)"
  "reaches B g (expire_clear uid now g)" "reaches B g (recrawl_commit uid cat g)" "reaches B g (snd (flag_entry uid msg g))"
  "reaches B g (g\<lparr>rg_started := True\<rparr>)" "reaches B g (snd (add_peer uid pub g))" "reaches B g (snd (remove_peer uid g))"
  by (rule reaches_step [of _ "DRegister uid i"] reaches_step [of _ "DPoke uid"] reaches_step [of _ "DLead uid"]
      reaches_step [of _ "DResume uid"] reaches_step [of _ "DCredit uid n"] reaches_step [of _ "DApprove uid"]
      reaches_step [of _ "DReject uid reason"] reaches_step [of _ "DSpot uid key"] reaches_step [of _ "DUnlist uid"]
      reaches_step [of _ "DDrop uid"] reaches_step [of _ "DClear uid now"] reaches_step [of _ "DRecrawl uid cat"]
      reaches_step [of _ "DFlag uid msg"] reaches_step [of _ "DStart"] reaches_step [of _ "DAddPeer uid pub"]
      reaches_step [of _ "DRemovePeer uid"]; simp; fail)+

lemma reaches_register: "reaches B g (snd (handleRegister B peer i g))"
proof (cases "validateRegister i (py_budgetMax (rg_policy g))")
  case (Some e)
  then show ?thesis by (simp add: handleRegister_def)
next
  case None
  obtain r g1 where r: "register_commit peer i g = (r, g1)" by fastforce
  then have one: "reaches B g g1" using reaches_ops(1) [OF None, of B peer] by simp
  have two: "reaches B g1 (fst (pokeFunding B peer (convertLead peer g1)))"
    by (rule reaches_trans [OF reaches_ops(3) reaches_ops(2)])
  show ?thesis using one reaches_trans [OF one two] None r
    by (simp add: handleRegister_def Let_def split: option.splits)
qed

lemma reaches_tip: "reaches B g (CreditTip B uid n g)"
proof (cases "n \<le> 0")
  case False
  let ?g = "g\<lparr>rg_billing := snd (bl_credit B (rg_billing g) uid n)\<rparr>"
  have c: "reaches B g ?g" using False by auto
  then have "reaches B g (fst (pokeFunding B uid ?g))" using reaches_trans reaches_ops(2) by blast
  then show ?thesis using c False by (simp add: CreditTip_def split_beta split: option.splits)
qed (simp add: CreditTip_def)

lemma reaches_expire: "reaches B g (expire uid now g)"
  by (auto simp: expire_def split: expiry.splits)

lemma reaches_unlist: "reaches B g (snd (unlist uid g))"
proof -
  have c: "reaches B g (snd (unlist_clear uid g))" by auto
  then have "reaches B g (expire_delete uid (snd (unlist_clear uid g)))" using reaches_trans reaches_ops(10) by blast
  then show ?thesis using c by (simp add: unlist_def split_beta Let_def split: option.splits)
qed

lemma reaches_recrawl: "reaches B g (recrawlListing crawled uid g)"
  by (auto simp: recrawlListing_def split: sum.splits)

lemma reaches_sweep_entry: "reaches B g (sweep_entry B crawled now ue g)"
proof -
  obtain uid e where ue: "ue = (uid, e)" by fastforce
  have "reaches B g (fst (pokeFunding B uid (recrawlListing crawled uid g)))"
    by (rule reaches_trans [OF reaches_recrawl reaches_ops(2)])
  then show ?thesis using reaches_expire reaches_recrawl
    unfolding sweep_entry_def ue by (auto simp: Let_def split: option.splits)
qed

lemma reaches_admin: "reaches B g (fst (snd (admin_do B c g)))"
proof -
  have r: "reaches B g (snd x) \<Longrightarrow> reaches B g (fst (snd (reply_of x f)))" for x :: "string option \<times> 'a registry" and f
    by (cases x) (auto simp: reply_of_def split: option.splits)
  show ?thesis
  proof (cases c)
    case (Recrawl uid res)
    then show ?thesis using reaches_recrawl [of B g "\<lambda>_. res" uid] by (auto simp: Let_def split: option.splits)
  qed (auto intro!: r reaches_unlist)
qed

text \<open>
  Every handler of the directory is a sequence of the atomic steps: registering, crediting a tip, the
  maintenance sweep, the start after a restart, and each admin tool, failures of the disk included. An
  invariant of the steps is therefore an invariant of the directory's whole interface.
\<close>

lemma handlers_are_steps:
  "reaches B g (snd (handleRegister B peer i g)) \<and> reaches B g (CreditTip B uid n g) \<and>
   reaches B g (dir_sweep B crawled g) \<and> reaches B g (dir_Start B g) \<and>
   reaches B g (fst (snd (adminTool B writable peer c (g, trail))))"
proof -
  have "reaches B g1 (resume_entry B ue g1)" for g1 ue
    by (auto simp: resume_entry_def split: prod.splits option.splits RegState.splits)
  then have "reaches B (g\<lparr>rg_started := True\<rparr>) (dir_Start B g)" by (simp add: dir_Start_def Let_def reaches_fold)
  then have start: "reaches B g (dir_Start B g)" using reaches_trans reaches_ops(14) by blast
  have sweep: "reaches B g (dir_sweep B crawled g)" by (simp add: dir_sweep_def reaches_fold reaches_sweep_entry)
  have "reaches B g (fst (snd (adminTool B writable peer c (g, trail))))"
    using reaches_admin [of B g c] by (simp add: adminTool_def split_beta)
  then show ?thesis using start sweep reaches_register reaches_tip by blast
qed

end
