(* ===== verification/DirTools.thy ===== *)
theory DirTools
  imports DirHandlers Payment
begin

text \<open>
  The directory's public tools, \<^verbatim>\<open>directory/tools.go\<close>: search over the crawled catalogs, listings,
  introductions, the histogram of tags and the policy. Decoding a catalog's JSON, converting a number too large for an
  \<^verbatim>\<open>int64\<close> (which Go leaves to the platform) and suggesting an introduction are arguments.
\<close>

section \<open>Crawled tools and their prices\<close>

text \<open>A value of a tool's \<^verbatim>\<open>_meta\<close>; a finite \<^verbatim>\<open>float64\<close> is a mantissa and a binary exponent.\<close>

datatype crawled_value = MFloat int int | MInt int64 | MNumber string | MString string | MOther

record catalogTool =
  ct_Name :: string
  ct_Description :: string
  ct_Meta :: "(string, crawled_value) gomap"

text \<open>The conversion \<^verbatim>\<open>int64(v)\<close> truncates towards zero; \<open>wide\<close> answers for what does not fit.\<close>

definition float_to_int64 :: "(int \<Rightarrow> int64) \<Rightarrow> int \<Rightarrow> int \<Rightarrow> int64" where
  "float_to_int64 wide m e =
     (let n = (if 0 \<le> e then m * 2 ^ nat e else sgn m * (\<bar>m\<bar> div 2 ^ nat (- e))) in if in64 n then n else wide n)"

definition dynamic_marker :: "(string, crawled_value) gomap \<Rightarrow> int64 \<times> bool" where
  "dynamic_marker meta = (case map_of meta PricingMetaKey of
     Some (MString p) \<Rightarrow> if p = ''dynamic'' then (0, True) else (0, False)
   | _ \<Rightarrow> (0, False))"

definition toolPrice :: "(int \<Rightarrow> int64) \<Rightarrow> (string, crawled_value) gomap \<Rightarrow> int64 \<times> bool" where
  "toolPrice wide meta = (case map_of meta PriceMetaKey of
     Some (MFloat m e) \<Rightarrow> (float_to_int64 wide m e, False)
   | Some (MInt n) \<Rightarrow> (n, False)
   | Some (MNumber s) \<Rightarrow> (case parse_int s of Some n \<Rightarrow> (n, False) | None \<Rightarrow> dynamic_marker meta)
   | _ \<Rightarrow> dynamic_marker meta)"

definition hasAllTags :: "string list \<Rightarrow> string list \<Rightarrow> bool" where
  "hasAllTags have want \<longleftrightarrow> (\<forall>t \<in> set want. t \<in> set have)"

text \<open>\<^verbatim>\<open>strings.Contains\<close>.\<close>

fun contains :: "string \<Rightarrow> string \<Rightarrow> bool" where
  "contains [] sub \<longleftrightarrow> sub = []"
| "contains (c # cs) sub \<longleftrightarrow> take (length sub) (c # cs) = sub \<or> contains cs sub"

lemma contains_iff: "contains s sub \<longleftrightarrow> (\<exists>p q. s = p @ sub @ q)"
proof (induction s)
  case (Cons c cs)
  have "take (length sub) (c # cs) = sub \<longleftrightarrow> (\<exists>q. c # cs = sub @ q)"
    by (metis append_eq_conv_conj append_take_drop_id)
  moreover have "(\<exists>p q. c # cs = p @ sub @ q) \<longleftrightarrow> (\<exists>q. c # cs = sub @ q) \<or> (\<exists>p q. cs = p @ sub @ q)"
    by (metis Cons_eq_append_conv append_Cons append_Nil)
  ultimately show ?case using Cons.IH by simp
qed simp

section \<open>Search\<close>

definition searchHitCap :: nat where "searchHitCap = 50"

record SearchIn =
  si_Query :: string
  si_Tags :: "string list"
  si_MaxPriceAtoms :: int64

record SearchHit =
  sh_ProviderUID :: string
  sh_Tool :: string
  sh_Description :: string
  sh_PriceAtoms :: int64
  sh_Pricing :: string
  sh_Tags :: "string list"
  sh_Checked :: int64
  sh_Verified :: int64

record SearchOut =
  sr_Hits :: "SearchHit list"
  sr_Total :: nat

text \<open>One tool of one provider; \<open>query\<close> is already trimmed and lower-cased.\<close>

definition search_tool :: "(int \<Rightarrow> int64) \<Rightarrow> string \<Rightarrow> int64 \<Rightarrow> string \<Rightarrow> Listing \<Rightarrow> catalogTool \<Rightarrow> SearchOut \<Rightarrow> SearchOut" where
  "search_tool wide query ceiling uid l tool r =
     (if query \<noteq> '''' \<and> \<not> contains (to_lower (ct_Name tool)) query \<and> \<not> contains (to_lower (ct_Description tool)) query then r
      else case toolPrice wide (ct_Meta tool) of (price, dynamic) \<Rightarrow>
        if 0 < ceiling \<and> (dynamic \<or> ceiling < price) then r
        else
          let r1 = r\<lparr>sr_Total := sr_Total r + 1\<rparr> in
          if searchHitCap \<le> length (sr_Hits r1) then r1
          else r1\<lparr>sr_Hits := sr_Hits r1 @ [\<lparr>sh_ProviderUID = uid, sh_Tool = ct_Name tool, sh_Description = ct_Description tool,
                 sh_PriceAtoms = price, sh_Pricing = (if dynamic then ''dynamic'' else ''''), sh_Tags = l_tags l,
                 sh_Checked = l_checked l, sh_Verified = l_verified l\<rparr>]\<rparr>)"

text \<open>One provider: a listing without the tags, or with a catalog that does not decode, is skipped.\<close>

definition search_listing :: "(string \<Rightarrow> catalogTool list option) \<Rightarrow> (int \<Rightarrow> int64) \<Rightarrow> string \<Rightarrow> string list \<Rightarrow> int64 \<Rightarrow>
    (string, Entry) gomap \<Rightarrow> string \<Rightarrow> SearchOut \<Rightarrow> SearchOut" where
  "search_listing decode wide query want ceiling entries uid r =
     (case map_of entries uid of
        None \<Rightarrow> r
      | Some e \<Rightarrow> (case e_Live e of
          None \<Rightarrow> r
        | Some l \<Rightarrow>
            if \<not> hasAllTags (l_tags l) want then r
            else case Option.bind (l_catalog l) decode of
              None \<Rightarrow> r
            | Some tools \<Rightarrow> fold (search_tool wide query ceiling uid l) tools r))"

definition live_uids :: "(string, Entry) gomap \<Rightarrow> string list" where
  "live_uids entries = sort (map fst (filter (\<lambda>ue. e_Live (snd ue) \<noteq> None) entries))"

definition handleSearch :: "(string \<Rightarrow> catalogTool list option) \<Rightarrow> (int \<Rightarrow> int64) \<Rightarrow> SearchIn \<Rightarrow> 'b registry \<Rightarrow> SearchOut" where
  "handleSearch decode wide i g =
     (let query = to_lower (trim_space (si_Query i)); want = normalizeTags (si_Tags i); entries = js_all (rg_index g) in
      fold (search_listing decode wide query want (si_MaxPriceAtoms i) entries) (live_uids entries) \<lparr>sr_Hits = [], sr_Total = 0\<rparr>)"

section \<open>The other tools\<close>

definition get_provider :: "string \<Rightarrow> 'b registry \<Rightarrow> string + ProviderOut" where
  "get_provider uid g = (case js_get uid (rg_index g) of
     None \<Rightarrow> Inl ''no listing for that uid''
   | Some e \<Rightarrow> (case e_Live e of None \<Rightarrow> Inl ''no listing for that uid'' | Some l \<Rightarrow> Inr (providerOut uid l)))"

text \<open>\<open>sug\<close> is the configured suggester, if any; the flag says that it was called.\<close>

definition introduce :: "(string \<Rightarrow> string \<Rightarrow> string option) option \<Rightarrow> string \<Rightarrow> string \<Rightarrow> 'b registry \<Rightarrow> string option \<times> bool" where
  "introduce sug peer uid g = (case sug of
     None \<Rightarrow> (Some ''this directory does not support introductions'', False)
   | Some suggest \<Rightarrow>
       if uid = peer then (Some ''cannot introduce a caller to itself'', False)
       else case js_get uid (rg_index g) of
         None \<Rightarrow> (Some ''no listing for that uid'', False)
       | Some e \<Rightarrow>
           if e_Live e = None then (Some ''no listing for that uid'', False)
           else (map_option (\<lambda>err. ''suggest: '' @ err) (suggest peer uid), True))"

definition count_tag :: "string \<Rightarrow> (string, int64) gomap \<Rightarrow> (string, int64) gomap" where
  "count_tag tag m = gput tag (gint m tag + 1) m"

definition list_categories :: "'b registry \<Rightarrow> (string, int64) gomap" where
  "list_categories g =
     fold (\<lambda>ue m. case e_Live (snd ue) of None \<Rightarrow> m | Some l \<Rightarrow> fold count_tag (l_tags l) m) (js_all (rg_index g)) []"

record PolicyOut =
  pq_Name :: string
  pq_ListingFeeAtoms :: int64
  pq_SnapshotPriceAtoms :: int64
  pq_SearchPriceAtoms :: int64
  pq_TestBudgetMaxAtoms :: int64
  pq_ExpiryDays :: int64
  pq_PubKey :: string

definition policy_out :: "string \<Rightarrow> 'b registry \<Rightarrow> PolicyOut" where
  "policy_out pubkey g = (let p = rg_policy g in
     \<lparr>pq_Name = py_name p, pq_ListingFeeAtoms = py_fee p, pq_SnapshotPriceAtoms = py_snapshotPrice p,
      pq_SearchPriceAtoms = py_searchPrice p, pq_TestBudgetMaxAtoms = py_budgetMax p, pq_ExpiryDays = py_expiryDays p,
      pq_PubKey = pubkey\<rparr>)"

text \<open>The names and the prices under which \<^verbatim>\<open>registerPublicTools\<close> registers them.\<close>

definition public_tools :: "Policy \<Rightarrow> (string \<times> int64) list" where
  "public_tools p =
     [(''register'', 0), (''my_status'', 0), (''search'', py_searchPrice p), (''get_provider'', 0), (''introduce'', 0),
      (''list_categories'', 0), (''policy'', 0), (''get_snapshot'', py_snapshotPrice p)]"

section \<open>What a search returns\<close>

text \<open>The reference: the tools of one listing that a search wants, as hits.\<close>

definition tool_wanted :: "(int \<Rightarrow> int64) \<Rightarrow> SearchIn \<Rightarrow> catalogTool \<Rightarrow> bool" where
  "tool_wanted wide i tool \<longleftrightarrow>
     (let q = to_lower (trim_space (si_Query i)) in
      contains (to_lower (ct_Name tool)) q \<or> contains (to_lower (ct_Description tool)) q) \<and>
     (0 < si_MaxPriceAtoms i \<longrightarrow>
        \<not> snd (toolPrice wide (ct_Meta tool)) \<and> fst (toolPrice wide (ct_Meta tool)) \<le> si_MaxPriceAtoms i)"

definition hit_of :: "(int \<Rightarrow> int64) \<Rightarrow> string \<Rightarrow> Listing \<Rightarrow> catalogTool \<Rightarrow> SearchHit" where
  "hit_of wide uid l tool =
     \<lparr>sh_ProviderUID = uid, sh_Tool = ct_Name tool, sh_Description = ct_Description tool,
      sh_PriceAtoms = fst (toolPrice wide (ct_Meta tool)),
      sh_Pricing = (if snd (toolPrice wide (ct_Meta tool)) then ''dynamic'' else ''''), sh_Tags = l_tags l,
      sh_Checked = l_checked l, sh_Verified = l_verified l\<rparr>"

definition wanted_hits :: "(string \<Rightarrow> catalogTool list option) \<Rightarrow> (int \<Rightarrow> int64) \<Rightarrow> SearchIn \<Rightarrow> 'b registry \<Rightarrow> string \<Rightarrow> SearchHit list" where
  "wanted_hits decode wide i g uid = (case e_Live (entry_of g uid) of
     None \<Rightarrow> []
   | Some l \<Rightarrow>
       if set (normalizeTags (si_Tags i)) \<subseteq> set (l_tags l)
       then map (hit_of wide uid l) (filter (tool_wanted wide i) (case Option.bind (l_catalog l) decode of None \<Rightarrow> [] | Some ts \<Rightarrow> ts))
       else [])"

text \<open>Collecting hits under the cap keeps the first fifty and counts them all.\<close>

definition capped :: "SearchHit list \<Rightarrow> SearchOut" where
  "capped hs = \<lparr>sr_Hits = take searchHitCap hs, sr_Total = length hs\<rparr>"

lemma contains_Nil [simp]: "contains s [] = True"
  by (cases s) simp_all

lemma search_tool_capped:
  "search_tool wide (to_lower (trim_space (si_Query i))) (si_MaxPriceAtoms i) uid l tool (capped hs) =
     capped (hs @ (if tool_wanted wide i tool then [hit_of wide uid l tool] else []))"
  by (auto simp: search_tool_def tool_wanted_def hit_of_def capped_def Let_def searchHitCap_def take_Cons'
      split: prod.splits)

lemma search_tools_capped:
  "fold (search_tool wide (to_lower (trim_space (si_Query i))) (si_MaxPriceAtoms i) uid l) tools (capped hs) =
     capped (hs @ map (hit_of wide uid l) (filter (tool_wanted wide i) tools))"
  by (induction tools arbitrary: hs) (simp_all add: search_tool_capped)

lemma search_listing_capped:
  "search_listing decode wide (to_lower (trim_space (si_Query i))) (normalizeTags (si_Tags i)) (si_MaxPriceAtoms i)
       (js_all (rg_index g)) uid (capped hs) = capped (hs @ wanted_hits decode wide i g uid)"
  by (auto simp: search_listing_def wanted_hits_def js_all_def entry_of_def js_val_def no_entry_def hasAllTags_def
      search_tools_capped split: option.splits)

lemma search_capped:
  "handleSearch decode wide i g = capped (concat (map (wanted_hits decode wide i g) (live_uids (js_all (rg_index g)))))"
proof -
  have "fold (search_listing decode wide (to_lower (trim_space (si_Query i))) (normalizeTags (si_Tags i)) (si_MaxPriceAtoms i)
       (js_all (rg_index g))) us (capped hs) = capped (hs @ concat (map (wanted_hits decode wide i g) us))" for us hs
    by (induction us arbitrary: hs) (simp_all add: search_listing_capped)
  from this [of _ "[]"] show ?thesis by (simp add: handleSearch_def Let_def capped_def)
qed

lemma wanted_uid: "h \<in> set (wanted_hits decode wide i g uid) \<Longrightarrow> sh_ProviderUID h = uid"
  by (auto simp: wanted_hits_def hit_of_def split: option.splits if_splits)

lemma live_uids_props:
  assumes "js_ok (rg_index g)"
  shows "sorted (live_uids (js_all (rg_index g)))" "distinct (live_uids (js_all (rg_index g)))"
    "set (live_uids (js_all (rg_index g))) = {uid. e_Live (entry_of g uid) \<noteq> None}"
proof -
  have ok: "gmap_ok (js_m (rg_index g))" using assms by (simp add: js_ok_def)
  show "sorted (live_uids (js_all (rg_index g)))" by (simp add: live_uids_def)
  show "distinct (live_uids (js_all (rg_index g)))" using gmap_ok_filter [OF ok] by (simp add: live_uids_def js_all_def gmap_ok_def)
  show "set (live_uids (js_all (rg_index g))) = {uid. e_Live (entry_of g uid) \<noteq> None}"
    using gmap_ok_mem [OF ok] by (force simp: live_uids_def js_all_def entry_of_def js_val_def no_entry_def split: option.splits)
qed

lemma concat_by_key:
  assumes "\<And>u x. x \<in> set (f u) \<Longrightarrow> key x = u" "distinct us"
  shows "filter (\<lambda>x. key x = v) (concat (map f us)) = (if v \<in> set us then f v else [])"
  using assms(2)
proof (induction us)
  case (Cons u us)
  have "filter (\<lambda>x. key x = v) (f u) = (if u = v then f u else [])"
    using assms(1) [of _ u] by (auto simp: filter_id_conv filter_empty_conv)
  then show ?case using Cons by auto
qed simp

lemma sorted_concat_by_key:
  assumes "\<And>u x. x \<in> set (f u) \<Longrightarrow> key x = u" "sorted us"
  shows "sorted (map key (concat (map f us)))"
  using assms(2)
proof (induction us)
  case (Cons u us)
  have "map key (f u) = replicate (length (f u)) u" using assms(1) [of _ u] by (simp add: list_eq_iff_nth_eq)
  then show ?case using Cons assms(1) by (auto simp: sorted_append)
qed simp


section \<open>Properties\<close>

text \<open>
  C36: A search is exact. Its hits are the first fifty of all matches and its total is their number; the matches
  come in the order of the uids, and those of one provider are, in the order of its catalog, exactly the
  tools of its live listing that carry the wanted text and price, if the listing has every wanted
  tag; nothing comes from a provider without a live listing.
\<close>

theorem search_exact:
  assumes "js_ok (rg_index g)"
  shows "\<exists>matches. handleSearch decode wide i g = \<lparr>sr_Hits = take 50 matches, sr_Total = length matches\<rparr> \<and>
    sorted (map sh_ProviderUID matches) \<and>
    (\<forall>uid. filter (\<lambda>h. sh_ProviderUID h = uid) matches = wanted_hits decode wide i g uid)"
proof -
  let ?us = "live_uids (js_all (rg_index g))"
  let ?hs = "concat (map (wanted_hits decode wide i g) ?us)"
  note us = live_uids_props [OF assms]
  have "filter (\<lambda>h. sh_ProviderUID h = uid) ?hs = wanted_hits decode wide i g uid" for uid
    by (subst concat_by_key [OF wanted_uid [of _ decode wide i g] us(2)]) (auto simp: us(3) wanted_hits_def)
  moreover have "sorted (map sh_ProviderUID ?hs)" by (rule sorted_concat_by_key [OF wanted_uid [of _ decode wide i g] us(1)])
  moreover have "handleSearch decode wide i g = \<lparr>sr_Hits = take 50 ?hs, sr_Total = length ?hs\<rparr>"
    by (simp add: search_capped capped_def searchHitCap_def)
  ultimately show ?thesis by blast
qed

definition demo_listing :: "string list \<Rightarrow> Listing" where
  "demo_listing tags = \<lparr>l_description = ''d'', l_tags = tags, l_test = \<lparr>ts_tool = ''echo'', ts_args = None, ts_max = 50\<rparr>,
     l_catalog = Some ''cat'', l_checked = 1, l_verified = 1, l_latency = 2, l_approved = 1, l_renewed = 0, l_expires = 9\<rparr>"

definition demo_index :: "unit registry" where
  "demo_index = \<lparr>rg_policy = demo_policy,
     rg_index = \<lparr>js_m = [(''bob'', no_entry\<lparr>e_Live := Some (demo_listing [''ai''])\<rparr>), (''eve'', no_entry),
       (''ann'', no_entry\<lparr>e_Live := Some (demo_listing [''ai'', ''web''])\<rparr>)], js_file = no_file\<rparr>,
     rg_leads = \<lparr>js_m = [], js_file = no_file\<rparr>, rg_peers = \<lparr>js_m = [], js_file = no_file\<rparr>,
     rg_spend = \<lparr>sj_entries = [], sj_store = no_file\<rparr>, rg_billing = (), rg_self = ''self'', rg_inflight = [],
     rg_pipes = [], rg_started = True, rg_closed = False, rg_now = 0\<rparr>"

text \<open>A catalog of three tools: a free one, one with a price of three atoms and a half, one priced per call.\<close>

definition demo_decode :: "string \<Rightarrow> catalogTool list option" where
  "demo_decode s = (if s = ''cat'' then Some
     [\<lparr>ct_Name = ''Echo'', ct_Description = ''repeats'', ct_Meta = []\<rparr>,
      \<lparr>ct_Name = ''sum'', ct_Description = ''adds and echoes'', ct_Meta = [(PriceMetaKey, MFloat 7 (-1))]\<rparr>,
      \<lparr>ct_Name = ''plan'', ct_Description = ''plans, echoing'', ct_Meta = [(PricingMetaKey, MString ''dynamic'')]\<rparr>] else None)"

lemma search_exact_witness:
  "handleSearch demo_decode (\<lambda>_. min64) \<lparr>si_Query = '' ECHO'', si_Tags = [''AI''], si_MaxPriceAtoms = 5\<rparr> demo_index =
     \<lparr>sr_Hits = map (\<lambda>(u, t, d, p, ts). \<lparr>sh_ProviderUID = u, sh_Tool = t, sh_Description = d, sh_PriceAtoms = p, sh_Pricing = '''',
        sh_Tags = ts, sh_Checked = 1, sh_Verified = 1\<rparr>)
        [(''ann'', ''Echo'', ''repeats'', 0, [''ai'', ''web'']), (''ann'', ''sum'', ''adds and echoes'', 3, [''ai'', ''web'']),
         (''bob'', ''Echo'', ''repeats'', 0, [''ai'']), (''bob'', ''sum'', ''adds and echoes'', 3, [''ai''])], sr_Total = 4\<rparr> \<and>
   (\<exists>matches. handleSearch demo_decode (\<lambda>_. min64) \<lparr>si_Query = '' ECHO'', si_Tags = [''AI''], si_MaxPriceAtoms = 5\<rparr> demo_index =
      \<lparr>sr_Hits = take 50 matches, sr_Total = length matches\<rparr> \<and> sorted (map sh_ProviderUID matches))"
proof
  show "handleSearch demo_decode (\<lambda>_. min64) \<lparr>si_Query = '' ECHO'', si_Tags = [''AI''], si_MaxPriceAtoms = 5\<rparr> demo_index =
     \<lparr>sr_Hits = map (\<lambda>(u, t, d, p, ts). \<lparr>sh_ProviderUID = u, sh_Tool = t, sh_Description = d, sh_PriceAtoms = p, sh_Pricing = '''',
        sh_Tags = ts, sh_Checked = 1, sh_Verified = 1\<rparr>)
        [(''ann'', ''Echo'', ''repeats'', 0, [''ai'', ''web'']), (''ann'', ''sum'', ''adds and echoes'', 3, [''ai'', ''web'']),
         (''bob'', ''Echo'', ''repeats'', 0, [''ai'']), (''bob'', ''sum'', ''adds and echoes'', 3, [''ai''])], sr_Total = 4\<rparr>"
    by code_simp
  have "js_ok (rg_index demo_index)" by (simp add: js_ok_def gmap_ok_def demo_index_def)
  from search_exact [OF this] show "\<exists>matches. handleSearch demo_decode (\<lambda>_. min64) \<lparr>si_Query = '' ECHO'', si_Tags = [''AI''], si_MaxPriceAtoms = 5\<rparr> demo_index =
      \<lparr>sr_Hits = take 50 matches, sr_Total = length matches\<rparr> \<and> sorted (map sh_ProviderUID matches)" by blast
qed

text \<open>
  A price too large for an \<^verbatim>\<open>int64\<close> passes every ceiling where the platform converts it to the smallest
  \<^verbatim>\<open>int64\<close> (amd64 does): a tool that asks for ten to the nineteenth atoms is among the hits of a search for
  tools of at most one atom.
\<close>

lemma huge_price_passes:
  "toolPrice (\<lambda>_. min64) [(PriceMetaKey, MFloat 10000000000000000000 0)] = (min64, False)"
  "tool_wanted (\<lambda>_. min64) \<lparr>si_Query = '''', si_Tags = [], si_MaxPriceAtoms = 1\<rparr>
     \<lparr>ct_Name = ''gold'', ct_Description = '''', ct_Meta = [(PriceMetaKey, MFloat 10000000000000000000 0)]\<rparr>"
  by code_simp+

text \<open>The histogram counts occurrences; where a listing's tags are distinct, it counts listings.\<close>

lemma count_tags: "gint (fold count_tag ts m) t = gint m t + int (count_list ts t)"
  by (induction ts arbitrary: m) (simp_all add: count_tag_def)

lemma categories_fold:
  "gint (fold (\<lambda>ue m. case e_Live (snd ue) of None \<Rightarrow> m | Some l \<Rightarrow> fold count_tag (l_tags l) m) es m) t =
     gint m t + (\<Sum>ue \<leftarrow> es. case e_Live (snd ue) of None \<Rightarrow> 0 | Some l \<Rightarrow> int (count_list (l_tags l) t))"
  by (induction es arbitrary: m) (simp_all add: count_tags split: option.splits)

lemma count_list_distinct: "distinct xs \<Longrightarrow> count_list xs x = (if x \<in> set xs then 1 else 0)"
  by (induction xs) auto

lemma categories_count:
  assumes "\<forall>ue \<in> set (js_all (rg_index g)). \<forall>l. e_Live (snd ue) = Some l \<longrightarrow> distinct (l_tags l)"
  shows "gint (list_categories g) t =
    int (length (filter (\<lambda>ue. case e_Live (snd ue) of None \<Rightarrow> False | Some l \<Rightarrow> t \<in> set (l_tags l)) (js_all (rg_index g))))"
proof -
  have "(\<Sum>ue \<leftarrow> es. case e_Live (snd ue) of None \<Rightarrow> 0 | Some l \<Rightarrow> int (count_list (l_tags l) t)) =
      int (length (filter (\<lambda>ue. case e_Live (snd ue) of None \<Rightarrow> False | Some l \<Rightarrow> t \<in> set (l_tags l)) es))"
    if "\<forall>ue \<in> set es. \<forall>l. e_Live (snd ue) = Some l \<longrightarrow> distinct (l_tags l)" for es :: "(string \<times> Entry) list"
    using that by (induction es) (auto simp: count_list_distinct split: option.splits)
  from this [OF assms] show ?thesis by (simp add: list_categories_def categories_fold)
qed

end
