(* ===== verification/Snapshot.thy ===== *)
theory Snapshot
  imports DirTools
begin

text \<open>
  Signed snapshots of the index: \<^verbatim>\<open>directory/snapshot.go\<close> and \<^verbatim>\<open>buildSnapshot\<close> of \<^verbatim>\<open>directory/tools.go\<close>.
  The functions of \<^verbatim>\<open>crypto/ed25519\<close> and the JSON codec are arguments; what is relied on is \<open>key_pair\<close> (a signature verifies
  under the public half) and, for a given snapshot, that it decodes from its own encoding.
\<close>

section \<open>Data\<close>

definition SnapshotVersion :: int64 where "SnapshotVersion = 1"

record SnapshotListing =
  sn_UID :: string
  sn_Description :: string
  sn_Tags :: "string list"
  sn_Catalog :: "string option"
  sn_Checked :: int64
  sn_Verified :: int64
  sn_ExpiresAt :: int64

record Snapshot =
  snap_Version :: int64
  snap_GeneratedAt :: int64
  snap_Listings :: "SnapshotListing list"

record SignedSnapshot =
  sgn_Payload :: "byte list"
  sgn_Sig :: string
  sgn_Pub :: string

record snapshotSigner =
  sg_pub :: "byte list"
  sg_priv :: "byte list"

record signerFile =
  sf_Pub :: string
  sf_Priv :: string

record ed25519 =
  ed_sign :: "byte list \<Rightarrow> byte list \<Rightarrow> byte list"
  ed_verify :: "byte list \<Rightarrow> byte list \<Rightarrow> byte list \<Rightarrow> bool"

record snapshot_codec =
  sc_marshal :: "Snapshot \<Rightarrow> byte list option"
  sc_unmarshal :: "byte list \<Rightarrow> Snapshot option"

definition PublicKeySize :: nat where "PublicKeySize = 32"
definition PrivateKeySize :: nat where "PrivateKeySize = 64"

text \<open>What \<^verbatim>\<open>ed25519\<close> documents of a generated pair.\<close>

definition key_pair :: "ed25519 \<Rightarrow> byte list \<Rightarrow> byte list \<Rightarrow> bool" where
  "key_pair E pub priv \<longleftrightarrow> length pub = PublicKeySize \<and> length priv = PrivateKeySize \<and>
     (\<forall>m. ed_verify E pub m (ed_sign E priv m))"

section \<open>The signing key\<close>

text \<open>\<open>fresh\<close> is what \<^verbatim>\<open>GenerateKey\<close> returns. The key is written in place, so that the outcome may be a torn
  file; a directory that cannot be made is a file that cannot be opened.\<close>

definition loadOrCreateSigner :: "(byte list \<times> byte list) option \<Rightarrow> signerFile plain_file \<Rightarrow>
    (string + snapshotSigner) \<times> signerFile plain_file" where
  "loadOrCreateSigner fresh f = (case pf_file f of
     Absent \<Rightarrow> (case fresh of
         None \<Rightarrow> (Inl ''generate key'', f)
       | Some (pub, priv) \<Rightarrow>
           (case write_file \<lparr>sf_Pub = hex_of_bytes pub, sf_Priv = hex_of_bytes priv\<rparr> f of (ok, f) \<Rightarrow>
             (if ok then Inr \<lparr>sg_pub = pub, sg_priv = priv\<rparr> else Inl ''write key'', f)))
   | Unreadable \<Rightarrow> (Inl ''read key'', f)
   | Corrupt \<Rightarrow> (Inl ''signer key corrupt'', f)
   | Holds sf \<Rightarrow>
       (case hex_decode (sf_Pub sf) of
          None \<Rightarrow> (Inl ''signer key: bad public key'', f)
        | Some pub \<Rightarrow>
            if length pub \<noteq> PublicKeySize then (Inl ''signer key: bad public key'', f)
            else (case hex_decode (sf_Priv sf) of
              None \<Rightarrow> (Inl ''signer key: bad private key'', f)
            | Some priv \<Rightarrow>
                if length priv \<noteq> PrivateKeySize then (Inl ''signer key: bad private key'', f)
                else (Inr \<lparr>sg_pub = pub, sg_priv = priv\<rparr>, f))))"

definition sign :: "ed25519 \<Rightarrow> snapshotSigner \<Rightarrow> byte list \<Rightarrow> SignedSnapshot" where
  "sign E sg payload = \<lparr>sgn_Payload = payload, sgn_Sig = hex_of_bytes (ed_sign E (sg_priv sg) payload),
     sgn_Pub = hex_of_bytes (sg_pub sg)\<rparr>"

definition PublicKey :: "ed25519 \<Rightarrow> snapshotSigner \<Rightarrow> string" where
  "PublicKey E sg = sgn_Pub (sign E sg [])"

section \<open>Building and verifying\<close>

definition snapshot_listing :: "string \<Rightarrow> Listing \<Rightarrow> SnapshotListing" where
  "snapshot_listing uid l = \<lparr>sn_UID = uid, sn_Description = l_description l, sn_Tags = l_tags l, sn_Catalog = l_catalog l,
     sn_Checked = l_checked l, sn_Verified = l_verified l, sn_ExpiresAt = l_expires l\<rparr>"

text \<open>The export of the live listings, and the signed result.\<close>

definition export :: "'b registry \<Rightarrow> Snapshot" where
  "export g = (let entries = js_all (rg_index g) in
     \<lparr>snap_Version = SnapshotVersion, snap_GeneratedAt = unix (rg_now g),
      snap_Listings = List.map_filter (\<lambda>uid. case map_of entries uid of None \<Rightarrow> None | Some e \<Rightarrow> map_option (snapshot_listing uid) (e_Live e))
        (live_uids entries)\<rparr>)"

definition buildSnapshot :: "ed25519 \<Rightarrow> snapshot_codec \<Rightarrow> snapshotSigner \<Rightarrow> 'b registry \<Rightarrow> string + SignedSnapshot" where
  "buildSnapshot E C sg g = (case sc_marshal C (export g) of
     None \<Rightarrow> Inl ''marshal''
   | Some payload \<Rightarrow> Inr (sign E sg payload))"

definition VerifySnapshot :: "ed25519 \<Rightarrow> snapshot_codec \<Rightarrow> SignedSnapshot \<Rightarrow> string \<Rightarrow> string + Snapshot" where
  "VerifySnapshot E C ss wantPubHex =
     (if wantPubHex = '''' then Inl ''no trusted key for snapshot verification''
      else if sgn_Pub ss \<noteq> wantPubHex then Inl ''snapshot signed by an unexpected key''
      else case hex_decode (sgn_Pub ss) of
        None \<Rightarrow> Inl ''snapshot public key malformed''
      | Some pub \<Rightarrow>
          if length pub \<noteq> PublicKeySize then Inl ''snapshot public key malformed''
          else (case hex_decode (sgn_Sig ss) of
            None \<Rightarrow> Inl ''snapshot signature malformed''
          | Some sig \<Rightarrow>
              if \<not> ed_verify E pub (sgn_Payload ss) sig then Inl ''snapshot signature invalid''
              else (case sc_unmarshal C (sgn_Payload ss) of
                None \<Rightarrow> Inl ''snapshot payload corrupt''
              | Some snap \<Rightarrow>
                  if snap_Version snap \<noteq> SnapshotVersion then Inl (''snapshot version '' @ dec_of_int (snap_Version snap) @ '' unsupported'')
                  else Inr snap)))"

section \<open>Lemmas\<close>

lemma verified_signature:
  "VerifySnapshot E C ss want = Inr snap \<Longrightarrow>
     want \<noteq> '''' \<and> sgn_Pub ss = want \<and> sc_unmarshal C (sgn_Payload ss) = Some snap \<and> snap_Version snap = SnapshotVersion \<and>
     (\<exists>pub sig. hex_decode want = Some pub \<and> length pub = PublicKeySize \<and> hex_decode (sgn_Sig ss) = Some sig \<and>
        ed_verify E pub (sgn_Payload ss) sig)"
  by (auto simp: VerifySnapshot_def split: if_splits option.splits)

lemma PublicKey_hex [simp]: "PublicKey E sg = hex_of_bytes (sg_pub sg)"
  by (simp add: PublicKey_def sign_def)

lemma verify_own:
  assumes "key_pair E (sg_pub sg) (sg_priv sg)" "sc_unmarshal C payload = Some snap" "snap_Version snap = SnapshotVersion"
  shows "VerifySnapshot E C (sign E sg payload) (PublicKey E sg) = Inr snap"
proof -
  have "length (hex_of_bytes (sg_pub sg)) \<noteq> 0" using assms(1) by (simp add: length_hex_of_bytes key_pair_def PublicKeySize_def)
  then have "hex_of_bytes (sg_pub sg) \<noteq> ''''" by auto
  then show ?thesis using assms by (simp add: VerifySnapshot_def sign_def hex_decode_encode key_pair_def)
qed

lemma map_filter_uids:
  assumes "\<And>u. u \<in> set us \<Longrightarrow> \<exists>y. f u = Some y \<and> key y = u"
  shows "map key (List.map_filter f us) = us"
  using assms by (induction us) (fastforce simp: map_filter_simps split: option.splits)+

lemma set_map_filter_Some: "set (List.map_filter f xs) = {y. \<exists>x \<in> set xs. f x = Some y}"
  by (induction xs) (auto simp: map_filter_simps split: option.splits)

lemma export_listings:
  assumes "js_ok (rg_index g)"
  shows "map sn_UID (snap_Listings (export g)) = live_uids (js_all (rg_index g))"
    "set (snap_Listings (export g)) = {snapshot_listing uid l | uid l. e_Live (entry_of g uid) = Some l}"
proof -
  let ?f = "\<lambda>uid. case map_of (js_all (rg_index g)) uid of None \<Rightarrow> None | Some e \<Rightarrow> map_option (snapshot_listing uid) (e_Live e)"
  have f: "?f uid = map_option (snapshot_listing uid) (e_Live (entry_of g uid))" for uid
    by (simp add: entry_of_def js_val_def js_all_def no_entry_def split: option.splits)
  note us = live_uids_props(3) [OF assms]
  have "\<exists>y. ?f u = Some y \<and> sn_UID y = u" if "u \<in> set (live_uids (js_all (rg_index g)))" for u
    using that unfolding f us by (auto simp: snapshot_listing_def)
  from map_filter_uids [OF this] show "map sn_UID (snap_Listings (export g)) = live_uids (js_all (rg_index g))"
    by (simp add: export_def Let_def)
  have "set (snap_Listings (export g)) = {y. \<exists>u \<in> set (live_uids (js_all (rg_index g))). ?f u = Some y}"
    by (simp add: export_def Let_def set_map_filter_Some)
  also have "\<dots> = {snapshot_listing uid l | uid l. e_Live (entry_of g uid) = Some l}"
    unfolding f us by auto
  finally show "set (snap_Listings (export g)) = {snapshot_listing uid l | uid l. e_Live (entry_of g uid) = Some l}" .
qed

section \<open>Properties\<close>

text \<open>
  C37: A snapshot carries the whole index to whoever trusts the key. With a generated key pair and a codec that decodes
  what it encoded, a bought snapshot verifies under the directory's published key, and what it decodes to lists every live
  provider exactly once, in the order of the uids, with the description, tags, catalog and stamps of its listing, and
  nothing else.
\<close>

theorem snapshot_roundtrip:
  assumes "key_pair E (sg_pub sg) (sg_priv sg)" "js_ok (rg_index g)"
    and "sc_marshal C (export g) = Some payload" "sc_unmarshal C payload = Some (export g)"
  shows "\<exists>ss snap. buildSnapshot E C sg g = Inr ss \<and> VerifySnapshot E C ss (PublicKey E sg) = Inr snap \<and>
    sorted (map sn_UID (snap_Listings snap)) \<and> distinct (map sn_UID (snap_Listings snap)) \<and>
    set (snap_Listings snap) = {snapshot_listing uid l | uid l. e_Live (entry_of g uid) = Some l}"
proof (intro exI conjI)
  show "buildSnapshot E C sg g = Inr (sign E sg payload)" using assms(3) by (simp add: buildSnapshot_def)
  show "VerifySnapshot E C (sign E sg payload) (PublicKey E sg) = Inr (export g)"
    by (rule verify_own [OF assms(1,4)]) (simp add: export_def Let_def)
  show "sorted (map sn_UID (snap_Listings (export g)))" "distinct (map sn_UID (snap_Listings (export g)))"
    using live_uids_props(1,2) [OF assms(2)] by (simp_all add: export_listings(1) [OF assms(2)])
  show "set (snap_Listings (export g)) = {snapshot_listing uid l | uid l. e_Live (entry_of g uid) = Some l}"
    by (rule export_listings(2) [OF assms(2)])
qed

text \<open>Arguments for the examples: signatures that repeat the message after the public half, which the private key
  contains, and a codec for one snapshot.\<close>

definition demo_ed :: ed25519 where
  "demo_ed = \<lparr>ed_sign = \<lambda>priv m. drop 32 priv @ m, ed_verify = \<lambda>pub m s. s = pub @ m\<rparr>"

definition demo_signer :: "byte \<Rightarrow> snapshotSigner" where
  "demo_signer b = \<lparr>sg_pub = replicate 32 b, sg_priv = replicate 32 7 @ replicate 32 b\<rparr>"

definition demo_snap_codec :: "Snapshot \<Rightarrow> snapshot_codec" where
  "demo_snap_codec s = \<lparr>sc_marshal = \<lambda>s'. if s' = s then Some [1] else None, sc_unmarshal = \<lambda>bs. if bs = [1] then Some s else None\<rparr>"

lemma demo_pair: "key_pair demo_ed (sg_pub (demo_signer b)) (sg_priv (demo_signer b))"
  by (simp add: key_pair_def demo_ed_def demo_signer_def PublicKeySize_def PrivateKeySize_def)

lemma snapshot_roundtrip_witness:
  "\<exists>ss snap. buildSnapshot demo_ed (demo_snap_codec (export demo_index)) (demo_signer 9) demo_index = Inr ss \<and>
     VerifySnapshot demo_ed (demo_snap_codec (export demo_index)) ss (PublicKey demo_ed (demo_signer 9)) = Inr snap \<and>
     map sn_UID (snap_Listings (export demo_index)) = [''ann'', ''bob''] \<and> sorted (map sn_UID (snap_Listings snap))"
proof -
  have "js_ok (rg_index demo_index)" by (simp add: js_ok_def gmap_ok_def demo_index_def)
  moreover have "sc_marshal (demo_snap_codec (export demo_index)) (export demo_index) = Some [1]"
    "sc_unmarshal (demo_snap_codec (export demo_index)) [1] = Some (export demo_index)" by (simp_all add: demo_snap_codec_def)
  ultimately have "\<exists>ss snap. buildSnapshot demo_ed (demo_snap_codec (export demo_index)) (demo_signer 9) demo_index = Inr ss \<and>
     VerifySnapshot demo_ed (demo_snap_codec (export demo_index)) ss (PublicKey demo_ed (demo_signer 9)) = Inr snap \<and>
     sorted (map sn_UID (snap_Listings snap))" using snapshot_roundtrip [OF demo_pair] by meson
  moreover have "map sn_UID (snap_Listings (export demo_index)) = [''ann'', ''bob'']" by code_simp
  ultimately show ?thesis by simp
qed

text \<open>
  The signing key survives restarts, but not a torn first write. Once a start has written a fresh key pair, every later
  start, whatever key it could generate, loads the same pair and leaves the file alone. A start whose write is torn fails, and then so does
  every later one until somebody removes the file: nothing regenerates the key.
\<close>

lemma signing_key_survives:
  assumes "pf_file f = Absent" "length pub = 32" "length priv = 64"
  shows "case loadOrCreateSigner (Some (pub, priv)) f of (r, f') \<Rightarrow>
      (case pf_script f of
         [] \<Rightarrow> r = Inr \<lparr>sg_pub = pub, sg_priv = priv\<rparr> \<and> loadOrCreateSigner fresh f' = (r, f')
       | Written # _ \<Rightarrow> r = Inr \<lparr>sg_pub = pub, sg_priv = priv\<rparr> \<and> loadOrCreateSigner fresh f' = (r, f')
       | NotOpened # _ \<Rightarrow> isl r \<and> pf_file f' = Absent
       | Torn # _ \<Rightarrow> isl r \<and> loadOrCreateSigner fresh f' = (Inl ''signer key corrupt'', f'))"
  using assms by (auto simp: loadOrCreateSigner_def write_file_def hex_decode_encode PublicKeySize_def PrivateKeySize_def
      split: list.splits write_outcome.splits)

lemma signing_key_survives_witness:
  "case loadOrCreateSigner (Some (replicate 32 1, replicate 64 2)) \<lparr>pf_file = Absent, pf_script = [Torn]\<rparr> of (r, f') \<Rightarrow>
     isl r \<and> loadOrCreateSigner (Some (replicate 32 1, replicate 64 2)) f' = (Inl ''signer key corrupt'', f')"
  using signing_key_survives [of "\<lparr>pf_file = Absent, pf_script = [Torn]\<rparr>" "replicate 32 1" "replicate 64 2"
      "Some (replicate 32 1, replicate 64 2)"] by (simp add: split_beta)

end
