(* ===== verification/DirClient.thy ===== *)
theory DirClient
  imports Registry Payment
begin

text \<open>
  The directory's paid calls, \<^verbatim>\<open>paidCall\<close> and \<^verbatim>\<open>runTest\<close> of \<^verbatim>\<open>directory/client.go\<close>. What the network, the rail and
  the clock answer, and what other goroutines do to the balances and the journal meanwhile, is an
  environment: functions on a state of the world. The calls are logged as events.
\<close>

section \<open>Environment\<close>

text \<open>\<open>pe_dial\<close>: a fresh session, or an error. \<open>pe_call\<close>: one \<^verbatim>\<open>CallTool\<close> with the given key, and how long it took.
  \<open>pe_over\<close>: \<^verbatim>\<open>ctx.Err() != nil\<close>. \<open>pe_wait\<close>: a pause of three seconds, or the error of the ended context.
  \<open>pe_pay\<close>: the rail's error and whether the payment's own context has ended.\<close>

record 'w pay_env =
  pe_dial :: "'w \<Rightarrow> string option \<times> 'w"
  pe_call :: "string \<Rightarrow> 'w \<Rightarrow> (string + CallToolResult) \<times> duration \<times> 'w"
  pe_over :: "'w \<Rightarrow> bool"
  pe_wait :: "'w \<Rightarrow> string option \<times> 'w"
  pe_debit :: "int64 \<Rightarrow> 'w \<Rightarrow> string option \<times> 'w"
  pe_record :: "int64 \<Rightarrow> 'w \<Rightarrow> nat \<times> 'w"
  pe_pay :: "int64 \<Rightarrow> 'w \<Rightarrow> string option \<times> bool \<times> 'w"
  pe_remove :: "nat \<Rightarrow> 'w \<Rightarrow> 'w"
  pe_refund :: "int64 \<Rightarrow> 'w \<Rightarrow> 'w"

datatype pay_event =
    PCalled string
  | PDebited int64 "string option"
  | PRecorded nat int64
  | PPaid int64 "string option" bool
  | PRemoved nat
  | PRefunded int64

record callResult =
  cl_res :: "CallToolResult option"
  cl_paid :: int64
  cl_latency :: int64

definition creditPollTries :: nat where "creditPollTries = 6"

text \<open>The result, the error, the events, and the world.\<close>

type_synonym 'w paid_out = "callResult \<times> string option \<times> pay_event list \<times> 'w"

definition ptraced :: "pay_event list \<Rightarrow> 'w paid_out \<Rightarrow> 'w paid_out" where
  "ptraced tr x = (case x of (r, e, tr', w) \<Rightarrow> (r, e, tr @ tr', w))"

section \<open>Settling one refusal\<close>

definition quoted_amount :: "PaymentRequired \<Rightarrow> int64" where
  "quoted_amount pr = (if pr_shortfall pr \<le> 0 then pr_price pr else pr_shortfall pr)"

text \<open>The part of the loop that pays: \<open>Inl\<close> the error that ends the call, \<open>Inr\<close> the amount paid. \<open>escrow\<close> says
  whether a debit function was given.\<close>

definition pay_once :: "'w pay_env \<Rightarrow> bool \<Rightarrow> int64 \<Rightarrow> PaymentRequired \<Rightarrow> 'w \<Rightarrow> (string + int64) \<times> pay_event list \<times> 'w" where
  "pay_once E escrow maxAtoms pr w =
     (let amount = quoted_amount pr in
      if amount \<le> 0 then (Inl ''payment_required without an amount'', [], w)
      else if maxAtoms < amount then (Inl (''quote '' @ dec_of_int amount @ '' atoms exceeds the '' @ dec_of_int maxAtoms @ '' atom budget''), [], w)
      else
        (case (if escrow then pe_debit E amount w else (None, w)) of
           (Some e, w) \<Rightarrow> (Inl (''escrow debit: '' @ e), [PDebited amount (Some e)], w)
         | (None, w) \<Rightarrow>
             let debited = (if escrow then [PDebited amount None] else []) in
             (case pe_record E amount w of (token, w) \<Rightarrow>
              case pe_pay E amount w of
                (None, timedOut, w) \<Rightarrow> (Inr amount, debited @ [PRecorded token amount, PPaid amount None timedOut], w)
              | (Some e, True, w) \<Rightarrow>
                  (Inl (''payment: '' @ e), debited @ [PRecorded token amount, PPaid amount (Some e) True], w)
              | (Some e, False, w) \<Rightarrow>
                  let w = pe_remove E token w; w = (if escrow then pe_refund E amount w else w) in
                  (Inl (''payment: '' @ e), debited @ [PRecorded token amount, PPaid amount (Some e) False, PRemoved token] @
                     (if escrow then [PRefunded amount] else []), w))))"

section \<open>The loop\<close>

text \<open>\<open>first\<close> is \<^verbatim>\<open>attempt == 0\<close>.\<close>

function paid_loop :: "'w pay_env \<Rightarrow> (string \<Rightarrow> PaymentRequired option) \<Rightarrow> string \<Rightarrow> int64 \<Rightarrow> bool \<Rightarrow>
    bool \<Rightarrow> bool \<Rightarrow> nat \<Rightarrow> callResult \<Rightarrow> 'w \<Rightarrow> 'w paid_out" where
  "paid_loop E unmarshal key maxAtoms escrow first paid polls out w =
     (case pe_call E key w of
        (Inl e, _, w) \<Rightarrow>
          if first \<and> \<not> pe_over E w then
            (case pe_dial E w of
               (Some e, w) \<Rightarrow> (out, Some e, [PCalled key], w)
             | (None, w) \<Rightarrow> ptraced [PCalled key] (paid_loop E unmarshal key maxAtoms escrow False paid polls out w))
          else (out, Some e, [PCalled key], w)
      | (Inr res, took, w) \<Rightarrow>
          (case ParsePaymentRequired unmarshal (Some res) of
             None \<Rightarrow> (out\<lparr>cl_res := Some res, cl_latency := quot64 took 1000000\<rparr>, None, [PCalled key], w)
           | Some pr \<Rightarrow>
               if paid then
                 if polls < creditPollTries then
                   (case pe_wait E w of
                      (Some e, w) \<Rightarrow> (out, Some e, [PCalled key], w)
                    | (None, w) \<Rightarrow> ptraced [PCalled key] (paid_loop E unmarshal key maxAtoms escrow False paid (polls + 1) out w))
                 else (out, Some ''payment made but the call still refuses; credit did not land'', [PCalled key], w)
               else
                 (case pay_once E escrow maxAtoms pr w of
                    (Inl e, tr, w) \<Rightarrow> (out, Some e, PCalled key # tr, w)
                  | (Inr amount, tr, w) \<Rightarrow> ptraced (PCalled key # tr)
                      (paid_loop E unmarshal key maxAtoms escrow False True polls (out\<lparr>cl_paid := add64 (cl_paid out) amount\<rparr>) w))))"
  by pat_completeness auto

termination
  by (relation "measures [\<lambda>(_, _, _, _, _, _, paid, _). if paid then 0 else 1,
      \<lambda>(_, _, _, _, _, _, _, polls, _). creditPollTries - polls, \<lambda>(_, _, _, _, _, first, _). if first then 1 else 0]") auto

declare paid_loop.simps [simp del]

definition no_result :: callResult where
  "no_result = \<lparr>cl_res = None, cl_paid = 0, cl_latency = 0\<rparr>"

definition paidCall :: "'w pay_env \<Rightarrow> (string \<Rightarrow> PaymentRequired option) \<Rightarrow> string \<Rightarrow> int64 \<Rightarrow> bool \<Rightarrow> 'w \<Rightarrow> 'w paid_out" where
  "paidCall E unmarshal key maxAtoms escrow w = (case pe_dial E w of
     (Some e, w) \<Rightarrow> (no_result, Some e, [], w)
   | (None, w) \<Rightarrow> paid_loop E unmarshal key maxAtoms escrow True False 0 no_result w)"

section \<open>The verification test\<close>

text \<open>The text blocks of a result, joined by newlines where something stands before.\<close>

definition resultJSON :: "CallToolResult option \<Rightarrow> string" where
  "resultJSON res = (case res of
     None \<Rightarrow> ''''
   | Some r \<Rightarrow> fold (\<lambda>c acc. case c of TextContent t \<Rightarrow> (if acc \<noteq> '''' then acc @ [CHR 0x0A] else acc) @ t | OtherContent \<Rightarrow> acc)
       (cr_content r) '''')"

definition resultText :: "CallToolResult option \<Rightarrow> string" where
  "resultText res = take 512 (resultJSON res)"

text \<open>The copy of the registration that the test returns; the pipeline takes its four fields from it.\<close>

definition tested :: "Registration \<Rightarrow> callResult \<Rightarrow> string option \<Rightarrow> Registration" where
  "tested reg cr err =
     (let reg = reg\<lparr>r_paid := add64 (r_paid reg) (cl_paid cr), r_latency := cl_latency cr\<rparr> in
      case err of
        Some e \<Rightarrow> reg\<lparr>r_outcome := ''failed'', r_err := e\<rparr>
      | None \<Rightarrow>
          if (case cl_res cr of Some r \<Rightarrow> cr_isError r | None \<Rightarrow> False)
          then reg\<lparr>r_outcome := ''failed'', r_err := resultText (cl_res cr)\<rparr>
          else reg\<lparr>r_outcome := ''ok'', r_err := ''''\<rparr>)"

definition runTest :: "'w pay_env \<Rightarrow> (string \<Rightarrow> PaymentRequired option) \<Rightarrow> Registration \<Rightarrow> 'w \<Rightarrow>
    (Registration \<times> bool) \<times> pay_event list \<times> 'w" where
  "runTest E unmarshal reg w =
     (case paidCall E unmarshal (r_callKey reg) (remaining reg) True w of (cr, err, tr, w) \<Rightarrow>
        let r = tested reg cr err in ((r, r_outcome r = ''ok''), tr, w))"

section \<open>What a call may do\<close>

fun is_called :: "pay_event \<Rightarrow> bool" where
  "is_called (PCalled _) = True"
| "is_called _ = False"

text \<open>The money of a call: none, a debit that was refused, or one payment; a payment is recorded before it is
  made, and taken back, journal and escrow, exactly when the rail failed in time.\<close>

definition once :: "bool \<Rightarrow> int64 \<Rightarrow> pay_event list \<Rightarrow> int64 \<Rightarrow> bool" where
  "once escrow maxAtoms tr paid \<longleftrightarrow>
     (tr = [] \<and> paid = 0) \<or> (\<exists>n e. tr = [PDebited n (Some e)] \<and> paid = 0) \<or>
     (\<exists>n token err timedOut. 0 < n \<and> n \<le> maxAtoms \<and> paid = (if err = None then n else 0) \<and>
        tr = (if escrow then [PDebited n None] else []) @ [PRecorded token n, PPaid n err timedOut] @
          (if err \<noteq> None \<and> \<not> timedOut then PRemoved token # (if escrow then [PRefunded n] else []) else []))"

definition loop_ok :: "string \<Rightarrow> int64 \<Rightarrow> bool \<Rightarrow> bool \<Rightarrow> bool \<Rightarrow> nat \<Rightarrow> callResult \<Rightarrow> 'w paid_out \<Rightarrow> bool" where
  "loop_ok key maxAtoms escrow first paid polls out x \<longleftrightarrow> (case x of (cr, err, tr, w) \<Rightarrow>
     length (filter is_called tr) \<le> (creditPollTries - polls) + (if paid then 1 else 2) + (if first then 1 else 0) \<and>
     (\<forall>k. PCalled k \<in> set tr \<longrightarrow> k = key) \<and> (err = None \<longrightarrow> cl_res cr \<noteq> None) \<and>
     (if paid then filter (Not \<circ> is_called) tr = [] \<and> cl_paid cr = cl_paid out
      else cl_paid out = 0 \<longrightarrow> once escrow maxAtoms (filter (Not \<circ> is_called) tr) (cl_paid cr)))"

lemma pay_once_shape:
  assumes "pay_once E escrow maxAtoms pr w = (r, tr, w')" "maxAtoms \<le> max64"
  shows "filter is_called tr = [] \<and> (case r of Inl e \<Rightarrow> once escrow maxAtoms tr 0
    | Inr n \<Rightarrow> add64 0 n = n \<and> once escrow maxAtoms tr n)"
proof -
  let ?n = "quoted_amount pr"
  show ?thesis
  proof (cases "?n \<le> 0 \<or> maxAtoms < ?n")
    case True
    then show ?thesis using assms(1) by (auto simp: pay_once_def Let_def once_def split: if_splits)
  next
    case False
    then have n: "0 < ?n" "?n \<le> maxAtoms" "add64 0 ?n = ?n"
      using assms(2) add64_exact [of 0 ?n] by (auto simp: range64)
    obtain d w1 where d: "(if escrow then pe_debit E ?n w else (None, w)) = (d, w1)" by fastforce
    obtain token w2 where t: "pe_record E ?n w1 = (token, w2)" by fastforce
    obtain e o1 w3 where p: "pe_pay E ?n w2 = (e, o1, w3)" by (metis prod_cases3)
    show ?thesis
    proof (cases d)
      case (Some x)
      then show ?thesis using assms(1) n d by (auto simp: pay_once_def Let_def once_def)
    next
      case None
      then show ?thesis using assms(1) n d t p
        by (cases e; cases o1) (auto simp: pay_once_def Let_def once_def)
    qed
  qed
qed

lemma loop_ok_call:
  "loop_ok key maxAtoms escrow first paid polls out (cr, err, [PCalled key], w)"
  if "err = None \<longrightarrow> cl_res cr \<noteq> None" "cl_paid cr = cl_paid out"
  using that by (auto simp: loop_ok_def once_def)

lemma loop_ok_again:
  assumes "loop_ok key maxAtoms escrow False paid polls' out x" "polls' = polls \<and> first \<or> polls < creditPollTries \<and> polls' = polls + 1"
  shows "loop_ok key maxAtoms escrow first paid polls out (ptraced [PCalled key] x)"
  using assms by (auto simp: loop_ok_def ptraced_def comp_def split: prod.splits)

lemma paid_loop_ok:
  "maxAtoms \<le> max64 \<Longrightarrow> loop_ok key maxAtoms escrow first paid polls out (paid_loop E unmarshal key maxAtoms escrow first paid polls out w)"
proof (induction E unmarshal key maxAtoms escrow first paid polls out w rule: paid_loop.induct)
  case (1 E unmarshal key maxAtoms escrow first paid polls out w)
  note eq = paid_loop.simps [of E unmarshal key maxAtoms escrow first paid polls out w]
  obtain c took w1 where call: "pe_call E key w = (c, took, w1)" by (metis prod_cases3)
  show ?case
  proof (cases c)
    case err: (Inl e)
    show ?thesis
    proof (cases "first \<and> \<not> pe_over E w1")
      case True
      obtain d w2 where d: "pe_dial E w1 = (d, w2)" by fastforce
      have "d = None \<Longrightarrow> loop_ok key maxAtoms escrow False paid polls out (paid_loop E unmarshal key maxAtoms escrow False paid polls out w2)"
        using "1.IH"(1) call err True d "1.prems" by simp
      with True show ?thesis unfolding eq
        by (cases d) (simp_all add: call err d loop_ok_call loop_ok_again [where polls' = polls])
    next
      case False
      then show ?thesis unfolding eq by (auto simp: call err loop_ok_call)
    qed
  next
    case res: (Inr res)
    show ?thesis
    proof (cases "ParsePaymentRequired unmarshal (Some res)")
      case None
      then show ?thesis unfolding eq by (simp add: call res loop_ok_call)
    next
      case pr: (Some pr)
      show ?thesis
      proof (cases paid)
        case True
        show ?thesis
        proof (cases "polls < creditPollTries")
          case polls: True
          obtain d w2 where d: "pe_wait E w1 = (d, w2)" by fastforce
          have "d = None \<Longrightarrow> loop_ok key maxAtoms escrow False True (polls + 1) out
              (paid_loop E unmarshal key maxAtoms escrow False True (polls + 1) out w2)"
            using "1.IH"(2) call res pr True polls d "1.prems" by simp
          with True polls show ?thesis unfolding eq
            by (cases d) (simp_all add: call res pr d loop_ok_call loop_ok_again [where polls' = "polls + 1"])
        next
          case False
          with True show ?thesis unfolding eq by (simp add: call res pr loop_ok_call)
        qed
      next
        case np: False
        obtain r tr w2 where p: "pay_once E escrow maxAtoms pr w1 = (r, tr, w2)" by (metis prod_cases3)
        note shape = pay_once_shape [OF p "1.prems"]
        have none: "PCalled k \<notin> set tr" for k using shape by (auto simp: filter_empty_conv)
        have tr: "filter (Not \<circ> is_called) tr = tr" using shape by (simp add: filter_empty_conv filter_id_conv)
        show ?thesis
        proof (cases r)
          case (Inl e)
          with np shape none tr show ?thesis unfolding eq by (simp add: call res pr p loop_ok_def)
        next
          case (Inr n)
          let ?o = "out\<lparr>cl_paid := add64 (cl_paid out) n\<rparr>"
          let ?x = "paid_loop E unmarshal key maxAtoms escrow False True polls ?o w2"
          have "loop_ok key maxAtoms escrow False True polls ?o ?x"
            using "1.IH"(3) call res pr np p Inr "1.prems" by simp
          with np shape none tr Inr show ?thesis unfolding eq
            by (auto simp: call res pr p loop_ok_def ptraced_def split: prod.splits)
        qed
      qed
    qed
  qed
qed

lemma paid_call_once:
  assumes "paidCall E unmarshal key maxAtoms escrow w = (cr, err, tr, w')" "maxAtoms \<le> max64"
  shows "length (filter is_called tr) \<le> 9 \<and> (\<forall>k. PCalled k \<in> set tr \<longrightarrow> k = key) \<and>
    once escrow maxAtoms (filter (Not \<circ> is_called) tr) (cl_paid cr) \<and> (err = None \<longrightarrow> cl_res cr \<noteq> None)"
proof -
  obtain d w1 where d: "pe_dial E w = (d, w1)" by fastforce
  show ?thesis
  proof (cases d)
    case None
    have "loop_ok key maxAtoms escrow True False 0 no_result (paid_loop E unmarshal key maxAtoms escrow True False 0 no_result w1)"
      by (rule paid_loop_ok [OF assms(2)])
    then show ?thesis using assms(1) d None
      by (auto simp: paidCall_def loop_ok_def no_result_def creditPollTries_def)
  next
    case (Some e)
    then show ?thesis using assms(1) d by (auto simp: paidCall_def no_result_def once_def)
  qed
qed


text \<open>A provider that loses the first call and asks for 5 atoms until it has been asked eight times: the payment
  goes through and the credit lands just in time.\<close>

definition late_provider :: "nat pay_env" where
  "late_provider = \<lparr>pe_dial = \<lambda>w. (None, w),
     pe_call = \<lambda>k w. (if w = 0 then Inl ''lost'' else Inr \<lparr>cr_isError = (w < 8), cr_content = [TextContent ''t'']\<rparr>, 3000000, w + 1),
     pe_over = \<lambda>w. False, pe_wait = \<lambda>w. (None, w), pe_debit = \<lambda>n w. (None, w), pe_record = \<lambda>n w. (0, w),
     pe_pay = \<lambda>n w. (None, False, w), pe_remove = \<lambda>t w. w, pe_refund = \<lambda>n w. w\<rparr>"

definition asks_five :: "string \<Rightarrow> PaymentRequired option" where
  "asks_five s = Some \<lparr>pr_error = ''payment_required'', pr_tool = ''t'', pr_price = 9, pr_balance = 4, pr_shortfall = 5, pr_rails = []\<rparr>"


text \<open>The four fields that the pipeline takes over.\<close>

definition test_of :: "Registration \<Rightarrow> test_result" where
  "test_of r = \<lparr>tr_paid = r_paid r, tr_outcome = r_outcome r, tr_err = r_err r, tr_latency = r_latency r\<rparr>"

text \<open>A test spends what is left of the budget at most, so the paid total stays within it.\<close>

lemma test_within_budget:
  assumes "runTest E unmarshal reg w = ((r, passed), tr, w')" "0 \<le> r_paid reg" "r_paid reg \<le> r_budget reg" "r_budget reg \<le> max64"
  shows "r_paid reg \<le> r_paid r \<and> r_paid r \<le> r_budget reg \<and> (passed \<longleftrightarrow> tr_outcome (test_of r) = ''ok'')"
proof -
  obtain cr err w1 where p: "paidCall E unmarshal (r_callKey reg) (remaining reg) True w = (cr, err, tr, w1)"
    and r: "r = tested reg cr err" "passed = (r_outcome r = ''ok'')"
    using assms(1) by (auto simp: runTest_def Let_def split: prod.splits)
  have "sub64 (r_budget reg) (r_paid reg) = r_budget reg - r_paid reg"
    using assms(2-4) by (intro sub64_exact) (simp add: range64)
  then have rem: "remaining reg = r_budget reg - r_paid reg" using assms(3) by (simp add: remaining_def Let_def)
  have "once True (remaining reg) (filter (Not \<circ> is_called) tr) (cl_paid cr)"
    using paid_call_once [OF p] rem assms(2,4) by simp
  then have n: "0 \<le> cl_paid cr" "cl_paid cr \<le> r_budget reg - r_paid reg" using rem assms(3) by (auto simp: once_def)
  then have "add64 (r_paid reg) (cl_paid cr) = r_paid reg + cl_paid cr"
    using assms(2,4) by (intro add64_exact) (simp add: range64)
  then have "r_paid r = r_paid reg + cl_paid cr" by (auto simp: r tested_def Let_def split: option.splits)
  then show ?thesis using n r(2) by (simp add: test_of_def)
qed

end
