(* ===== verification/Wellformed.thy ===== *)
theory Wellformed
  imports DirTools
begin

text \<open>
  The data that the directory keeps is well formed: every registration and every listing, in memory and in the
  file, respects the input limits of \<^verbatim>\<open>directory/types.go\<close> and carries normalised tags, whatever steps were
  taken, discards under a running pipeline and restarts included. The reports of the public tools build on it.
\<close>

section \<open>Well-formed values\<close>

definition tags_wf :: "string list \<Rightarrow> bool" where
  "tags_wf ts \<longleftrightarrow> length ts \<le> MaxTags \<and> distinct ts \<and> (\<forall>t \<in> set ts. t \<noteq> '''' \<and> to_lower t = t)"

definition described :: "string \<Rightarrow> string list \<Rightarrow> TestSpec \<Rightarrow> bool" where
  "described d ts t \<longleftrightarrow> trim_space d \<noteq> '''' \<and> length d \<le> MaxDescriptionLen \<and> tags_wf ts \<and>
     trim_space (ts_tool t) \<noteq> '''' \<and> 0 < ts_max t"

definition reg_wf :: "Registration \<Rightarrow> bool" where
  "reg_wf r \<longleftrightarrow> described (r_description r) (r_tags r) (r_test r) \<and> r_budget r = ts_max (r_test r)"

definition listing_wf :: "Listing \<Rightarrow> bool" where
  "listing_wf l \<longleftrightarrow> described (l_description l) (l_tags l) (l_test l)"

definition entry_wf :: "Entry \<Rightarrow> bool" where
  "entry_wf e \<longleftrightarrow> (\<forall>r. e_Reg e = Some r \<longrightarrow> reg_wf r) \<and> (\<forall>l. e_Live e = Some l \<longrightarrow> listing_wf l)"

section \<open>Normalised tags\<close>

lemma normalize_from_props:
  "length (normalize_from seen ts) \<le> length ts" "distinct (normalize_from seen ts)"
  "set (normalize_from seen ts) \<inter> set seen = {}"
  "u \<in> set (normalize_from seen ts) \<Longrightarrow> u \<noteq> '''' \<and> to_lower u = u"
  by (induction seen ts rule: normalize_from.induct) (auto simp: Let_def split: if_splits)

lemma normalized_wf: "length ts \<le> MaxTags \<Longrightarrow> tags_wf (normalizeTags ts)"
  using normalize_from_props(1,2) [of "[]" ts] normalize_from_props(4) [of _ "[]" ts]
  by (auto simp: tags_wf_def normalizeTags_def)

lemma new_registration_wf: "validateRegister i m = None \<Longrightarrow> reg_wf (new_registration p now i b)"
  by (auto simp: validateRegister_def reg_wf_def described_def new_registration_def normalized_wf split: if_splits)

lemma listing_from_wf: "reg_wf r \<Longrightarrow> listing_wf (listing_from r live now days)"
  by (simp add: reg_wf_def listing_wf_def listing_from_def)

lemma no_entry_wf [simp, intro]: "entry_wf no_entry"
  by (simp add: entry_wf_def no_entry_def)

section \<open>Preservation\<close>

definition dir_wf :: "'b registry \<Rightarrow> bool" where
  "dir_wf g \<longleftrightarrow> store_all (\<lambda>_. entry_wf) (rg_index g)"

lemma dir_wf_entry: "dir_wf g \<Longrightarrow> entry_wf (entry_of g uid)"
  unfolding dir_wf_def entry_of_def by (rule store_all_val) auto

lemma dir_wf_put: "dir_wf g \<Longrightarrow> entry_wf e \<Longrightarrow> dir_wf (snd (put_entry uid e g))"
  by (auto simp: dir_wf_def put_entry_def split_beta)

lemma dir_wf_reg: "dir_wf g \<Longrightarrow> e_Reg (entry_of g uid) = Some r \<Longrightarrow> reg_wf r"
  and dir_wf_live: "dir_wf g \<Longrightarrow> e_Live (entry_of g uid) = Some l \<Longrightarrow> listing_wf l"
  using dir_wf_entry [of g uid] by (auto simp: entry_wf_def)

text \<open>A change of the registration or of the listing of one entry.\<close>

lemma dir_wf_put_reg:
  "dir_wf g \<Longrightarrow> (\<And>r. x = Some r \<Longrightarrow> reg_wf r) \<Longrightarrow> dir_wf (snd (put_entry uid ((entry_of g uid)\<lparr>e_Reg := x\<rparr>) g))"
  and dir_wf_put_live:
  "dir_wf g \<Longrightarrow> (\<And>l. y = Some l \<Longrightarrow> listing_wf l) \<Longrightarrow> dir_wf (snd (put_entry uid ((entry_of g uid)\<lparr>e_Live := y\<rparr>) g))"
  using dir_wf_entry [of g uid] by (auto intro!: dir_wf_put simp: entry_wf_def)

lemma dir_wf_frame [simp]:
  "dir_wf (g\<lparr>rg_billing := b\<rparr>) = dir_wf g" "dir_wf (g\<lparr>rg_pipes := ps\<rparr>) = dir_wf g" "dir_wf (g\<lparr>rg_inflight := fl\<rparr>) = dir_wf g"
  "dir_wf (g\<lparr>rg_now := t\<rparr>) = dir_wf g" "dir_wf (g\<lparr>rg_started := c\<rparr>) = dir_wf g" "dir_wf (set_pipe i ph g) = dir_wf g"
  "dir_wf (spawnPipeline uid g) = dir_wf g" "dir_wf (dir_Close g) = dir_wf g" "dir_wf (SetSelfUID uid g) = dir_wf g"
  "dir_wf (convertLead uid g) = dir_wf g" "dir_wf (snd (add_peer uid pub g)) = dir_wf g" "dir_wf (snd (remove_peer uid g)) = dir_wf g"
  by (simp_all add: dir_wf_def set_pipe_def spawnPipeline_def dir_Close_def SetSelfUID_def convertLead_def add_peer_def
    remove_peer_def Let_def split_beta)

lemma dir_wf_drop: "dir_wf g \<Longrightarrow> dir_wf (expire_delete uid g)"
  by (auto simp: dir_wf_def expire_delete_def)

lemma dir_wf_register: "validateRegister i m = None \<Longrightarrow> dir_wf g \<Longrightarrow> dir_wf (snd (register_commit uid i g))"
  using dir_wf_put_reg [of g "Some (new_registration (rg_policy g) (unix (rg_now g)) i (e_Live (entry_of g uid) \<noteq> None))" uid]
    dir_wf_put [OF _ dir_wf_entry, of g g uid uid]
  by (auto simp: register_commit_def Let_def intro: new_registration_wf)

lemma dir_wf_poke: "dir_wf g \<Longrightarrow> dir_wf (fst (pokeFunding B uid g))"
proof -
  assume wf: "dir_wf g"
  have "dir_wf (snd (put_entry uid ((entry_of g uid)\<lparr>e_Reg := Some (r\<lparr>r_state := RegCrawling\<rparr>)\<rparr>) (g\<lparr>rg_billing := b\<rparr>)))"
    if "e_Reg (entry_of g uid) = Some r" for r b
    using dir_wf_put_reg [of "g\<lparr>rg_billing := b\<rparr>" "Some (r\<lparr>r_state := RegCrawling\<rparr>)" uid] dir_wf_reg [OF wf that] wf
    by (simp add: reg_wf_def)
  then show ?thesis using wf by (simp add: pokeFunding_def Let_def split: option.splits prod.splits)
qed

lemma dir_wf_promote: "dir_wf g \<Longrightarrow> dir_wf (snd (promote uid g))"
proof -
  assume wf: "dir_wf g"
  have "dir_wf (snd (put_entry uid \<lparr>e_Live = Some (listing_from r (e_Live (entry_of g uid)) now d), e_Reg = None, e_Flag = fl\<rparr> g))"
    if "e_Reg (entry_of g uid) = Some r" for r now d fl
    using wf dir_wf_reg [OF wf that] by (auto intro!: dir_wf_put simp: entry_wf_def listing_from_wf)
  then show ?thesis using wf by (auto simp: promote_def Let_def split_beta split: option.splits)
qed

lemma dir_wf_park: "dir_wf g \<Longrightarrow> dir_wf (park_failed uid msg g)"
  by (auto simp: park_failed_def Let_def reg_wf_def dest: dir_wf_reg intro!: dir_wf_put_reg split: option.splits)

text \<open>The steps of a pipeline.\<close>

lemma dir_wf_crawled: "pipe_crawled i res stopped key g = Some g' \<Longrightarrow> dir_wf g \<Longrightarrow> dir_wf g'"
proof -
  assume s: "pipe_crawled i res stopped key g = Some g'" and wf: "dir_wf g"
  let ?uid = "pl_uid (rg_pipes g ! i)"
  obtain reg where p: "pl_phase (rg_pipes g ! i) = PCrawl reg"
    using s by (auto simp: pipe_crawled_def Let_def split: pipe_phase.splits)
  have put: "dir_wf (snd (put_entry ?uid ((entry_of g ?uid)\<lparr>e_Reg := Some (r\<lparr>r_catalog := Some cat, r_callKey := k, r_state := RegTesting\<rparr>)\<rparr>) g))"
    if "e_Reg (entry_of g ?uid) = Some r" for r cat k
    using dir_wf_put_reg [OF wf, of "Some (r\<lparr>r_catalog := Some cat, r_callKey := k, r_state := RegTesting\<rparr>)"] dir_wf_reg [OF wf that]
    by (simp add: reg_wf_def)
  show "dir_wf g'" using s wf p put dir_wf_park [OF wf]
    by (auto simp: pipe_crawled_def Let_def split_beta split: sum.splits option.splits)
qed

lemma dir_wf_tested: "pipe_tested i t stopped g = Some g' \<Longrightarrow> dir_wf g \<Longrightarrow> dir_wf g'"
proof -
  assume s: "pipe_tested i t stopped g = Some g'" and wf: "dir_wf g"
  let ?uid = "pl_uid (rg_pipes g ! i)"
  obtain reg where p: "pl_phase (rg_pipes g ! i) = PTest reg"
    using s by (auto simp: pipe_tested_def Let_def split: pipe_phase.splits)
  have put: "dir_wf (snd (put_entry ?uid ((entry_of g ?uid)\<lparr>e_Reg := Some r'\<rparr>) g))"
    if "e_Reg (entry_of g ?uid) = Some r" "r_description r' = r_description r" "r_tags r' = r_tags r" "r_test r' = r_test r"
      "r_budget r' = r_budget r" for r r'
    using dir_wf_put_reg [OF wf, of "Some r'"] dir_wf_reg [OF wf that(1)] that by (simp add: reg_wf_def)
  show "dir_wf g'" using s wf p put
    by (auto simp: pipe_tested_def Let_def split_beta split: option.splits if_splits)
qed

lemma dir_wf_spot: "dir_wf g \<Longrightarrow> dir_wf (snd (spotCheck B key uid g))"
proof -
  assume wf: "dir_wf g"
  have "dir_wf (snd (put_entry uid ((entry_of g uid)\<lparr>e_Reg := Some \<lparr>r_state = RegTesting, r_description = l_description l,
      r_tags = l_tags l, r_test = l_test l, r_fee = 0, r_budget = ts_max (l_test l), r_callKey = key, r_paid = 0, r_renewal = True,
      r_created = unix (rg_now g), r_catalog = l_catalog l, r_outcome = '''', r_err = '''', r_latency = 0\<rparr>\<rparr>) g))"
    if "e_Live (entry_of g uid) = Some l" for l
    using dir_wf_live [OF wf that] by (intro dir_wf_put_reg [OF wf]) (auto simp: reg_wf_def listing_wf_def)
  then show ?thesis using wf by (auto simp: spotCheck_def Let_def split_beta split: option.splits)
qed

lemma dir_wf_admin:
  assumes "dir_wf g"
  shows "dir_wf (snd (approveRegistration uid g))" "dir_wf (snd (rejectRegistration uid reason g))"
    "dir_wf (snd (unlist_clear uid g))" "dir_wf (expire_clear uid now g)" "dir_wf (recrawl_commit uid cat g)"
    "dir_wf (snd (flag_entry uid msg g))"
proof -
  note e = dir_wf_entry [OF assms, of uid]
  show "dir_wf (snd (approveRegistration uid g))"
    using assms dir_wf_promote [OF assms] by (auto simp: approveRegistration_def split: option.splits)
  show "dir_wf (snd (rejectRegistration uid reason g))" using assms e
    by (auto simp: rejectRegistration_def Let_def entry_wf_def split_beta intro!: dir_wf_put split: option.splits)
  show "dir_wf (snd (unlist_clear uid g))" "dir_wf (expire_clear uid now g)" using assms
    by (auto simp: unlist_clear_def expire_clear_def Let_def split_beta intro!: dir_wf_put_live split: option.splits)
  show "dir_wf (recrawl_commit uid cat g)" using assms dir_wf_live [OF assms]
    by (auto simp: recrawl_commit_def Let_def listing_wf_def split_beta intro!: dir_wf_put_live split: option.splits)
  show "dir_wf (snd (flag_entry uid msg g))" using assms e
    by (auto simp: flag_entry_def entry_wf_def split_beta intro!: dir_wf_put)
qed

lemma dir_wf_restart: "dir_restart pol b g = Inr g' \<Longrightarrow> dir_wf g \<Longrightarrow> dir_wf g'"
  by (auto simp: dir_restart_def dir_New_def dir_wf_def split: sum.splits)

lemma dir_wf_step: "dir_step B e g = Some g' \<Longrightarrow> dir_wf g \<Longrightarrow> dir_wf g'"
proof (cases e)
  case (DCrawled i res stopped key)
  assume "dir_step B e g = Some g'" "dir_wf g"
  then show ?thesis using DCrawled dir_wf_crawled by (auto simp: on_pipe_def split: if_splits)
next
  case (DTested i t stopped)
  assume "dir_step B e g = Some g'" "dir_wf g"
  then show ?thesis using DTested dir_wf_tested by (auto simp: on_pipe_def split: if_splits)
next
  case (DPromote i)
  assume "dir_step B e g = Some g'" "dir_wf g"
  then show ?thesis using DPromote by (auto simp: on_pipe_def pipe_promote_def dir_wf_promote split: if_splits pipe_phase.splits)
next
  case (DRestart pol b)
  assume "dir_step B e g = Some g'" "dir_wf g"
  then show ?thesis using DRestart dir_wf_restart by (auto split: sum.splits)
qed (auto simp: on_pipe_def pipe_start_def pipe_reread_def pipe_end_def test_debit_def test_refund_def Let_def
    dir_wf_poke dir_wf_drop dir_wf_spot dir_wf_admin split: if_splits pipe_phase.splits prod.splits option.splits intro: dir_wf_register)

lemma dir_wf_run: "dir_run B es (g, log) = Some (g', log') \<Longrightarrow> dir_wf g \<Longrightarrow> dir_wf g'"
  by (induction es arbitrary: g log) (auto split: option.splits intro: dir_wf_step)

lemma dir_wf_new: "dir_New pol self b now index peers leads spend = Inr g \<Longrightarrow> st_file index = Absent \<Longrightarrow> dir_wf g"
  by (auto simp: dir_New_def dir_wf_def split: sum.splits intro: store_all_open)

section \<open>Properties\<close>


lemma demo_directory_new:
  "dir_New demo_policy ''self'' \<lparr>ld_balances = [(''prov'', bal)], ld_store = no_file\<rparr> 0 no_file no_file no_file no_file
      = Inr (demo_directory bal)"
  by (simp add: demo_directory_def dir_New_def openJSONStore_def openSpendJournal_def open_file_def no_file_def)


text \<open>
  The histogram counts providers. In every reachable directory, the number that \<^verbatim>\<open>list_categories\<close> reports
  for a tag is the number of live listings that carry it.
\<close>

lemma categories_count_listings:
  assumes "dir_New pol self b now index peers leads spend = Inr g" "st_file index = Absent"
    and "dir_run B es (g, []) = Some (g', log)"
  shows "gint (list_categories g') t =
    int (card {uid. \<exists>l. e_Live (entry_of g' uid) = Some l \<and> t \<in> set (l_tags l)})"
proof -
  let ?m = "js_all (rg_index g')" and ?P = "\<lambda>ue :: string \<times> Entry. case e_Live (snd ue) of None \<Rightarrow> False | Some l \<Rightarrow> t \<in> set (l_tags l)"
  have wf: "dir_wf g'" by (rule dir_wf_run [OF assms(3) dir_wf_new [OF assms(1,2)]])
  then have ok: "gmap_ok ?m" using store_all_ok by (auto simp: dir_wf_def js_ok_def js_all_def)
  have "entry_wf e" if "(uid, e) \<in> set ?m" for uid e
    using that wf gmap_ok_mem [OF ok] by (auto simp: dir_wf_def store_all_def js_all_def)
  then have "distinct (l_tags l)" if "ue \<in> set ?m" "e_Live (snd ue) = Some l" for ue l
    using that by (cases ue) (auto simp: entry_wf_def listing_wf_def described_def tags_wf_def)
  then have "gint (list_categories g') t = int (length (filter ?P ?m))" by (intro categories_count) blast
  also have "length (filter ?P ?m) = card (fst ` set (filter ?P ?m))"
    using gmap_ok_filter [OF ok, of ?P] distinct_card [of "map fst (filter ?P ?m)"] by (simp add: gmap_ok_def)
  also have "fst ` set (filter ?P ?m) = {uid. \<exists>e. map_of ?m uid = Some e \<and> ?P (uid, e)}"
    by (auto simp: gmap_ok_mem [OF ok] image_iff)
  also have "\<dots> = {uid. \<exists>l. e_Live (entry_of g' uid) = Some l \<and> t \<in> set (l_tags l)}"
    by (rule Collect_cong) (auto simp: entry_of_def js_val_def js_all_def no_entry_def split: option.splits)
  finally show ?thesis .
qed

lemma categories_count_listings_witness:
  "case dir_run ledger_billing first_listing (demo_directory 350, []) of None \<Rightarrow> False
   | Some (g, log) \<Rightarrow> gint (list_categories g) ''search'' = 1 \<and>
       card {uid. \<exists>l. e_Live (entry_of g uid) = Some l \<and> ''search'' \<in> set (l_tags l)} = 1"
proof -
  have r: "case dir_run ledger_billing first_listing (demo_directory 350, []) of None \<Rightarrow> False
    | Some (g, log) \<Rightarrow> gint (list_categories g) ''search'' = 1" by code_simp
  then obtain g log where g: "dir_run ledger_billing first_listing (demo_directory 350, []) = Some (g, log)"
    by (auto split: option.splits)
  from categories_count_listings [OF demo_directory_new _ g, of "''search''"] r g show ?thesis
    by (auto simp: no_file_def)
qed

end
