(* ===== verification/Federation.thy ===== *)
theory Federation
  imports Snapshot DirClient Wellformed
begin

text \<open>
  Federation, \<^verbatim>\<open>directory/federation.go\<close>: buying and verifying a peer's snapshot, seeding leads from it, inviting
  them, and the tools \<^verbatim>\<open>verify_peer\<close> and \<^verbatim>\<open>pursue_lead\<close> of \<^verbatim>\<open>directory/admin.go\<close>. A paid call runs in an
  environment whose world is the directory itself, so that other operations can come in between; what
  comes before and after it are separate definitions.
\<close>

section \<open>Verifying a peer\<close>

definition peerSnapshotBudgetFactor :: int64 where "peerSnapshotBudgetFactor = 10"

text \<open>Before the purchase: the trusted key and the budget.\<close>

definition verify_peer_ask :: "string \<Rightarrow> 'b registry \<Rightarrow> string + string \<times> int64" where
  "verify_peer_ask peerUID g = (case js_get peerUID (rg_peers g) of
     None \<Rightarrow> Inl ''not a curated peer; add_peer first''
   | Some p \<Rightarrow> Inr (p_PubKey p, mul64 (py_snapshotPrice (rg_policy g)) peerSnapshotBudgetFactor))"

text \<open>One listing of the snapshot: the checks, and the write.\<close>

definition seed_look :: "string \<Rightarrow> string \<Rightarrow> SnapshotListing \<Rightarrow> 'b registry \<Rightarrow> bool" where
  "seed_look selfUID peerUID l g \<longleftrightarrow>
     \<not> (length (sn_UID l) \<noteq> 64 \<or> sn_UID l = selfUID \<or> sn_UID l = peerUID) \<and>
     js_get (sn_UID l) (rg_index g) = None \<and> js_get (sn_UID l) (rg_leads g) = None"

definition new_lead :: "string \<Rightarrow> int64 \<Rightarrow> SnapshotListing \<Rightarrow> Lead" where
  "new_lead peerUID now l =
     \<lparr>ld_ProviderUID = sn_UID l, ld_PeerUID = peerUID, ld_Description = sn_Description l, ld_Tags = sn_Tags l,
      ld_State = LeadNew, ld_Note = '''', ld_CreatedAt = now, ld_UpdatedAt = now\<rparr>"

definition put_lead :: "string \<Rightarrow> Lead \<Rightarrow> 'b registry \<Rightarrow> io_error option \<times> 'b registry" where
  "put_lead uid l g = (case js_put uid l (rg_leads g) of (err, s) \<Rightarrow> (err, g\<lparr>rg_leads := s\<rparr>))"

fun seed_leads :: "string \<Rightarrow> string \<Rightarrow> int64 \<Rightarrow> SnapshotListing list \<Rightarrow> nat \<Rightarrow> 'b registry \<Rightarrow> (nat \<times> bool) \<times> 'b registry" where
  "seed_leads selfUID peerUID now [] n g = ((n, True), g)"
| "seed_leads selfUID peerUID now (l # ls) n g =
     (if seed_look selfUID peerUID l g
      then (case put_lead (sn_UID l) (new_lead peerUID now l) g of
          (Some _, g) \<Rightarrow> ((n, False), g)
        | (None, g) \<Rightarrow> seed_leads selfUID peerUID now ls (n + 1) g)
      else seed_leads selfUID peerUID now ls n g)"

text \<open>The stamp goes through \<^verbatim>\<open>mutate\<close>, whose error is only logged.\<close>

definition stamp_peer :: "string \<Rightarrow> int64 \<Rightarrow> 'b registry \<Rightarrow> 'b registry" where
  "stamp_peer peerUID now g =
     g\<lparr>rg_peers := snd (js_mutate no_peer peerUID (\<lambda>p. Inr (p\<lparr>p_LastVerifiedAt := now\<rparr>) :: unit + Peer) (rg_peers g))\<rparr>"

text \<open>After the purchase. \<open>decode\<close> reads a signed snapshot from the text of a result.\<close>

definition verify_peer_finish :: "ed25519 \<Rightarrow> snapshot_codec \<Rightarrow> (string \<Rightarrow> SignedSnapshot option) \<Rightarrow> string \<Rightarrow> string \<Rightarrow>
    callResult \<Rightarrow> string option \<Rightarrow> 'b registry \<Rightarrow> (nat \<times> string option) \<times> 'b registry" where
  "verify_peer_finish E C decode peerUID pubKey cr err g =
     (case err of
        Some e \<Rightarrow> ((0, Some (''snapshot purchase: '' @ e)), g)
      | None \<Rightarrow>
          if (case cl_res cr of None \<Rightarrow> True | Some r \<Rightarrow> cr_isError r)
          then ((0, Some (''snapshot refused: '' @ resultText (cl_res cr))), g)
          else (case decode (resultJSON (cl_res cr)) of
            None \<Rightarrow> ((0, Some ''snapshot malformed''), g)
          | Some ss \<Rightarrow> (case VerifySnapshot E C ss pubKey of
              Inl e \<Rightarrow> ((0, Some e), g)
            | Inr snap \<Rightarrow>
                let now = unix (rg_now g) in
                (case seed_leads (rg_self g) peerUID now (snap_Listings snap) 0 g of
                   ((n, False), g) \<Rightarrow> ((n, Some ''store''), g)
                 | ((n, True), g) \<Rightarrow> ((n, None), stamp_peer peerUID now g)))))"

definition runPeerVerification :: "'b registry pay_env \<Rightarrow> (string \<Rightarrow> PaymentRequired option) \<Rightarrow> ed25519 \<Rightarrow> snapshot_codec \<Rightarrow>
    (string \<Rightarrow> SignedSnapshot option) \<Rightarrow> string \<Rightarrow> string \<Rightarrow> 'b registry \<Rightarrow> (nat \<times> string option) \<times> 'b registry" where
  "runPeerVerification env unmarshal E C decode key peerUID g =
     (case verify_peer_ask peerUID g of
        Inl e \<Rightarrow> ((0, Some e), g)
      | Inr (pubKey, budget) \<Rightarrow>
          (case paidCall env unmarshal key budget False g of
             (cr, err, _, g) \<Rightarrow> verify_peer_finish E C decode peerUID pubKey cr err g))"

section \<open>Pursuing a lead\<close>

definition setLeadState :: "string \<Rightarrow> LeadState \<Rightarrow> string \<Rightarrow> 'b registry \<Rightarrow> Lead \<times> 'b registry" where
  "setLeadState uid st note g =
     (let l = js_val no_lead (rg_leads g) uid in
      if ld_ProviderUID l = '''' then (no_lead, g)
      else
        let l1 = (if ld_State l \<noteq> LeadConverted then l\<lparr>ld_State := st\<rparr> else l);
            l2 = (if note \<noteq> '''' then l1\<lparr>ld_Note := note\<rparr> else l1);
            l3 = l2\<lparr>ld_UpdatedAt := unix (rg_now g)\<rparr>
        in (l3, snd (put_lead uid l3 g)))"

record InviteOut =
  io_accepted :: bool
  io_note :: string

text \<open>What follows the paid call of \<^verbatim>\<open>listing_invite\<close>, for which the budget is zero.\<close>

definition invite_finish :: "(string \<Rightarrow> InviteOut option) \<Rightarrow> string \<Rightarrow> callResult \<Rightarrow> string option \<Rightarrow> 'b registry \<Rightarrow> string option \<times> 'b registry" where
  "invite_finish decode uid cr err g =
     (case err of
        Some e \<Rightarrow> (Some e, g)
      | None \<Rightarrow>
          if (case cl_res cr of None \<Rightarrow> True | Some r \<Rightarrow> cr_isError r)
          then (Some (''invite refused: '' @ resultText (cl_res cr)), g)
          else (case decode (resultJSON (cl_res cr)) of
            None \<Rightarrow> (Some ''invite reply malformed'', g)
          | Some r \<Rightarrow> (None, if io_accepted r then g else snd (setLeadState uid LeadInvited (''declined: '' @ io_note r) g))))"

definition sendListingInvite :: "'b registry pay_env \<Rightarrow> (string \<Rightarrow> PaymentRequired option) \<Rightarrow> (string \<Rightarrow> InviteOut option) \<Rightarrow>
    string \<Rightarrow> string \<Rightarrow> 'b registry \<Rightarrow> string option \<times> 'b registry" where
  "sendListingInvite env unmarshal decode key uid g =
     (case paidCall env unmarshal key 0 False g of (cr, err, _, g) \<Rightarrow> invite_finish decode uid cr err g)"

text \<open>\<open>intro\<close> is the configured introducer, if any; \<open>lead\<close> the copy taken before the call.\<close>

definition pursue_finish :: "(string \<Rightarrow> string \<Rightarrow> string option) option \<Rightarrow> string \<Rightarrow> Lead \<Rightarrow> string option \<Rightarrow> 'b registry \<Rightarrow>
    (string + Lead) \<times> 'b registry" where
  "pursue_finish intro uid lead inviteErr g =
     (case inviteErr of
        None \<Rightarrow> (case setLeadState uid LeadInvited '''' g of (l, g) \<Rightarrow> (Inr l, g))
      | Some e \<Rightarrow> (case intro of
          None \<Rightarrow> (Inl (''invite failed and no introducer is configured: '' @ e), g)
        | Some ask \<Rightarrow> (case ask (ld_PeerUID lead) uid of
            Some e2 \<Rightarrow> (Inl (''invite failed ('' @ e @ ''); introduction failed: '' @ e2), g)
          | None \<Rightarrow> (case setLeadState uid LeadPursuing ''awaiting key exchange via peer'' g of (l, g) \<Rightarrow> (Inr l, g)))))"

definition pursueLead :: "'b registry pay_env \<Rightarrow> (string \<Rightarrow> PaymentRequired option) \<Rightarrow> (string \<Rightarrow> InviteOut option) \<Rightarrow>
    (string \<Rightarrow> string \<Rightarrow> string option) option \<Rightarrow> string \<Rightarrow> string \<Rightarrow> 'b registry \<Rightarrow> (string + Lead) \<times> 'b registry" where
  "pursueLead env unmarshal decode intro key uid g =
     (case js_get uid (rg_leads g) of
        None \<Rightarrow> (Inl ''no lead for that uid'', g)
      | Some lead \<Rightarrow>
          if ld_State lead = LeadConverted then (Inr lead, g)
          else (case sendListingInvite env unmarshal decode key uid g of (e, g) \<Rightarrow> pursue_finish intro uid lead e g))"

text \<open>\<^verbatim>\<open>resumeLeadAfterKX\<close>: whether the goroutine starts, and what it does after its invitation.\<close>

definition resume_starts :: "string \<Rightarrow> 'b registry \<Rightarrow> bool" where
  "resume_starts uid g \<longleftrightarrow> (case js_get uid (rg_leads g) of
     None \<Rightarrow> False
   | Some l \<Rightarrow> ld_State l = LeadPursuing \<and> \<not> rg_closed g)"

definition resume_finish :: "string \<Rightarrow> string option \<Rightarrow> 'b registry \<Rightarrow> 'b registry" where
  "resume_finish uid inviteErr g = snd (case inviteErr of
     Some e \<Rightarrow> setLeadState uid LeadPursuing (''invite after KX failed: '' @ e) g
   | None \<Rightarrow> setLeadState uid LeadInvited '''' g)"

definition resumeLeadAfterKX :: "'b registry pay_env \<Rightarrow> (string \<Rightarrow> PaymentRequired option) \<Rightarrow> (string \<Rightarrow> InviteOut option) \<Rightarrow>
    string \<Rightarrow> string \<Rightarrow> 'b registry \<Rightarrow> 'b registry" where
  "resumeLeadAfterKX env unmarshal decode key uid g =
     (if resume_starts uid g
      then (case sendListingInvite env unmarshal decode key uid g of (e, g) \<Rightarrow> resume_finish uid e g)
      else g)"

section \<open>The admin tools\<close>

text \<open>\<open>admin_done\<close> is the check of \<^verbatim>\<open>adminTool\<close> and the line in the trail around a tool's body.\<close>

definition admin_done :: "bool \<Rightarrow> string \<Rightarrow> string \<Rightarrow> string \<Rightarrow> ('b registry \<Rightarrow> (string + 'r) \<times> 'b registry) \<Rightarrow>
    'b registry \<times> audit_entry list \<Rightarrow> (string + 'r) \<times> 'b registry \<times> audit_entry list" where
  "admin_done writable peer action uid body s = (case s of (g, log) \<Rightarrow>
     if \<not> isAdmin g peer then (Inl ''admin only'', g, log)
     else (case body g of
         (Inl e, g') \<Rightarrow> (Inl e, g', log)
       | (Inr r, g') \<Rightarrow> (Inr r, g', alog_append writable (rg_now g') peer (action, [uid]) log)))"

definition verify_peer :: "'b registry pay_env \<Rightarrow> (string \<Rightarrow> PaymentRequired option) \<Rightarrow> ed25519 \<Rightarrow> snapshot_codec \<Rightarrow>
    (string \<Rightarrow> SignedSnapshot option) \<Rightarrow> string \<Rightarrow> bool \<Rightarrow> string \<Rightarrow> string \<Rightarrow> 'b registry \<times> audit_entry list \<Rightarrow>
    (string + nat) \<times> 'b registry \<times> audit_entry list" where
  "verify_peer env unmarshal E C decode key writable peer uid =
     admin_done writable peer ''verify_peer'' uid
       (\<lambda>g. case runPeerVerification env unmarshal E C decode key uid g of
          ((n, None), g) \<Rightarrow> (Inr n, g) | ((_, Some e), g) \<Rightarrow> (Inl e, g))"

definition pursue_lead :: "'b registry pay_env \<Rightarrow> (string \<Rightarrow> PaymentRequired option) \<Rightarrow> (string \<Rightarrow> InviteOut option) \<Rightarrow>
    (string \<Rightarrow> string \<Rightarrow> string option) option \<Rightarrow> string \<Rightarrow> bool \<Rightarrow> string \<Rightarrow> string \<Rightarrow> 'b registry \<times> audit_entry list \<Rightarrow>
    (string + Lead) \<times> 'b registry \<times> audit_entry list" where
  "pursue_lead env unmarshal decode intro key writable peer uid =
     admin_done writable peer ''pursue_lead'' uid (pursueLead env unmarshal decode intro key uid)"

section \<open>Interleavings\<close>

text \<open>The writes of the federation as steps beside those of the directory. A seed was checked earlier, possibly
  against another state; its uid has 64 bytes.\<close>

datatype 'b fed_event =
    FDir "'b dir_event"
  | FSeed string int64 SnapshotListing
  | FStamp string int64
  | FState string LeadState string

fun fed_step :: "'b Billing \<Rightarrow> 'b fed_event \<Rightarrow> 'b registry \<Rightarrow> 'b registry option" where
  "fed_step B (FDir e) g = dir_step B e g"
| "fed_step B (FSeed peerUID now l) g =
     (if length (sn_UID l) = 64 then Some (snd (put_lead (sn_UID l) (new_lead peerUID now l) g)) else None)"
| "fed_step B (FStamp peerUID now) g = Some (stamp_peer peerUID now g)"
| "fed_step B (FState uid st note) g = Some (snd (setLeadState uid st note g))"

fun fed_run :: "'b Billing \<Rightarrow> 'b fed_event list \<Rightarrow> 'b registry \<Rightarrow> 'b registry option" where
  "fed_run B [] g = Some g"
| "fed_run B (e # es) g = (case fed_step B e g of None \<Rightarrow> None | Some g' \<Rightarrow> fed_run B es g')"

text \<open>Leads are filed under the uid of their provider.\<close>

definition lead_wf :: "string \<Rightarrow> Lead \<Rightarrow> bool" where
  "lead_wf uid l \<longleftrightarrow> ld_ProviderUID l = uid \<and> length uid = 64"

definition leads_wf :: "'b registry \<Rightarrow> bool" where
  "leads_wf g \<longleftrightarrow> store_all lead_wf (rg_leads g)"

lemma put_lead_simps [simp]:
  "rg_leads (snd (put_lead uid l g)) = snd (js_put uid l (rg_leads g))"
  "rg_index (snd (put_lead uid l g)) = rg_index g" "rg_peers (snd (put_lead uid l g)) = rg_peers g"
  "rg_billing (snd (put_lead uid l g)) = rg_billing g" "rg_now (snd (put_lead uid l g)) = rg_now g"
  "rg_self (snd (put_lead uid l g)) = rg_self g" "rg_spend (snd (put_lead uid l g)) = rg_spend g"
  "rg_pipes (snd (put_lead uid l g)) = rg_pipes g" "rg_inflight (snd (put_lead uid l g)) = rg_inflight g"
  by (simp_all add: put_lead_def split_beta)

lemma lead_held: "store_all lead_wf s \<Longrightarrow> ld_ProviderUID (js_val no_lead s uid) \<noteq> '''' \<Longrightarrow> lead_wf uid (js_val no_lead s uid)"
  by (auto simp: js_val_def store_all_def no_lead_def split: option.splits)

lemma lead_update:
  assumes "store_all lead_wf s" "ld_ProviderUID (js_val no_lead s uid) \<noteq> ''''"
    "ld_ProviderUID l = ld_ProviderUID (js_val no_lead s uid)"
  shows "store_all lead_wf (snd (js_put uid l s))"
  using lead_held [OF assms(1,2)] assms(3) by (intro store_all_ops(1) [OF assms(1)]) (simp add: lead_wf_def)

lemma leads_wf_state: "leads_wf g \<Longrightarrow> leads_wf (snd (setLeadState uid st note g))"
  using lead_update [of "rg_leads g" uid] by (simp add: setLeadState_def Let_def leads_wf_def)

lemma leads_wf_convert: "leads_wf g \<Longrightarrow> leads_wf (convertLead uid g)"
  using lead_update [of "rg_leads g" uid] by (simp add: convertLead_def Let_def leads_wf_def)

lemma leads_wf_seed: "leads_wf g \<Longrightarrow> length (sn_UID l) = 64 \<Longrightarrow> leads_wf (snd (put_lead (sn_UID l) (new_lead peerUID now l) g))"
  by (simp add: leads_wf_def store_all_ops(1) lead_wf_def new_lead_def)

lemma leads_wf_stamp: "leads_wf (stamp_peer peerUID now g) = leads_wf g"
  by (simp add: leads_wf_def stamp_peer_def)

lemma leads_frame [simp]:
  "rg_leads (snd (put_entry uid e g)) = rg_leads g" "rg_leads (spawnPipeline uid g) = rg_leads g"
  "rg_leads (set_pipe i ph g) = rg_leads g" "rg_leads (expire_delete uid g) = rg_leads g"
  "rg_leads (expire_clear uid now g) = rg_leads g" "rg_leads (recrawl_commit uid cat g) = rg_leads g"
  "rg_leads (snd (promote uid g)) = rg_leads g" "rg_leads (park_failed uid msg g) = rg_leads g"
  "rg_leads (dir_Close g) = rg_leads g" "rg_leads (SetSelfUID uid g) = rg_leads g"
  "rg_leads (snd (add_peer uid pub g)) = rg_leads g" "rg_leads (snd (remove_peer uid g)) = rg_leads g"
  "rg_leads (snd (unlist_clear uid g)) = rg_leads g" "rg_leads (snd (flag_entry uid msg g)) = rg_leads g"
proof -
  show put: "rg_leads (snd (put_entry uid e g)) = rg_leads g" for uid e and g :: "'a registry"
    by (simp add: put_entry_def split_beta)
  show "rg_leads (expire_clear uid now g) = rg_leads g" "rg_leads (recrawl_commit uid cat g) = rg_leads g"
    "rg_leads (snd (promote uid g)) = rg_leads g" "rg_leads (park_failed uid msg g) = rg_leads g"
    "rg_leads (snd (unlist_clear uid g)) = rg_leads g" "rg_leads (snd (flag_entry uid msg g)) = rg_leads g"
    by (simp_all add: expire_clear_def recrawl_commit_def promote_def park_failed_def unlist_clear_def flag_entry_def Let_def put split_beta
        split: option.splits)
qed (simp_all add: spawnPipeline_def set_pipe_def expire_delete_def dir_Close_def SetSelfUID_def add_peer_def remove_peer_def
    Let_def split_beta)

lemma leads_ops [simp]:
  "rg_leads (fst (pokeFunding B uid g)) = rg_leads g" "rg_leads (snd (spotCheck B key uid g)) = rg_leads g"
  "rg_leads (snd (register_commit uid i g)) = rg_leads g" "rg_leads (snd (approveRegistration uid g)) = rg_leads g"
  "rg_leads (snd (rejectRegistration uid reason g)) = rg_leads g"
  by (simp_all add: pokeFunding_def spotCheck_def register_commit_def approveRegistration_def rejectRegistration_def Let_def split_beta
      split: option.splits)

lemma leads_pipes:
  "pipe_start i g = Some g' \<Longrightarrow> rg_leads g' = rg_leads g" "pipe_reread i g = Some g' \<Longrightarrow> rg_leads g' = rg_leads g"
  "pipe_end i g = Some g' \<Longrightarrow> rg_leads g' = rg_leads g" "pipe_promote i g = Some g' \<Longrightarrow> rg_leads g' = rg_leads g"
  "pipe_crawled i res stopped key g = Some g' \<Longrightarrow> rg_leads g' = rg_leads g"
  "pipe_tested i t stopped g = Some g' \<Longrightarrow> rg_leads g' = rg_leads g"
  "test_debit B i n g = Some g' \<Longrightarrow> rg_leads g' = rg_leads g" "test_refund B i g = Some g' \<Longrightarrow> rg_leads g' = rg_leads g"
  by (auto simp: pipe_start_def pipe_reread_def pipe_end_def pipe_promote_def pipe_crawled_def pipe_tested_def test_debit_def
      test_refund_def Let_def split_beta split: pipe_phase.splits option.splits sum.splits if_splits)

lemma leads_wf_dir: "dir_step B e g = Some g' \<Longrightarrow> leads_wf g \<Longrightarrow> leads_wf g'"
proof (cases e)
  case (DRestart pol b)
  assume "dir_step B e g = Some g'" "leads_wf g"
  then show ?thesis using DRestart by (auto simp: dir_restart_def dir_New_def leads_wf_def split: sum.splits)
next
  case (DLead uid)
  assume "dir_step B e g = Some g'" "leads_wf g"
  then show ?thesis using DLead leads_wf_convert by auto
qed (auto simp: on_pipe_def leads_wf_def dest: leads_pipes split: if_splits)

lemma leads_wf_step: "fed_step B e g = Some g' \<Longrightarrow> leads_wf g \<Longrightarrow> leads_wf g'"
  by (cases e) (auto simp: leads_wf_state leads_wf_seed leads_wf_stamp dest: leads_wf_dir split: if_splits)

lemma leads_wf_run: "fed_run B es g = Some g' \<Longrightarrow> leads_wf g \<Longrightarrow> leads_wf g'"
  by (induction es arbitrary: g) (auto split: option.splits intro: leads_wf_step)

text \<open>The index, and what else the verification of providers rests on, stays out of it.\<close>

lemma fed_frame:
  "rg_index (stamp_peer peerUID now g) = rg_index g" "rg_index (snd (setLeadState uid st note g)) = rg_index g"
  "rg_billing (stamp_peer peerUID now g) = rg_billing g" "rg_billing (snd (setLeadState uid st note g)) = rg_billing g"
  "rg_leads (stamp_peer peerUID now g) = rg_leads g"
  by (simp_all add: stamp_peer_def setLeadState_def Let_def)

lemma dir_wf_fed_step: "fed_step B e g = Some g' \<Longrightarrow> dir_wf g \<Longrightarrow> dir_wf g'"
  by (cases e) (auto simp: fed_frame dir_wf_def intro: dir_wf_step [unfolded dir_wf_def] split: if_splits)

lemma dir_wf_fed: "fed_run B es g = Some g' \<Longrightarrow> dir_wf g \<Longrightarrow> dir_wf g'"
  by (induction es arbitrary: g) (auto split: option.splits intro: dir_wf_fed_step)

section \<open>Seeding\<close>

definition seeded :: "string \<Rightarrow> string \<Rightarrow> int64 \<Rightarrow> SnapshotListing list \<Rightarrow> 'b registry \<Rightarrow> string \<Rightarrow> Lead option" where
  "seeded selfUID peerUID now ls g uid =
     (case filter (\<lambda>l. sn_UID l = uid \<and> seed_look selfUID peerUID l g) ls of
        [] \<Rightarrow> js_get uid (rg_leads g) | l # _ \<Rightarrow> Some (new_lead peerUID now l))"

lemma get_put_lead [simp]:
  "js_get uid (snd (js_put k l s)) = (if uid = k then Some l else js_get uid s)"
  by (simp add: js_get_def)

lemma seed_look_put: "sn_UID l \<noteq> uid \<Longrightarrow> seed_look selfUID peerUID l (snd (put_lead uid x g)) = seed_look selfUID peerUID l g"
  by (simp add: seed_look_def)

lemma put_lead_reliable:
  "reliable (js_file (rg_leads g)) \<Longrightarrow> fst (put_lead uid l g) = None \<and> reliable (js_file (rg_leads (snd (put_lead uid l g))))"
  by (simp add: put_lead_def js_put_def split_beta)

lemma seed_leads_exact:
  assumes "distinct (map sn_UID ls)" "reliable (js_file (rg_leads g))"
  shows "fst (seed_leads selfUID peerUID now ls n g) = (n + length (filter (\<lambda>l. seed_look selfUID peerUID l g) ls), True) \<and>
    (\<forall>uid. js_get uid (rg_leads (snd (seed_leads selfUID peerUID now ls n g))) = seeded selfUID peerUID now ls g uid)"
  using assms
proof (induction ls arbitrary: n g)
  case Nil
  then show ?case by (simp add: seeded_def)
next
  case (Cons l ls)
  show ?case
  proof (cases "seed_look selfUID peerUID l g")
    case True
    let ?g = "snd (put_lead (sn_UID l) (new_lead peerUID now l) g)"
    have put: "fst (put_lead (sn_UID l) (new_lead peerUID now l) g) = None" and rel: "reliable (js_file (rg_leads ?g))"
      using put_lead_reliable [OF Cons.prems(2), of "sn_UID l" "new_lead peerUID now l"] by simp_all
    have keep: "seed_look selfUID peerUID x ?g = seed_look selfUID peerUID x g" if "x \<in> set ls" for x
      using that Cons.prems(1) by (intro seed_look_put) (auto simp: image_iff)
    have "filter (\<lambda>x. seed_look selfUID peerUID x ?g) ls = filter (\<lambda>x. seed_look selfUID peerUID x g) ls"
      using keep by (auto intro: filter_cong)
    moreover have "seeded selfUID peerUID now ls ?g uid = seeded selfUID peerUID now (l # ls) g uid" for uid
    proof -
      have "filter (\<lambda>x. sn_UID x = uid \<and> seed_look selfUID peerUID x ?g) ls = filter (\<lambda>x. sn_UID x = uid \<and> seed_look selfUID peerUID x g) ls"
        using keep by (auto intro: filter_cong)
      moreover have "filter (\<lambda>x. sn_UID x = sn_UID l \<and> seed_look selfUID peerUID x g) ls = []"
        using Cons.prems(1) by (auto simp: filter_empty_conv image_iff)
      ultimately show ?thesis using True by (auto simp: seeded_def split: list.splits)
    qed
    ultimately show ?thesis using Cons.IH [OF _ rel, of "n + 1"] Cons.prems(1) True put by (simp add: split_beta)
  next
    case False
    then have "seeded selfUID peerUID now (l # ls) g = seeded selfUID peerUID now ls g" by (simp add: seeded_def fun_eq_iff)
    then show ?thesis using Cons.IH [OF _ Cons.prems(2), of n] Cons.prems(1) False by simp
  qed
qed

lemma unique_by_key:
  assumes "distinct (map key xs)" "set xs = {f u l | u l. live u = Some l}" "\<And>u l. key (f u l) = u"
  shows "filter (\<lambda>x. key x = v) xs = (case live v of Some l \<Rightarrow> [f v l] | None \<Rightarrow> [])"
proof -
  let ?ys = "filter (\<lambda>x. key x = v) xs"
  have d: "distinct (map key ?ys)" by (rule distinct_map_filter [OF assms(1)])
  have k: "\<forall>y \<in> set ?ys. key y = v" by simp
  have s: "set ?ys = (case live v of Some l \<Rightarrow> {f v l} | None \<Rightarrow> {})"
    using assms(2,3) by (auto split: option.splits)
  show ?thesis
  proof (cases ?ys)
    case Nil
    then show ?thesis using s by (simp split: option.splits)
  next
    case (Cons y zs)
    have "distinct (map key (y # zs))" "\<forall>x \<in> set (y # zs). key x = v" "set (y # zs) = (case live v of Some l \<Rightarrow> {f v l} | None \<Rightarrow> {})"
      using d k s unfolding Cons by blast+
    then have "zs = [] \<and> live v \<noteq> None \<and> y = f v (the (live v))" by (cases zs) (auto split: option.splits)
    then show ?thesis unfolding Cons by (auto split: option.splits)
  qed
qed

text \<open>Whatever fails, a lead that is new was unknown, and comes from one of the listings.\<close>

lemma seed_leads_frame:
  obtains s where "snd (seed_leads selfUID peerUID now ls n g) = g\<lparr>rg_leads := s\<rparr>"
proof -
  have "\<exists>s. snd (seed_leads selfUID peerUID now ls n g) = g\<lparr>rg_leads := s\<rparr>"
  proof (induction ls arbitrary: n g)
    case Nil
    show ?case by (rule exI [of _ "rg_leads g"]) simp
  next
    case (Cons l ls)
    have eq: "snd (put_lead (sn_UID l) (new_lead peerUID now l) g) = g\<lparr>rg_leads := snd (js_put (sn_UID l) (new_lead peerUID now l) (rg_leads g))\<rparr>"
      by (simp add: put_lead_def split_beta)
    obtain s where "snd (seed_leads selfUID peerUID now ls (n + 1) (snd (put_lead (sn_UID l) (new_lead peerUID now l) g))) =
        (snd (put_lead (sn_UID l) (new_lead peerUID now l) g))\<lparr>rg_leads := s\<rparr>" using Cons.IH by blast
    then show ?case using Cons.IH [of n g] eq by (auto simp: split_beta split: option.splits)
  qed
  then show ?thesis using that by blast
qed

lemma seed_leads_origin:
  assumes "js_get uid (rg_leads (snd (seed_leads selfUID peerUID now ls n g))) = Some l" "js_get uid (rg_leads g) \<noteq> Some l"
  shows "js_get uid (rg_leads g) = None \<and> js_get uid (rg_index g) = None \<and>
    (\<exists>sl \<in> set ls. sn_UID sl = uid \<and> l = new_lead peerUID now sl)"
  using assms
proof (induction ls arbitrary: n g)
  case (Cons x ls)
  show ?case
  proof (cases "seed_look selfUID peerUID x g")
    case True
    obtain e h where h: "put_lead (sn_UID x) (new_lead peerUID now x) g = (e, h)" by fastforce
    then have hs: "h = snd (put_lead (sn_UID x) (new_lead peerUID now x) g)" by simp
    have unknown: "js_get (sn_UID x) (rg_leads g) = None" "js_get (sn_UID x) (rg_index g) = None" using True by (simp_all add: seed_look_def)
    show ?thesis
    proof (cases "js_get uid (rg_leads h) = Some l")
      case True
      then show ?thesis using unknown Cons.prems(2) by (auto simp: hs split: if_splits)
    next
      case False
      then have "e = None" and r: "js_get uid (rg_leads (snd (seed_leads selfUID peerUID now ls (n + 1) h))) = Some l"
        using Cons.prems(1) True h by (auto split: option.splits)
      with Cons.IH [OF r False] show ?thesis by (auto simp: hs split: if_splits)
    qed
  next
    case False
    then show ?thesis using Cons by auto
  qed
qed simp

section \<open>Properties\<close>

text \<open>
  C34: Two directories exchange what they list. When a directory verifies a peer that it trusts under the key with which the peer signs,
  the call returned the snapshot that the peer built, and its own leads file can be written, then it learns exactly the peer's live
  providers that it did not know: each of them becomes a new lead with the description and the tags of the peer's
  listing, except itself, the peer, and uids that are not 64 bytes long; every other lead, and its own index, is as before.
\<close>

theorem peer_exchange:
  assumes "js_get peerUID (rg_peers g) = Some p" "p_PubKey p = PublicKey E sg" "key_pair E (sg_pub sg) (sg_priv sg)"
    and "js_ok (rg_index other)" "buildSnapshot E C sg other = Inr ss" "sc_unmarshal C (sgn_Payload ss) = Some (export other)"
    and "paidCall env unmarshal key (mul64 (py_snapshotPrice (rg_policy g)) 10) False g = (cr, None, tr, g1)"
    and "cl_res cr = Some r" "\<not> cr_isError r" "decode (resultJSON (Some r)) = Some ss" "reliable (js_file (rg_leads g1))"
    and "runPeerVerification env unmarshal E C decode key peerUID g = ((n, err), g2)"
  shows "err = None \<and> rg_index g2 = rg_index g1 \<and>
    js_get uid (rg_leads g2) = (case e_Live (entry_of other uid) of
       Some l \<Rightarrow> if length uid = 64 \<and> uid \<noteq> rg_self g1 \<and> uid \<noteq> peerUID \<and> js_get uid (rg_index g1) = None \<and> js_get uid (rg_leads g1) = None
         then Some (new_lead peerUID (unix (rg_now g1)) (snapshot_listing uid l)) else js_get uid (rg_leads g1)
     | None \<Rightarrow> js_get uid (rg_leads g1))"
proof -
  let ?ls = "snap_Listings (export other)" and ?now = "unix (rg_now g1)"
  obtain payload where payload: "ss = sign E sg payload" using assms(5) by (auto simp: buildSnapshot_def split: option.splits)
  have v: "VerifySnapshot E C ss (p_PubKey p) = Inr (export other)"
    unfolding payload assms(2) by (rule verify_own [OF assms(3)]) (use assms(6) in \<open>simp_all add: payload sign_def export_def Let_def\<close>)
  have d: "distinct (map sn_UID ?ls)" using live_uids_props(2) [OF assms(4)] by (simp add: export_listings(1) [OF assms(4)])
  note seeds = seed_leads_exact [OF d assms(11), of "rg_self g1" peerUID ?now 0]
  obtain k h where s: "seed_leads (rg_self g1) peerUID ?now ?ls 0 g1 = ((k, True), h)" using seeds by (metis prod.collapse)
  obtain ld where "snd (seed_leads (rg_self g1) peerUID ?now ?ls 0 g1) = g1\<lparr>rg_leads := ld\<rparr>" by (rule seed_leads_frame)
  then have h: "rg_index h = rg_index g1" using s by simp
  have "runPeerVerification env unmarshal E C decode key peerUID g = ((k, None), stamp_peer peerUID ?now h)"
    using assms(1,7-10) v s
    by (simp add: runPeerVerification_def verify_peer_ask_def verify_peer_finish_def peerSnapshotBudgetFactor_def Let_def)
  then have out: "err = None" "g2 = stamp_peer peerUID ?now h" using assms(12) by simp_all
  have "filter (\<lambda>x. sn_UID x = uid \<and> seed_look (rg_self g1) peerUID x g1) ?ls =
      (case e_Live (entry_of other uid) of
         Some l \<Rightarrow> if seed_look (rg_self g1) peerUID (snapshot_listing uid l) g1 then [snapshot_listing uid l] else [] | None \<Rightarrow> [])"
  proof -
    have "filter (\<lambda>x. sn_UID x = uid) ?ls = (case e_Live (entry_of other uid) of Some l \<Rightarrow> [snapshot_listing uid l] | None \<Rightarrow> [])"
      using d export_listings(2) [OF assms(4)] by (rule unique_by_key) (auto simp: snapshot_listing_def)
    then have "filter (\<lambda>x. seed_look (rg_self g1) peerUID x g1) (filter (\<lambda>x. sn_UID x = uid) ?ls) =
        filter (\<lambda>x. seed_look (rg_self g1) peerUID x g1) (case e_Live (entry_of other uid) of Some l \<Rightarrow> [snapshot_listing uid l] | None \<Rightarrow> [])"
      by (rule arg_cong)
    then show ?thesis by (simp add: conj_commute split: option.splits)
  qed
  then have "seeded (rg_self g1) peerUID ?now ?ls g1 uid = (case e_Live (entry_of other uid) of
       Some l \<Rightarrow> if length uid = 64 \<and> uid \<noteq> rg_self g1 \<and> uid \<noteq> peerUID \<and> js_get uid (rg_index g1) = None \<and> js_get uid (rg_leads g1) = None
         then Some (new_lead peerUID ?now (snapshot_listing uid l)) else js_get uid (rg_leads g1)
     | None \<Rightarrow> js_get uid (rg_leads g1))"
    by (auto simp: seeded_def seed_look_def snapshot_listing_def split: option.splits)
  then show ?thesis using out h seeds s by (simp add: fed_frame)
qed

text \<open>An environment in which every call succeeds with the text \<open>t\<close>, two uids, and a directory that lists one of them.\<close>

definition demo_env :: "string \<Rightarrow> 'w pay_env" where
  "demo_env t = \<lparr>pe_dial = \<lambda>w. (None, w), pe_call = \<lambda>_ w. (Inr \<lparr>cr_isError = False, cr_content = [TextContent t]\<rparr>, 0, w),
     pe_over = \<lambda>_. False, pe_wait = \<lambda>w. (None, w), pe_debit = \<lambda>_ w. (None, w), pe_record = \<lambda>_ w. (0, w),
     pe_pay = \<lambda>_ w. (None, False, w), pe_remove = \<lambda>_ w. w, pe_refund = \<lambda>_ w. w\<rparr>"

definition uid_a :: string where "uid_a = replicate 64 CHR ''a''"
definition uid_b :: string where "uid_b = replicate 64 CHR ''b''"

definition demo_other :: "unit registry" where
  "demo_other = demo_index\<lparr>rg_index := \<lparr>js_m = [(uid_a, no_entry\<lparr>e_Live := Some (demo_listing [''ai''])\<rparr>)], js_file = no_file\<rparr>\<rparr>"

definition demo_trusting :: "unit registry" where
  "demo_trusting = demo_index\<lparr>rg_peers := \<lparr>js_m = [(uid_b, \<lparr>p_PubKey = hex_of_bytes (replicate 32 9), p_AddedAt = 0, p_LastVerifiedAt = 0\<rparr>)],
     js_file = no_file\<rparr>\<rparr>"

lemma demo_paid:
  "paidCall (demo_env t) (\<lambda>_. None) key m escrow g =
     (\<lparr>cl_res = Some \<lparr>cr_isError = False, cr_content = [TextContent t]\<rparr>, cl_paid = 0, cl_latency = 0\<rparr>, None, [PCalled key], g)"
  by (simp add: paidCall_def demo_env_def paid_loop.simps ParsePaymentRequired_def no_result_def quot64_def wrap64_def)

lemma peer_exchange_witness:
  "\<exists>ss g2. buildSnapshot demo_ed (demo_snap_codec (export demo_other)) (demo_signer 9) demo_other = Inr ss \<and>
     snd (runPeerVerification (demo_env ''snap'') (\<lambda>_. None) demo_ed (demo_snap_codec (export demo_other)) (\<lambda>t. if t = ''snap'' then Some ss else None)
       ''key'' uid_b demo_trusting) = g2 \<and>
     js_get uid_a (rg_leads g2) = Some (new_lead uid_b 0 (snapshot_listing uid_a (demo_listing [''ai''])))"
proof -
  let ?C = "demo_snap_codec (export demo_other)"
  let ?ss = "sign demo_ed (demo_signer 9) [1]"
  let ?dec = "\<lambda>t. if t = ''snap'' then Some ?ss else None"
  obtain n err g2 where run: "runPeerVerification (demo_env ''snap'') (\<lambda>_. None) demo_ed ?C ?dec ''key'' uid_b demo_trusting = ((n, err), g2)"
    by (metis prod.collapse)
  have ss: "buildSnapshot demo_ed ?C (demo_signer 9) demo_other = Inr ?ss" by (simp add: buildSnapshot_def demo_snap_codec_def)
  have ok: "js_ok (rg_index demo_other)" by (simp add: js_ok_def gmap_ok_def demo_other_def)
  have un: "sc_unmarshal ?C (sgn_Payload ?ss) = Some (export demo_other)" by (simp add: demo_snap_codec_def sign_def)
  have peer: "js_get uid_b (rg_peers demo_trusting) = Some \<lparr>p_PubKey = hex_of_bytes (replicate 32 9), p_AddedAt = 0, p_LastVerifiedAt = 0\<rparr>"
    by (simp add: demo_trusting_def js_get_def)
  have key: "p_PubKey \<lparr>p_PubKey = hex_of_bytes (replicate 32 9), p_AddedAt = 0, p_LastVerifiedAt = 0\<rparr> = PublicKey demo_ed (demo_signer 9)"
    by (simp add: demo_signer_def)
  have dec: "?dec (resultJSON (Some \<lparr>cr_isError = False, cr_content = [TextContent ''snap'']\<rparr>)) = Some ?ss" by (simp add: resultJSON_def)
  have rel: "reliable (js_file (rg_leads demo_trusting))" by (simp add: demo_trusting_def demo_index_def no_file_def)
  have live: "e_Live (entry_of demo_other uid_a) = Some (demo_listing [''ai''])"
    by (simp add: demo_other_def entry_of_def js_val_def)
  have self: "uid_a \<noteq> rg_self demo_trusting" "uid_a \<noteq> uid_b" "length uid_a = 64" by code_simp+
  have unknown: "js_get uid_a (rg_index demo_trusting) = None" "js_get uid_a (rg_leads demo_trusting) = None" by code_simp+
  have "js_get uid_a (rg_leads g2) = Some (new_lead uid_b (unix (rg_now demo_trusting)) (snapshot_listing uid_a (demo_listing [''ai''])))"
    using peer_exchange [where uid = uid_a, OF peer key demo_pair ok ss un demo_paid _ _ _ rel run] dec live self unknown
    by simp
  moreover have "unix (rg_now demo_trusting) = 0" by (simp add: demo_trusting_def demo_index_def unix_def)
  ultimately show ?thesis using ss run by (intro exI [of _ ?ss] exI [of _ g2]) simp
qed



text \<open>
  Leads are kept under their own uid. From an empty data directory, through any interleaving of the directory's steps with
  seeding, inviting and converting leads, crashes and restarts included, every lead is filed under the uid, of 64 bytes, of the
  provider that it names, and the registrations and listings stay well typed.
\<close>

lemma leads_filed:
  assumes "dir_New pol self b now index peers leads spend = Inr g" "st_file index = Absent" "st_file leads = Absent"
    and "fed_run B es g = Some g'"
  shows "(js_get uid (rg_leads g') = Some l \<longrightarrow> ld_ProviderUID l = uid \<and> length uid = 64) \<and>
    (js_get uid (rg_index g') = Some e \<longrightarrow> entry_wf e)"
proof -
  have "leads_wf g" using assms(1,3) by (auto simp: dir_New_def leads_wf_def split: sum.splits intro: store_all_open)
  then have "leads_wf g'" by (rule leads_wf_run [OF assms(4)])
  moreover have "dir_wf g'" by (rule dir_wf_fed [OF assms(4) dir_wf_new [OF assms(1,2)]])
  ultimately show ?thesis unfolding leads_wf_def dir_wf_def by (auto dest: store_all_get simp: lead_wf_def)
qed

lemma leads_filed_witness:
  "case fed_run ledger_billing [FSeed uid_b 5 (snapshot_listing uid_a (demo_listing [''ai''])), FState uid_a LeadInvited '''',
       FDir (DLead uid_a), FState uid_a LeadPursuing ''late'', FDir (DRestart demo_policy \<lparr>ld_balances = [], ld_store = no_file\<rparr>)] (demo_directory 0) of
     None \<Rightarrow> False
   | Some g \<Rightarrow> map_option ld_State (js_get uid_a (rg_leads g)) = Some LeadConverted \<and>
       (\<forall>l. js_get uid_a (rg_leads g) = Some l \<longrightarrow> ld_ProviderUID l = uid_a)"
proof -
  let ?es = "[FSeed uid_b 5 (snapshot_listing uid_a (demo_listing [''ai''])), FState uid_a LeadInvited '''',
       FDir (DLead uid_a), FState uid_a LeadPursuing ''late'', FDir (DRestart demo_policy \<lparr>ld_balances = [], ld_store = no_file\<rparr>)]"
  have r: "case fed_run ledger_billing ?es (demo_directory 0) of None \<Rightarrow> False
    | Some g \<Rightarrow> map_option ld_State (js_get uid_a (rg_leads g)) = Some LeadConverted" by code_simp
  then obtain g where g: "fed_run ledger_billing ?es (demo_directory 0) = Some g" by (auto split: option.splits)
  show ?thesis using r g leads_filed [OF demo_directory_new _ _ g] by (auto simp: no_file_def)
qed

text \<open>
  A peer that is removed while it is being verified comes back. When the peer is gone by the time its snapshot has
  been bought and verified, the stamp at the end stores it again, with an empty key; every later verification of it is then refused
  for the missing key, while the listing of peers shows it.
\<close>

lemma removed_peer_returns:
  assumes "verify_peer_finish E C decode peerUID pubKey cr err g = ((n, None), g')" "js_get peerUID (rg_peers g) = None"
  shows "js_get peerUID (rg_peers g') = Some \<lparr>p_PubKey = '''', p_AddedAt = 0, p_LastVerifiedAt = unix (rg_now g)\<rparr> \<and>
    verify_peer_ask peerUID g' = Inr ('''', mul64 (py_snapshotPrice (rg_policy g')) 10) \<and>
    VerifySnapshot E C ss '''' = Inl ''no trusted key for snapshot verification''"
proof -
  have "\<exists>snap :: Snapshot. g' = stamp_peer peerUID (unix (rg_now g)) (snd (seed_leads (rg_self g) peerUID (unix (rg_now g)) (snap_Listings snap) 0 g))"
    using assms(1) by (simp add: verify_peer_finish_def Let_def split_beta split: option.splits sum.splits if_splits bool.splits) blast
  then obtain snap :: Snapshot where g': "g' = stamp_peer peerUID (unix (rg_now g)) (snd (seed_leads (rg_self g) peerUID (unix (rg_now g)) (snap_Listings snap) 0 g))"
    by blast
  obtain ld where "snd (seed_leads (rg_self g) peerUID (unix (rg_now g)) (snap_Listings snap) 0 g) = g\<lparr>rg_leads := ld\<rparr>"
    by (rule seed_leads_frame)
  then have "js_get peerUID (rg_peers g') = Some \<lparr>p_PubKey = '''', p_AddedAt = 0, p_LastVerifiedAt = unix (rg_now g)\<rparr>"
    using assms(2) by (simp add: g' stamp_peer_def js_mutate_m js_get_def js_val_def no_peer_def)
  then show ?thesis by (simp add: verify_peer_ask_def VerifySnapshot_def peerSnapshotBudgetFactor_def)
qed

lemma removed_peer_returns_witness:
  "js_get uid_b (rg_peers (snd (verify_peer_finish demo_ed (demo_snap_codec (export demo_other)) (\<lambda>_. Some (sign demo_ed (demo_signer 9) [1]))
       uid_b (hex_of_bytes (replicate 32 9)) \<lparr>cl_res = Some \<lparr>cr_isError = False, cr_content = []\<rparr>, cl_paid = 0, cl_latency = 0\<rparr> None
       (snd (remove_peer uid_b demo_trusting))))) = Some \<lparr>p_PubKey = '''', p_AddedAt = 0, p_LastVerifiedAt = 0\<rparr>"
proof -
  let ?g = "snd (remove_peer uid_b demo_trusting)"
  let ?run = "verify_peer_finish demo_ed (demo_snap_codec (export demo_other)) (\<lambda>_. Some (sign demo_ed (demo_signer 9) [1]))
       uid_b (hex_of_bytes (replicate 32 9)) \<lparr>cl_res = Some \<lparr>cr_isError = False, cr_content = []\<rparr>, cl_paid = 0, cl_latency = 0\<rparr> None ?g"
  have "snd (fst ?run) = None" by code_simp
  then have run: "?run = ((fst (fst ?run), None), snd ?run)" by (metis prod.collapse)
  have "js_get uid_b (rg_peers ?g) = None" "unix (rg_now ?g) = 0" by code_simp+
  with removed_peer_returns [OF run] show ?thesis by simp
qed

end
