(* ===== verification/DirDaemon.thy ===== *)
theory DirDaemon
  imports Federation BotKit Tips Wire
begin

text \<open>
  The directory daemon, \<^verbatim>\<open>cmd/brmcpdir/main.go\<close>: the policy file, the bot pointer, the greeter that answers plain chat, the
  introductions through the status server, and the loops that feed messages, tips, tip progress and key exchanges to the directory.
  What the bot, the status server and the payments do when they are called is an argument or an action that is logged.
\<close>

section \<open>Policy, bot pointer, introductions\<close>

definition blank_policy :: Policy where
  "blank_policy = \<lparr>py_admins = [], py_fee = 0, py_snapshotPrice = 0, py_searchPrice = 0, py_expiryDays = 0, py_callsPerMinute = 0,
     py_budgetMax = 0, py_recrawlHours = 0, py_name = ''''\<rparr>"

definition loadPolicy :: "Policy plain_file \<Rightarrow> (string + Policy) \<times> Policy plain_file" where
  "loadPolicy f = (case pf_file f of
     Absent \<Rightarrow> (case write_file blank_policy f of (ok, f) \<Rightarrow> (if ok then Inr blank_policy else Inl ''write'', f))
   | Unreadable \<Rightarrow> (Inl ''read'', f)
   | Corrupt \<Rightarrow> (Inl ''parse'', f)
   | Holds p \<Rightarrow> (Inr p, f))"

record 'k backend =
  bk_bot :: "'k option"
  bk_uid :: string
  bk_nick :: string

definition dmn_SendPM :: "('k \<Rightarrow> string \<Rightarrow> string \<Rightarrow> string option) \<Rightarrow> 'k backend \<Rightarrow> string \<Rightarrow> string \<Rightarrow> string option" where
  "dmn_SendPM send b peer msg = (case bk_bot b of None \<Rightarrow> Some ''brmcpdir: bot not connected'' | Some k \<Rightarrow> send k peer msg)"

definition dmn_PayTip :: "('k \<Rightarrow> byte list \<Rightarrow> int64 \<Rightarrow> int \<Rightarrow> string option) \<Rightarrow> 'k backend \<Rightarrow> byte list \<Rightarrow> int64 \<Rightarrow> int \<Rightarrow> string option" where
  "dmn_PayTip pay b uid amt maxAttempts =
     (case bk_bot b of None \<Rightarrow> Some ''brmcpdir: bot not connected'' | Some k \<Rightarrow> pay k uid amt maxAttempts)"

definition dmn_Introduce :: "('k \<Rightarrow> string \<Rightarrow> string \<Rightarrow> string option) \<Rightarrow> 'k backend \<Rightarrow> string \<Rightarrow> string \<Rightarrow> string option" where
  "dmn_Introduce mediate b mediatorUID targetUID =
     (case bk_bot b of None \<Rightarrow> Some ''brmcpdir: bot not connected'' | Some k \<Rightarrow> mediate k mediatorUID targetUID)"

text \<open>The POST of \<^verbatim>\<open>statusClient.Suggest\<close>: an error, or the status and the body.\<close>

definition Suggest :: "(string \<Rightarrow> string \<Rightarrow> string + int \<times> string) \<Rightarrow> string \<Rightarrow> string \<Rightarrow> string option" where
  "Suggest post inviteeUID targetUID = (case post inviteeUID targetUID of
     Inl e \<Rightarrow> Some e
   | Inr (status, body) \<Rightarrow>
       if status \<noteq> 204 \<and> status \<noteq> 200 then Some (''status '' @ dec_of_int status @ '': '' @ trim_space (take 512 body)) else None)"

section \<open>Plain chat\<close>

text \<open>\<^verbatim>\<open>helpGreeter.should\<close>: at most one answer to a sender within an hour; a map of more than a thousand senders is pruned.\<close>

type_synonym greeter = "(string, instant) gomap"

definition greeter_prune :: "instant \<Rightarrow> greeter \<Rightarrow> greeter" where
  "greeter_prune now g = (if 1000 < length g then filter (\<lambda>kt. \<not> hour < time_sub now (snd kt)) g else g)"

definition greeter_should :: "instant \<Rightarrow> string \<Rightarrow> greeter \<Rightarrow> bool \<times> greeter" where
  "greeter_should now uid g =
     (if (case map_of g uid of None \<Rightarrow> False | Some t \<Rightarrow> time_sub now t < hour) then (False, g)
      else (True, gput uid now (greeter_prune now g)))"

definition newline :: string where "newline = [CHR 0x0A]"

definition helpText :: "'k backend \<Rightarrow> nat \<Rightarrow> string" where
  "helpText b n =
     (if bk_uid b = '''' then ''''
      else
        ''I am '' @ bk_nick b @ '', a directory of MCP tool providers on Bison Relay - currently listing '' @ dec_of_int (int n) @
        '' verified provider'' @ (if n = 1 then '''' else ''s'') @ ''.'' @ newline @ newline @
        ''I only speak MCP; connect your AI agent to browse and use the tools:'' @ newline @ newline @
        ''1. Enable your client's Bison Relay MCP bridge (Decred Pulse: Settings > Bison Relay > AI Agent Access) and add me to the allowed bots:'' @
        newline @ bk_uid b @ newline @ newline @
        ''2. Point your agent at the bridge endpoint (default port 8891), authorized with your bridge token:'' @ newline @
        ''http://127.0.0.1:8891/mcp/'' @ bk_uid b @ newline @ newline @
        ''Then: search finds tools (free), introduce connects you with a provider, register lists your own bot, and the policy tool shows my fees.'')"

section \<open>The daemon\<close>

record ('b, 'k) daemon =
  dm_dir :: "'b registry"
  dm_tips :: tip_journal
  dm_greeter :: greeter
  dm_backend :: "'k backend"
  dm_payer :: "unit tip_payer"

datatype dmn_action =
    DRoutes string string
  | DReplies string string
  | DCredits string int64
  | DAcksTip uint64
  | DAcksProgress "64 word"
  | DResumes string

definition new_daemon :: "'b registry \<Rightarrow> tip_journal \<Rightarrow> ('b, 'k) daemon" where
  "new_daemon g tips = \<lparr>dm_dir = g, dm_tips = tips, dm_greeter = [], dm_backend = \<lparr>bk_bot = None, bk_uid = '''', bk_nick = ''''\<rparr>,
     dm_payer = NewTipPayer\<rparr>"

definition dmn_pm :: "string \<Rightarrow> string \<Rightarrow> ('b, 'k) daemon \<Rightarrow> ('b, 'k) daemon \<times> dmn_action list" where
  "dmn_pm uid msg s =
     (if parse msg \<noteq> None then (s, [DRoutes uid msg])
      else case greeter_should (rg_now (dm_dir s)) uid (dm_greeter s) of
        (False, g) \<Rightarrow> (s\<lparr>dm_greeter := g\<rparr>, [])
      | (True, g) \<Rightarrow>
          let txt = helpText (dm_backend s) (LiveListings (dm_dir s)) in
          (s\<lparr>dm_greeter := g\<rparr>, if txt \<noteq> '''' \<and> bk_bot (dm_backend s) \<noteq> None then [DReplies uid txt] else []))"

definition dmn_tip :: "'b Billing \<Rightarrow> tip \<Rightarrow> ('b, 'k) daemon \<Rightarrow> ('b, 'k) daemon \<times> dmn_action list" where
  "dmn_tip B t s =
     (let atoms = quot64 (tip_matoms t) matomsPerAtom; seen = Seen (dm_tips s) (tip_seq t);
          s' = (if seen then s
                else s\<lparr>dm_dir := CreditTip B (tip_uid t) atoms (dm_dir s), dm_tips := snd (Record (dm_tips s) (tip_seq t))\<rparr>)
      in (s', (if seen then [] else [DCredits (tip_uid t) atoms]) @ (if bk_bot (dm_backend s) \<noteq> None then [DAcksTip (tip_seq t)] else [])))"

definition dmn_progress :: "TipProgressEvent \<Rightarrow> ('b, 'k) daemon \<Rightarrow> ('b, 'k) daemon \<times> dmn_action list" where
  "dmn_progress ev s =
     (s\<lparr>dm_payer := fst (HandleTipProgress (Some ev) (dm_payer s) ())\<rparr>,
      if bk_bot (dm_backend s) \<noteq> None then [DAcksProgress (tpe_SequenceId ev)] else [])"

text \<open>A completed key exchange resumes a parked lead, whose invitation then runs on its own.\<close>

definition dmn_kx :: "string \<Rightarrow> ('b, 'k) daemon \<Rightarrow> ('b, 'k) daemon \<times> dmn_action list" where
  "dmn_kx uid s = (s, if resume_starts uid (dm_dir s) then [DResumes uid] else [])"

text \<open>A new bot, with its identity unless reading it failed.\<close>

definition dmn_connect :: "'k \<Rightarrow> (string \<times> string) option \<Rightarrow> ('b, 'k) daemon \<Rightarrow> ('b, 'k) daemon" where
  "dmn_connect k ident s =
     (let s = s\<lparr>dm_backend := (dm_backend s)\<lparr>bk_bot := Some k\<rparr>\<rparr> in
      case ident of
        None \<Rightarrow> s
      | Some (uid, nick) \<Rightarrow> s\<lparr>dm_dir := SetSelfUID uid (dm_dir s), dm_backend := (dm_backend s)\<lparr>bk_uid := uid, bk_nick := nick\<rparr>\<rparr>)"

definition dmn_lost :: "('b, 'k) daemon \<Rightarrow> ('b, 'k) daemon" where
  "dmn_lost s = s\<lparr>dm_backend := (dm_backend s)\<lparr>bk_bot := None\<rparr>\<rparr>"

text \<open>A new process, which does not know its own uid yet: the policy is read, then the directory's files, then the tip journal.\<close>

definition dmn_start :: "'b \<Rightarrow> instant \<Rightarrow> Policy plain_file \<Rightarrow> (string, Entry) gomap store \<Rightarrow> (string, Peer) gomap store \<Rightarrow>
    (string, Lead) gomap store \<Rightarrow> dir_spend list store \<Rightarrow> uint64 list store \<Rightarrow> string + ('b, 'k) daemon" where
  "dmn_start b now policy index peers leads spend tips =
     (case fst (loadPolicy policy) of
        Inl e \<Rightarrow> Inl e
      | Inr pol \<Rightarrow> (case dir_New pol '''' b now index peers leads spend of
          Inl _ \<Rightarrow> Inl ''directory''
        | Inr g \<Rightarrow> (case OpenTipJournal tips of
            Inl _ \<Rightarrow> Inl ''tips''
          | Inr j \<Rightarrow> Inr (new_daemon g j))))"

text \<open>The events of the four channels, a connection gained and lost, what the directory does by itself, and a
  restart over what is on disk with the balances that the new process loads.\<close>

datatype ('b, 'k) dmn_event =
    DmPM string string
  | DmTip tip
  | DmProgress TipProgressEvent
  | DmKX string
  | DmConnect 'k "(string \<times> string) option"
  | DmLost
  | DmDir "'b fed_event"
  | DmRestart "Policy plain_file" 'b

fun dmn_step :: "'b Billing \<Rightarrow> ('b, 'k) dmn_event \<Rightarrow> ('b, 'k) daemon \<Rightarrow> (('b, 'k) daemon \<times> dmn_action list) option" where
  "dmn_step B (DmPM uid msg) s = Some (dmn_pm uid msg s)"
| "dmn_step B (DmTip t) s = Some (dmn_tip B t s)"
| "dmn_step B (DmProgress ev) s = Some (dmn_progress ev s)"
| "dmn_step B (DmKX uid) s = Some (dmn_kx uid s)"
| "dmn_step B (DmConnect k ident) s = Some (dmn_connect k ident s, [])"
| "dmn_step B DmLost s = Some (dmn_lost s, [])"
| "dmn_step B (DmDir e) s = map_option (\<lambda>g. (s\<lparr>dm_dir := g\<rparr>, [])) (fed_step B e (dm_dir s))"
| "dmn_step B (DmRestart policy b) s =
     (let g = dm_dir s in
      case dmn_start b (rg_now g) policy (js_file (rg_index g)) (js_file (rg_peers g)) (js_file (rg_leads g))
          (sj_store (rg_spend g)) (tj_store (dm_tips s)) of
        Inl _ \<Rightarrow> None | Inr s' \<Rightarrow> Some (s', []))"

fun dmn_run :: "'b Billing \<Rightarrow> ('b, 'k) dmn_event list \<Rightarrow> ('b, 'k) daemon \<Rightarrow> (('b, 'k) daemon \<times> dmn_action list) option" where
  "dmn_run B [] s = Some (s, [])"
| "dmn_run B (e # es) s = (case dmn_step B e s of
     None \<Rightarrow> None
   | Some (s', l) \<Rightarrow> map_option (\<lambda>(s2, l2). (s2, l @ l2)) (dmn_run B es s'))"

section \<open>The greeter\<close>

lemma within_hour: "time_sub now t < hour \<longleftrightarrow> now - t < hour"
  by (auto simp: time_sub_def min64_def max64_def durations)

text \<open>The reference: every answered message is remembered, and one is answered unless its sender was within the last hour.\<close>

fun greet_all :: "(instant \<times> string) list \<Rightarrow> greeter \<Rightarrow> bool list" where
  "greet_all [] g = []"
| "greet_all ((now, uid) # ms) g = (case greeter_should now uid g of (b, g') \<Rightarrow> b # greet_all ms g')"

fun greet_ref :: "(instant \<times> string) list \<Rightarrow> (instant \<times> string) list \<Rightarrow> bool list" where
  "greet_ref [] past = []"
| "greet_ref ((now, uid) # ms) past =
     (let b = (\<forall>(t, u) \<in> set past. u = uid \<longrightarrow> hour \<le> now - t) in b # greet_ref ms (if b then (now, uid) # past else past))"

text \<open>What the map keeps of the past: the last answer to each sender, unless it is older than an hour.\<close>

definition greeter_inv :: "instant \<Rightarrow> greeter \<Rightarrow> (instant \<times> string) list \<Rightarrow> bool" where
  "greeter_inv now g past \<longleftrightarrow> gmap_ok g \<and> (\<forall>u t. map_of g u = Some t \<longrightarrow> (t, u) \<in> set past) \<and>
     (\<forall>(t, u) \<in> set past. t \<le> now \<and> (case map_of g u of Some t' \<Rightarrow> t \<le> t' | None \<Rightarrow> hour < now - t))"

lemma greeter_decides:
  assumes "greeter_inv prev g past" "prev \<le> now"
  shows "fst (greeter_should now uid g) \<longleftrightarrow> (\<forall>(t, u) \<in> set past. u = uid \<longrightarrow> hour \<le> now - t)"
proof (cases "map_of g uid")
  case None
  then have "hour \<le> now - t" if "(t, uid) \<in> set past" for t using assms that by (fastforce simp: greeter_inv_def)
  then show ?thesis using None by (auto simp: greeter_should_def)
next
  case (Some t')
  have "t \<le> t'" if "(t, uid) \<in> set past" for t using assms(1) that Some by (fastforce simp: greeter_inv_def)
  moreover have "(t', uid) \<in> set past" using assms(1) Some by (simp add: greeter_inv_def)
  ultimately have "(\<forall>(t, u) \<in> set past. u = uid \<longrightarrow> hour \<le> now - t) \<longleftrightarrow> hour \<le> now - t'" by fastforce
  then show ?thesis using Some by (auto simp: greeter_should_def within_hour)
qed

lemma pruned_lookup:
  assumes "gmap_ok g"
  shows "map_of (greeter_prune now g) u = (case map_of g u of None \<Rightarrow> None
    | Some t \<Rightarrow> if length g \<le> 1000 \<or> \<not> hour < time_sub now t then Some t else None)"
  using map_of_filter [OF assms, of "\<lambda>kt. \<not> hour < time_sub now (snd kt)" u]
  by (auto simp: greeter_prune_def split: option.splits)

lemma greeter_keeps:
  assumes "greeter_inv prev g past" "prev \<le> now"
  shows "greeter_inv now (snd (greeter_should now uid g)) (if fst (greeter_should now uid g) then (now, uid) # past else past)"
proof (cases "fst (greeter_should now uid g)")
  case False
  then have "snd (greeter_should now uid g) = g" by (auto simp: greeter_should_def split: if_splits)
  then show ?thesis using assms False by (fastforce simp: greeter_inv_def split: option.splits)
next
  case True
  then have g': "snd (greeter_should now uid g) = gput uid now (greeter_prune now g)" by (auto simp: greeter_should_def split: if_splits)
  have ok: "gmap_ok g" using assms(1) by (simp add: greeter_inv_def)
  have "gmap_ok (greeter_prune now g)" using ok by (simp add: greeter_prune_def)
  moreover have "(t, u) \<in> set past" if "map_of (greeter_prune now g) u = Some t" for u t
    using that assms(1) pruned_lookup [OF ok, of now u] by (auto simp: greeter_inv_def split: option.splits if_splits)
  moreover have "t \<le> now \<and> (case map_of (greeter_prune now g) u of Some t' \<Rightarrow> t \<le> t' | None \<Rightarrow> hour < now - t)" if "(t, u) \<in> set past" for t u
  proof -
    have p: "t \<le> prev" "case map_of g u of Some t' \<Rightarrow> t \<le> t' | None \<Rightarrow> hour < prev - t" using assms(1) that by (auto simp: greeter_inv_def)
    have far: "hour < time_sub now t' \<Longrightarrow> hour < now - t'" for t' by (auto simp: time_sub_def durations min64_def max64_def split: if_splits)
    show ?thesis using p assms(2) far by (fastforce simp: pruned_lookup [OF ok] split: option.splits)
  qed
  ultimately show ?thesis using True g' by (auto simp: greeter_inv_def)
qed

section \<open>Properties\<close>

text \<open>
  Plain chat is answered at most once an hour, and not less than that. Over any sequence of messages in the order of time, the greeter
  decides as the reference that remembers every answer it ever gave: a message is answered exactly when its sender was
  not answered within the hour before; forgetting senders when the map has grown past a thousand changes no decision.
\<close>

lemma greeter_reference:
  assumes "sorted (map fst ms)"
  shows "greet_all ms [] = greet_ref ms []"
proof -
  have "greet_all ms g = greet_ref ms past" if "greeter_inv prev g past" "sorted (prev # map fst ms)" for ms g past prev
    using that
  proof (induction ms arbitrary: prev g past)
    case (Cons m ms)
    obtain now uid where m: "m = (now, uid)" by fastforce
    have le: "prev \<le> now" and s: "sorted (now # map fst ms)" using Cons.prems(2) by (auto simp: m)
    obtain b g' where b: "greeter_should now uid g = (b, g')" by fastforce
    have "b = (\<forall>(t, u) \<in> set past. u = uid \<longrightarrow> hour \<le> now - t)" using greeter_decides [OF Cons.prems(1) le, of uid] b by simp
    moreover have "greeter_inv now g' (if b then (now, uid) # past else past)" using greeter_keeps [OF Cons.prems(1) le, of uid] b by simp
    ultimately show ?case using Cons.IH s b by (simp add: m Let_def)
  qed simp
  moreover have "greeter_inv (fst (hd ms)) [] []" by (simp add: greeter_inv_def)
  ultimately show ?thesis using assms by (cases ms) (auto simp: list.case_eq_if)
qed

lemma greeter_reference_witness:
  "greet_all [(0, ''ann''), (1, ''bob''), (2, ''ann''), (3600000000000, ''ann''), (3600000000000, ''bob'')] [] = [True, True, False, True, False] \<and>
   greet_ref [(0, ''ann''), (1, ''bob''), (2, ''ann''), (3600000000000, ''ann''), (3600000000000, ''bob'')] [] = [True, True, False, True, False]"
proof -
  have "greet_ref [(0, ''ann''), (1, ''bob''), (2, ''ann''), (3600000000000, ''ann''), (3600000000000, ''bob'')] [] = [True, True, False, True, False]"
    by code_simp
  then show ?thesis
    using greeter_reference [of "[(0, ''ann''), (1, ''bob''), (2, ''ann''), (3600000000000, ''ann''), (3600000000000, ''bob'')]"] by simp
qed

section \<open>Tips\<close>

fun is_credit :: "dmn_action \<Rightarrow> bool" where
  "is_credit (DCredits _ _) = True"
| "is_credit _ = False"

text \<open>The tips of a run, and the first delivery of each sequence id that is not in the journal yet.\<close>

fun run_tips :: "('b, 'k) dmn_event list \<Rightarrow> tip list" where
  "run_tips [] = []"
| "run_tips (DmTip t # es) = t # run_tips es"
| "run_tips (_ # es) = run_tips es"

fun first_tips :: "uint64 set \<Rightarrow> tip list \<Rightarrow> tip list" where
  "first_tips A [] = []"
| "first_tips A (t # ts) = (if tip_seq t \<in> A then first_tips A ts else t # first_tips (insert (tip_seq t) A) ts)"

lemma synced_reopens: "tips_synced j \<Longrightarrow> OpenTipJournal (tj_store j) = Inr j"
  by (cases j) (simp add: OpenTipJournal_def tips_synced_def tj_ok_def)

lemma dmn_tips_frame:
  "dm_tips (fst (dmn_pm uid msg s)) = dm_tips s" "dm_tips (fst (dmn_progress ev s)) = dm_tips s" "dm_tips (fst (dmn_kx uid s)) = dm_tips s"
  "dm_tips (dmn_connect k ident s) = dm_tips s" "dm_tips (dmn_lost s) = dm_tips s"
  "filter is_credit (snd (dmn_pm uid msg s)) = []" "filter is_credit (snd (dmn_progress ev s)) = []"
  "filter is_credit (snd (dmn_kx uid s)) = []"
  by (auto simp: dmn_pm_def dmn_progress_def dmn_kx_def dmn_connect_def dmn_lost_def Let_def split: prod.splits bool.splits option.splits)

lemma dmn_tip_effect:
  "dm_tips (fst (dmn_tip B t s)) = (if Seen (dm_tips s) (tip_seq t) then dm_tips s else snd (Record (dm_tips s) (tip_seq t)))"
  "filter is_credit (snd (dmn_tip B t s)) =
     (if Seen (dm_tips s) (tip_seq t) then [] else [DCredits (tip_uid t) (quot64 (tip_matoms t) matomsPerAtom)])"
  by (auto simp: dmn_tip_def Let_def)

lemma dmn_other_tips:
  assumes "dmn_step B e s = Some (s', l)" "\<And>t. e \<noteq> DmTip t" "tips_synced (dm_tips s)"
  shows "dm_tips s' = dm_tips s \<and> filter is_credit l = [] \<and> run_tips (e # es) = run_tips es"
proof (cases e)
  case (DmPM uid msg)
  then show ?thesis using assms(1) dmn_tips_frame(1,6) [of uid msg s] by auto
next
  case (DmProgress ev)
  then show ?thesis using assms(1) dmn_tips_frame(2,7) [of ev s] by auto
next
  case (DmKX uid)
  then show ?thesis using assms(1) dmn_tips_frame(3,8) [of uid s] by auto
next
  case (DmRestart pf b)
  then show ?thesis using assms(1) synced_reopens [OF assms(3)]
    by (auto simp: Let_def dmn_start_def new_daemon_def split: sum.splits)
qed (use assms in \<open>auto simp: dmn_tips_frame\<close>)


definition demo_daemon :: "(ledger, nat) daemon" where
  "demo_daemon = new_daemon (demo_directory 30) \<lparr>tj_seqs = [], tj_seen = {}, tj_store = no_file\<rparr>"

definition paid_tip :: "uint64 \<Rightarrow> int64 \<Rightarrow> tip" where
  "paid_tip seq matoms = \<lparr>tip_uid = ''prov'', tip_matoms = matoms, tip_seq = seq\<rparr>"

lemma demo_synced: "tips_synced (dm_tips demo_daemon)"
  by (simp add: demo_daemon_def new_daemon_def tips_synced_def tj_ok_def open_file_def no_file_def)

definition demo_tips_run :: "(ledger, nat) dmn_event list" where
  "demo_tips_run = [DmTip (paid_tip 7 5999), DmPM ''ann'' ''hi'', DmRestart \<lparr>pf_file = Holds demo_policy, pf_script = []\<rparr> \<lparr>ld_balances = [], ld_store = no_file\<rparr>,
     DmTip (paid_tip 7 5999), DmTip (paid_tip 8 1000)]"


text \<open>
  The daemon can lose a tip. When the ledger cannot write the credit of a new tip, the daemon, which is not told, records the tip all the same. A
  restart then loads the balances of before, and the redelivery of the tip changes nothing but for an acknowledgement. The serving bot
  keeps the same tip out of its journal, so that its redelivery is credited.
\<close>

lemma dir_loses_unwritten_tip:
  assumes "tips_synced (dm_tips s)" "\<not> Seen (dm_tips s) (tip_seq t)"
    and "Credit (rg_billing (dm_dir s)) (tip_uid t) (quot64 (tip_matoms t) matomsPerAtom) = (Some err, led)"
    and "s1 = fst (dmn_tip ledger_billing t s)" "dm_tips s2 = dm_tips s1"
  shows "st_file (ld_store (rg_billing (dm_dir s1))) = st_file (ld_store (rg_billing (dm_dir s))) \<and>
    OpenTipJournal (tj_store (dm_tips s1)) = Inr (dm_tips s1) \<and> fst (dmn_tip ledger_billing t s2) = s2 \<and>
    (\<forall>b. allowed (tip_uid t) \<and> ts_billing b = rg_billing (dm_dir s) \<and> ts_tips b = Some (dm_tips s) \<longrightarrow>
       ts_tips (handle_tip ledger_billing allowed c t b) = Some (dm_tips s))"
proof -
  let ?n = "quot64 (tip_matoms t) matomsPerAtom"
  have pos: "\<not> ?n \<le> 0" using assms(3) by (auto simp: Credit_def)
  have s1: "s1 = s\<lparr>dm_dir := CreditTip ledger_billing (tip_uid t) ?n (dm_dir s), dm_tips := snd (Record (dm_tips s) (tip_seq t))\<rparr>"
    using assms(2,4) by (simp add: dmn_tip_def Let_def)
  have b: "rg_billing (dm_dir s1) = led" using assms(3) pos by (simp add: s1 CreditTip_def ledger_billing_def)
  have p: "ld_persistLocked ((rg_billing (dm_dir s))\<lparr>ld_balances := gput (tip_uid t)
      (add64 (gint (ld_balances (rg_billing (dm_dir s))) (tip_uid t)) ?n) (ld_balances (rg_billing (dm_dir s)))\<rparr>) = (Some err, led)"
    using assms(3) pos by (simp add: Credit_def)
  have kept_file: "st_file (ld_store led) = st_file (ld_store (rg_billing (dm_dir s)))"
    using p by (auto simp: ld_persistLocked_def persist_atomic split_beta)
  have synced: "tips_synced (dm_tips s1)" using tips_synced_Record [OF assms(1)] by (simp add: s1)
  have "tj_ok (dm_tips s)" using assms(1) by (simp add: tips_synced_def)
  then have "Seen (dm_tips s1) (tip_seq t)" by (simp add: s1 Record_seen)
  then have again: "fst (dmn_tip ledger_billing t s2) = s2" using assms(5) by (simp add: dmn_tip_def Let_def)
  have "ts_tips (handle_tip ledger_billing allowed c t b) = Some (dm_tips s)"
    if "allowed (tip_uid t)" "ts_billing b = rg_billing (dm_dir s)" "ts_tips b = Some (dm_tips s)" for b
    using that assms(2,3) by (simp add: handle_tip_def Let_def ledger_billing_def)
  then show ?thesis using kept_file b synced_reopens [OF synced] again by blast
qed

lemma dir_loses_unwritten_tip_witness:
  "let s = demo_daemon\<lparr>dm_dir := (demo_directory 0)\<lparr>rg_billing := \<lparr>ld_balances = [], ld_store = \<lparr>st_file = Absent, st_script = [Some WriteFailed]\<rparr>\<rparr>\<rparr>\<rparr>;
       s1 = fst (dmn_tip ledger_billing (paid_tip 7 5999) s);
       s2 = new_daemon (demo_directory 0) (dm_tips s1) :: (ledger, nat) daemon
   in st_file (ld_store (rg_billing (dm_dir s1))) = Absent \<and>
      Balance (rg_billing (dm_dir (fst (dmn_tip ledger_billing (paid_tip 7 5999) s2)))) ''prov'' = 0"
proof -
  define s where "s = demo_daemon\<lparr>dm_dir := (demo_directory 0)\<lparr>rg_billing := \<lparr>ld_balances = [], ld_store = \<lparr>st_file = Absent, st_script = [Some WriteFailed]\<rparr>\<rparr>\<rparr>\<rparr>"
  define s1 where "s1 = fst (dmn_tip ledger_billing (paid_tip 7 5999) s)"
  define s2 where "s2 = (new_daemon (demo_directory 0) (dm_tips s1) :: (ledger, nat) daemon)"
  have q: "quot64 5999 1000 = 5" by code_simp
  have y: "tips_synced (dm_tips s)" "\<not> Seen (dm_tips s) (tip_seq (paid_tip 7 5999))"
    using demo_synced by (simp_all add: s_def Seen_def demo_daemon_def new_daemon_def)
  obtain err led where c: "Credit (rg_billing (dm_dir s)) (tip_uid (paid_tip 7 5999)) (quot64 (tip_matoms (paid_tip 7 5999)) matomsPerAtom) = (Some err, led)"
    by (simp add: s_def paid_tip_def matomsPerAtom_def q Credit_def ld_persistLocked_def persist_def split_beta)
  have "st_file (ld_store (rg_billing (dm_dir s1))) = st_file (ld_store (rg_billing (dm_dir s)))"
    "fst (dmn_tip ledger_billing (paid_tip 7 5999) s2) = s2"
    using dir_loses_unwritten_tip [OF y c s1_def, of s2] by (simp_all add: s2_def new_daemon_def)
  moreover have "Balance (rg_billing (dm_dir s2)) ''prov'' = 0" unfolding s2_def new_daemon_def by code_simp
  ultimately show ?thesis by (simp add: Let_def s_def [symmetric] s1_def [symmetric] s2_def [symmetric]) (simp add: s_def)
qed

end
