(* ===== verification/PaidTest.thy ===== *)
theory PaidTest
  imports DirClient Calls SpendJournal
begin

text \<open>
  A paid test between two hosts: \<^verbatim>\<open>runTest\<close> and \<^verbatim>\<open>paidCall\<close> of \<^verbatim>\<open>directory/client.go\<close> on the directory's side, the handler of
  \<^verbatim>\<open>AddToolPriced\<close> in \<^verbatim>\<open>server/harness.go\<close> and the tip branch of \<^verbatim>\<open>server/bot.go\<close> on the provider's. The environment of the paid
  call is here the provider's harness itself; the tip arrives some pauses after it was sent, and the first answer
  may be lost on its way. How the MCP SDK turns what a handler returns into a result is an argument.
\<close>

section \<open>A call that runs undisturbed\<close>

fun steps_left :: "'o phase \<Rightarrow> nat" where
  "steps_left Arrived = 6"
| "steps_left (Admitted r) = 5"
| "steps_left (Quoted r price) = 4"
| "steps_left (Charged r price) = 3"
| "steps_left (Running r price) = 2"
| "steps_left (Settled r resp) = 1"
| "steps_left (Refused r resp) = 1"
| "steps_left (Waiting r) = 1"
| "steps_left (Answered resp) = 0"

lemma advance_steps_left: "advance B C M ch (h, v) = Some (h', v') \<Longrightarrow> steps_left (in_phase v') < steps_left (in_phase v)"
  by (cases "in_phase v") (auto simp: advance_def Let_def split: prod.splits option.splits sum.splits if_splits)

function run_alone :: "'b Billing \<Rightarrow> (CallToolResult, 'o) codec \<Rightarrow> (PaymentRequired \<Rightarrow> string option) \<Rightarrow> 'o choice \<Rightarrow>
    ('b, 'i, 'o) harness \<Rightarrow> ('i, 'o) invocation \<Rightarrow> ('b, 'i, 'o) harness \<times> ('i, 'o) invocation" where
  "run_alone B C M ch h v = (case advance B C M ch (h, v) of
     None \<Rightarrow> (h, v)
   | Some (h', v') \<Rightarrow> run_alone B C M ch h' v')"
  by pat_completeness auto
termination
  by (relation "measure (\<lambda>(_, _, _, _, _, v). steps_left (in_phase v))") (auto dest: advance_steps_left)

declare run_alone.simps [simp del]

text \<open>A call whose context ends at last is answered, whatever the harness holds.\<close>

lemma advance_stuck: "advance B C M ch (h, v) = None \<Longrightarrow> ch_cancel ch \<noteq> None \<Longrightarrow> \<exists>resp. in_phase v = Answered resp"
  by (cases "in_phase v") (auto simp: advance_def Let_def split: prod.splits option.splits sum.splits if_splits)

lemma run_alone_answers:
  "ch_cancel ch \<noteq> None \<Longrightarrow> \<exists>resp. in_phase (snd (run_alone B C M ch h v)) = Answered resp"
proof (induction B C M ch h v rule: run_alone.induct)
  case (1 B C M ch h v)
  show ?case
  proof (cases "advance B C M ch (h, v)")
    case None
    then show ?thesis using advance_stuck [OF None 1(2)] by (subst run_alone.simps) (simp add: None)
  next
    case (Some hv)
    then show ?thesis using 1 by (subst run_alone.simps) (cases hv, simp)
  qed
qed

lemma run_alone_step: "advance B C M ch (h, v) = Some (h', v') \<Longrightarrow> run_alone B C M ch h v = run_alone B C M ch h' v'"
  by (subst run_alone.simps) simp

lemma run_alone_done: "in_phase v = Answered resp \<Longrightarrow> run_alone B C M ch h v = (h, v)"
  by (subst run_alone.simps) (simp add: advance_def)

lemma run_alone_final:
  "advance B C M ch (h, v) = Some (h', v') \<Longrightarrow> in_phase v' = Answered resp \<Longrightarrow> run_alone B C M ch h v = (h', v')"
  by (simp add: run_alone_step run_alone_done)

definition answer_of :: "('i, 'o) invocation \<Rightarrow> 'o response" where
  "answer_of v = (case in_phase v of Answered resp \<Rightarrow> resp | _ \<Rightarrow> (None, None, None))"

section \<open>The provider's side\<close>

text \<open>\<open>sv_pack\<close> is the SDK; \<open>sv_run\<close> is what the handler does when it runs.\<close>

record ('i, 'o) service =
  sv_codec :: "(CallToolResult, 'o) codec"
  sv_marshal :: "PaymentRequired \<Rightarrow> string option"
  sv_pack :: "'o response \<Rightarrow> CallToolResult"
  sv_peer :: string
  sv_tool :: "'i tool"
  sv_args :: 'i
  sv_run :: "string + 'o tool_out option"

definition incoming :: "('i, 'o) service \<Rightarrow> string \<Rightarrow> ('i, 'o) invocation" where
  "incoming S k = \<lparr>in_peer = sv_peer S, in_tool = sv_tool S, in_callKey = Some k, in_args = sv_args S,
     in_phase = Arrived, in_paid = 0\<rparr>"

definition serve_call :: "('i, 'o) service \<Rightarrow> instant \<Rightarrow> string \<Rightarrow> (ledger, 'i, 'o) harness \<Rightarrow>
    (ledger, 'i, 'o) harness \<times> CallToolResult" where
  "serve_call S now k h =
     (case run_alone ledger_billing (sv_codec S) (sv_marshal S)
        \<lparr>ch_now = now, ch_run = sv_run S, ch_cancel = Some ''context canceled''\<rparr> h (incoming S k) of
      (h, v) \<Rightarrow> (h, sv_pack S (answer_of v)))"

definition key_of :: "('i, 'o) service \<Rightarrow> string \<Rightarrow> string" where
  "key_of S k = sv_peer S @ ''|'' @ k"

text \<open>The key is free, the caller has at least \<open>n\<close> calls left, and this balance.\<close>

definition ready :: "('i, 'o) service \<Rightarrow> string \<Rightarrow> instant \<Rightarrow> nat \<Rightarrow> int \<Rightarrow> (ledger, 'i, 'o) harness \<Rightarrow> bool" where
  "ready S k now n bal h \<longleftrightarrow> ledger_durably (h_billing h) \<and> Balance (h_billing h) (sv_peer S) = bal \<and>
     gmap_ok (h_calls h) \<and> map_of (h_calls h) (key_of S k) = None \<and>
     buckets_ok h now \<and> of_nat n \<le> level h (sv_peer S) now"

text \<open>A completed call under the key, to be replayed until an instant.\<close>

definition kept :: "('i, 'o) service \<Rightarrow> string \<Rightarrow> 'o tool_out option \<Rightarrow> instant \<Rightarrow> (ledger, 'i, 'o) harness \<Rightarrow> bool" where
  "kept S k out expires h \<longleftrightarrow> gmap_ok (h_calls h) \<and> (\<exists>r. map_of (h_calls h) (key_of S k) = Some r \<and>
     h_recs h ! r = \<lparr>rec_done = True, rec_result = None, rec_out = out, rec_err = None, rec_expires = Some expires\<rparr>)"

definition refusal_of :: "('i, 'o) service \<Rightarrow> int64 \<Rightarrow> int \<Rightarrow> PaymentRequired" where
  "refusal_of S price bal = \<lparr>pr_error = ''payment_required'', pr_tool = t_name (sv_tool S), pr_price = price,
     pr_balance = bal, pr_shortfall = sub64 price bal, pr_rails = [''tip'']\<rparr>"

lemma call_key_incoming: "8 \<le> length k \<Longrightarrow> length k \<le> 128 \<Longrightarrow> call_key (incoming S k) = key_of S k"
  by (simp add: call_key_def incoming_def key_of_def)

text \<open>The steps of a keyed call, one by one.\<close>

lemma claim_free:
  assumes "in_phase v = Arrived" "call_key v \<noteq> ''''" "gmap_ok (h_calls h)" "map_of (h_calls h) (call_key v) = None"
  obtains g where "advance B C M ch (h, v) = Some (g, v\<lparr>in_phase := Admitted (Some (length (h_recs h)))\<rparr>)"
    and "h_billing g = h_billing h" "h_buckets g = h_buckets h" "h_cfg g = h_cfg h" "gmap_ok (h_calls g)"
    and "map_of (h_calls g) (call_key v) = Some (length (h_recs h))" "h_recs g = h_recs h @ [fresh_rec]" "h_allowed g = h_allowed h"
proof -
  have "map_of (filter (\<lambda>kr. \<not> call_stale (h_recs h) (ch_now ch) (snd kr)) (h_calls h)) (call_key v) = None"
    using assms(3,4) by (simp add: gmap_ok_def map_of_eq_None_iff) auto
  then have adv: "advance B C M ch (h, v) = Some (h\<lparr>h_journal := map_option (\<lambda>j. cj_gc j (ch_now ch)) (h_journal h),
      h_calls := gput (call_key v) (length (h_recs h)) (filter (\<lambda>kr. \<not> call_stale (h_recs h) (ch_now ch) (snd kr)) (h_calls h)),
      h_recs := h_recs h @ [fresh_rec]\<rparr>, v\<lparr>in_phase := Admitted (Some (length (h_recs h)))\<rparr>)"
    using advance_claim [OF assms(1-3), of B C M ch] by (simp add: Let_def)
  show thesis by (rule that [OF adv]) (use assms(3) in simp_all)
qed

lemma token_taken:
  assumes "in_phase v = Admitted r" "buckets_ok h (ch_now ch)" "1 \<le> level h (in_peer v) (ch_now ch)"
    and "t_price (in_tool v) (in_peer v) (in_args v) = Inr price"
  shows "advance B C M ch (h, v) = Some (fst (takeToken h (ch_now ch) (in_peer v)), v\<lparr>in_phase := Quoted r price\<rparr>)"
  using assms takeToken_level(2) [OF assms(2), of "in_peer v"] by (simp add: advance_def Let_def split_beta)

lemma ready_tokens:
  assumes "buckets_ok h now" "of_nat (Suc n) \<le> level h peer now"
  shows "buckets_ok (fst (takeToken h now peer)) now \<and> of_nat n \<le> level (fst (takeToken h now peer)) peer now"
  using takeToken_ok [OF assms(1) order.refl, of peer] takeToken_level(1) [OF assms(1), of peer peer]
    takeToken_level(2) [OF assms(1), of peer] assms(2) by simp

lemma level_cong: "h_buckets g = h_buckets h \<Longrightarrow> h_cfg g = h_cfg h \<Longrightarrow> level g peer t = level h peer t"
  and buckets_cong: "h_buckets g = h_buckets h \<Longrightarrow> h_cfg g = h_cfg h \<Longrightarrow> buckets_ok g t = buckets_ok h t"
  by (simp_all add: level_def buckets_ok_def split: option.splits)

lemma call_end_frame [simp]:
  "h_buckets (releaseCall h k a) = h_buckets h" "h_cfg (releaseCall h k a) = h_cfg h" "h_allowed (releaseCall h k a) = h_allowed h"
  "h_buckets (completeCall C h t k a resp) = h_buckets h" "h_cfg (completeCall C h t k a resp) = h_cfg h"
  "h_allowed (completeCall C h t k a resp) = h_allowed h"
  by (simp_all add: releaseCall_def completeCall_def Let_def split_beta)

text \<open>The way of every call with a free key up to its quote.\<close>

abbreviation alone :: "('i, 'o) service \<Rightarrow> instant \<Rightarrow> (ledger, 'i, 'o) harness \<Rightarrow> ('i, 'o) invocation \<Rightarrow>
    (ledger, 'i, 'o) harness \<times> ('i, 'o) invocation" where
  "alone S now \<equiv> run_alone ledger_billing (sv_codec S) (sv_marshal S)
     \<lparr>ch_now = now, ch_run = sv_run S, ch_cancel = Some ''context canceled''\<rparr>"

definition quoted :: "('i, 'o) service \<Rightarrow> string \<Rightarrow> instant \<Rightarrow> nat \<Rightarrow> (ledger, 'i, 'o) harness \<Rightarrow> nat \<Rightarrow> (ledger, 'i, 'o) harness \<Rightarrow> bool" where
  "quoted S k now n h a g \<longleftrightarrow> h_billing g = h_billing h \<and> h_cfg g = h_cfg h \<and> h_allowed g = h_allowed h \<and> gmap_ok (h_calls g) \<and>
     map_of (h_calls g) (key_of S k) = Some a \<and> a < length (h_recs g) \<and> buckets_ok g now \<and> of_nat n \<le> level g (sv_peer S) now"

lemma reach_quoted:
  assumes "ready S k now (Suc n) bal h" "8 \<le> length k" "length k \<le> 128" "t_price (sv_tool S) (sv_peer S) (sv_args S) = Inr p"
  obtains g a where "alone S now h (incoming S k) = alone S now g (incoming S k\<lparr>in_phase := Quoted (Some a) p\<rparr>)" "quoted S k now n h a g"
proof -
  let ?ch = "\<lparr>ch_now = now, ch_run = sv_run S, ch_cancel = Some ''context canceled''\<rparr>" and ?v = "incoming S k"
  have key: "call_key ?v = key_of S k" by (rule call_key_incoming [OF assms(2,3)])
  have ok: "gmap_ok (h_calls h)" and free: "map_of (h_calls h) (key_of S k) = None" and bk: "buckets_ok h now"
    and lv: "of_nat (Suc n) \<le> level h (sv_peer S) now"
    using assms(1) by (simp_all add: ready_def)
  obtain g where g: "advance ledger_billing (sv_codec S) (sv_marshal S) ?ch (h, ?v) = Some (g, ?v\<lparr>in_phase := Admitted (Some (length (h_recs h)))\<rparr>)"
    "h_billing g = h_billing h" "h_buckets g = h_buckets h" "h_cfg g = h_cfg h" "gmap_ok (h_calls g)"
    "map_of (h_calls g) (key_of S k) = Some (length (h_recs h))" "h_recs g = h_recs h @ [fresh_rec]" "h_allowed g = h_allowed h"
    by (rule claim_free [of ?v h ledger_billing "sv_codec S" "sv_marshal S" ?ch])
      (use ok free key in \<open>simp_all add: incoming_def key_of_def\<close>)
  let ?g = "fst (takeToken g now (sv_peer S))" and ?r = "Some (length (h_recs h))"
  have gb: "buckets_ok g now" "of_nat (Suc n) \<le> level g (sv_peer S) now"
    using bk lv by (simp_all add: level_cong [OF g(3,4)] buckets_cong [OF g(3,4)])
  have "alone S now g (?v\<lparr>in_phase := Admitted ?r\<rparr>) = alone S now ?g (?v\<lparr>in_phase := Quoted ?r p\<rparr>)"
    using token_taken [where v = "?v\<lparr>in_phase := Admitted ?r\<rparr>" and r = ?r and h = g and ch = ?ch and price = p
        and B = ledger_billing and C = "sv_codec S" and M = "sv_marshal S"] gb assms(4)
    by (intro run_alone_step) (simp add: incoming_def)
  moreover have "h_allowed ?g = h_allowed g" by (simp add: takeToken_def Let_def)
  then have "quoted S k now n h (length (h_recs h)) ?g" using g ready_tokens [OF gb] by (simp add: quoted_def)
  ultimately show thesis using that run_alone_step [OF g(1)] by simp
qed

text \<open>A call that the balance does not cover is refused and leaves its key free.\<close>

lemma serve_refused:
  assumes "ready S k now (Suc n) bal h" "8 \<le> length k" "length k \<le> 128"
    and "t_price (sv_tool S) (sv_peer S) (sv_args S) = Inr p" "bal < p"
  shows "\<exists>h'. serve_call S now k h = (h', sv_pack S (Some (paymentRequiredResult (sv_marshal S) (refusal_of S p bal)), None, None)) \<and>
    ready S k now n bal h' \<and> h_allowed h' = h_allowed h \<and> h_cfg h' = h_cfg h \<and> h_billing h' = h_billing h"
proof -
  let ?v = "incoming S k" and ?resp = "(Some (paymentRequiredResult (sv_marshal S) (refusal_of S p bal)), None, None)"
  obtain g a where run: "alone S now h ?v = alone S now g (?v\<lparr>in_phase := Quoted (Some a) p\<rparr>)" and g: "quoted S k now n h a g"
    by (rule reach_quoted [OF assms(1-4)])
  have sound: "ledger_durably (h_billing g)" and bal: "Balance (h_billing g) (sv_peer S) = bal"
    using assms(1) g by (simp_all add: ready_def quoted_def)
  have bal0: "0 \<le> bal" using durable_ledger.balance_range [OF sound, of "sv_peer S"] bal by (simp add: ledger_billing_def)
  have "bl_debit ledger_billing (h_billing g) (sv_peer S) p = (Some ErrInsufficient, h_billing g)"
    using durable_ledger.debit_short [OF sound, of p "sv_peer S"] bal bal0 assms(5) by (simp add: ledger_billing_def)
  then have c: "charge ledger_billing (h_billing g) (t_name (sv_tool S)) (sv_peer S) p = (h_billing g, Some (refusal_of S p bal))"
    using bal by (simp add: charge_def refusal_of_def) (simp add: ledger_billing_def)
  have s3: "alone S now g (?v\<lparr>in_phase := Quoted (Some a) p\<rparr>) = alone S now g (?v\<lparr>in_phase := Refused (Some a) ?resp\<rparr>)"
    using assms(5) bal0 c by (intro run_alone_step) (simp add: advance_def incoming_def)
  have s4: "alone S now g (?v\<lparr>in_phase := Refused (Some a) ?resp\<rparr>) =
      (releaseCall g (key_of S k) a, ?v\<lparr>in_phase := Answered ?resp\<rparr>)"
    by (rule run_alone_final) (simp_all add: advance_refuse call_key_incoming assms(2,3))
  have "serve_call S now k h = (releaseCall g (key_of S k) a, sv_pack S ?resp)"
    using run s3 s4 by (simp add: serve_call_def answer_of_def)
  moreover have "level (releaseCall g (key_of S k) a) = level g" "buckets_ok (releaseCall g (key_of S k) a) = buckets_ok g"
    by (intro ext level_cong buckets_cong; simp)+
  ultimately show ?thesis using g sound bal by (auto simp: ready_def quoted_def)
qed

text \<open>A call that the balance covers is charged, runs, and keeps its outcome under its key.\<close>

lemma serve_executed:
  assumes "ready S k now (Suc n) bal h" "8 \<le> length k" "length k \<le> 128"
    and "t_price (sv_tool S) (sv_peer S) (sv_args S) = Inr p" "0 < p" "p \<le> bal" "sv_run S = Inr out"
  shows "\<exists>h'. serve_call S now k h = (h', sv_pack S (None, out, None)) \<and> kept S k out (now + callKeyTTL) h' \<and>
    ledger_durably (h_billing h') \<and> Balance (h_billing h') = (Balance (h_billing h))(sv_peer S := bal - p)"
proof -
  let ?v = "incoming S k" and ?resp = "(None, out, None) :: 'b response"
  obtain g a where run: "alone S now h ?v = alone S now g (?v\<lparr>in_phase := Quoted (Some a) p\<rparr>)" and g: "quoted S k now n h a g"
    by (rule reach_quoted [OF assms(1-4)])
  have sound: "ledger_durably (h_billing g)" and bal: "Balance (h_billing g) (sv_peer S) = bal"
    using assms(1) g by (simp_all add: ready_def quoted_def)
  obtain b where b: "bl_debit ledger_billing (h_billing g) (sv_peer S) p = (None, b)" "ledger_durably b"
    "Balance b = (Balance (h_billing g))(sv_peer S := bal - p)"
    using durable_ledger.debit_covered [OF sound assms(5), of "sv_peer S"] bal assms(6)
    by (cases "bl_debit ledger_billing (h_billing g) (sv_peer S) p") (simp add: ledger_billing_def)
  let ?g1 = "g\<lparr>h_billing := b\<rparr>"
  define g2 where "g2 = ?g1\<lparr>h_journal := map_option (\<lambda>j. snd (charged j (key_of S k) (sv_peer S) p)) (h_journal g)\<rparr>"
  have key: "call_key (?v\<lparr>in_phase := q, in_paid := m\<rparr>) = key_of S k" for q m by (simp add: call_key_incoming assms(2,3))
  have s3: "alone S now g (?v\<lparr>in_phase := Quoted (Some a) p\<rparr>) = alone S now ?g1 (?v\<lparr>in_phase := Charged (Some a) p, in_paid := p\<rparr>)"
    using assms(5) b(1) by (intro run_alone_step) (simp add: advance_def charge_def incoming_def)
  have s4: "alone S now ?g1 (?v\<lparr>in_phase := Charged (Some a) p, in_paid := p\<rparr>) = alone S now g2 (?v\<lparr>in_phase := Running (Some a) p, in_paid := p\<rparr>)"
    using key by (intro run_alone_step) (simp add: advance_def g2_def Let_def, simp add: incoming_def)
  have s5: "alone S now g2 (?v\<lparr>in_phase := Running (Some a) p, in_paid := p\<rparr>) =
      alone S now g2 (?v\<lparr>in_phase := Settled (Some a) ?resp, in_paid := p\<rparr>)"
    using assms(7) by (intro run_alone_step) (simp add: advance_def)
  have s6: "alone S now g2 (?v\<lparr>in_phase := Settled (Some a) ?resp, in_paid := p\<rparr>) =
      (completeCall (sv_codec S) g2 now (key_of S k) a ?resp, ?v\<lparr>in_phase := Answered ?resp, in_paid := p\<rparr>)"
    by (rule run_alone_final) (simp_all add: advance_settle call_key_incoming assms(2,3))
  have "serve_call S now k h = (completeCall (sv_codec S) g2 now (key_of S k) a ?resp, sv_pack S ?resp)"
    using run s3 s4 s5 s6 by (simp add: serve_call_def answer_of_def)
  then show ?thesis using g b by (auto simp: kept_def quoted_def g2_def)
qed

text \<open>A duplicate within half an hour gets that outcome for nothing.\<close>

lemma serve_replayed:
  assumes "kept S k out expires h" "now \<le> expires" "8 \<le> length k" "length k \<le> 128"
  shows "\<exists>h'. serve_call S now k h = (h', sv_pack S (None, out, None)) \<and> h_billing h' = h_billing h"
proof -
  let ?v = "incoming S k" and ?ch = "\<lparr>ch_now = now, ch_run = sv_run S, ch_cancel = Some ''context canceled''\<rparr>"
  obtain r where ok: "gmap_ok (h_calls h)" and r: "map_of (h_calls h) (key_of S k) = Some r"
    "h_recs h ! r = \<lparr>rec_done = True, rec_result = None, rec_out = out, rec_err = None, rec_expires = Some expires\<rparr>"
    using assms(1) by (auto simp: kept_def)
  let ?calls = "filter (\<lambda>kr. \<not> call_stale (h_recs h) now (snd kr)) (h_calls h)"
  have "\<not> call_stale (h_recs h) now r" using r(2) assms(2) by (simp add: call_stale_def)
  then have c: "map_of ?calls (key_of S k) = Some r"
    using ok r(1) by (simp add: gmap_ok_def map_of_filter)
  have key: "call_key ?v = key_of S k" by (rule call_key_incoming [OF assms(3,4)])
  obtain g where adv: "advance ledger_billing (sv_codec S) (sv_marshal S) ?ch (h, ?v) = Some (g, ?v\<lparr>in_phase := Waiting r\<rparr>)"
    and g: "h_recs g = h_recs h" "h_billing g = h_billing h"
    using advance_claim [of ?v h ledger_billing "sv_codec S" "sv_marshal S" ?ch] key ok c
    by (simp add: incoming_def key_of_def Let_def)
  have "alone S now g (?v\<lparr>in_phase := Waiting r\<rparr>) = (g, ?v\<lparr>in_phase := Answered (None, out, None)\<rparr>)"
    by (rule run_alone_final) (simp_all add: advance_def Let_def g r(2))
  then have "serve_call S now k h = (g, sv_pack S (None, out, None))"
    using run_alone_step [OF adv] by (simp add: serve_call_def answer_of_def)
  then show ?thesis using g by simp
qed

section \<open>The two hosts\<close>

text \<open>\<open>ho_lost\<close>: the answer of the next call is lost. \<open>ho_mail\<close>: a tip that arrives after so many pauses.\<close>

record ('i, 'o) hosts =
  ho_srv :: "(ledger, 'i, 'o) harness"
  ho_tips :: "tip_journal option"
  ho_now :: instant
  ho_dir :: ledger
  ho_spend :: spend_journal
  ho_lost :: bool
  ho_mail :: "(nat \<times> tip) option"

text \<open>A tip reaches the provider's tip loop, and a pause lets time pass.\<close>

definition tip_arrives :: "tip \<Rightarrow> ('i, 'o) hosts \<Rightarrow> ('i, 'o) hosts" where
  "tip_arrives t w =
     (let s = handle_tip ledger_billing (Allowed (ho_srv w)) True t
        \<lparr>ts_billing = h_billing (ho_srv w), ts_tips = ho_tips w, ts_acked = [], ts_received = []\<rparr> in
      w\<lparr>ho_srv := (ho_srv w)\<lparr>h_billing := ts_billing s\<rparr>, ho_tips := ts_tips s, ho_mail := None\<rparr>)"

definition post_tip :: "nat \<Rightarrow> tip \<Rightarrow> ('i, 'o) hosts \<Rightarrow> ('i, 'o) hosts" where
  "post_tip n t w = (if n = 0 then tip_arrives t w else w\<lparr>ho_mail := Some (n, t)\<rparr>)"

definition creditPollDelay :: duration where "creditPollDelay = 3 * second"

definition poll_pause :: "('i, 'o) hosts \<Rightarrow> ('i, 'o) hosts" where
  "poll_pause w = (let w = w\<lparr>ho_now := ho_now w + creditPollDelay\<rparr> in
     case ho_mail w of None \<Rightarrow> w | Some (n, t) \<Rightarrow> post_tip (n - 1) t w)"

definition billing_message :: "billing_error \<Rightarrow> string" where
  "billing_message e = (case e of ErrInsufficient \<Rightarrow> ''insufficient balance'' | BillingIO _ \<Rightarrow> ''i/o error'')"

text \<open>The calls that \<^verbatim>\<open>paidCall\<close> makes: on the provider, on the directory's own ledger and journal, and on the
  payer, whose tip takes \<open>delay\<close> pauses and carries the sequence id \<open>seq\<close>. \<open>uid\<close> is the provider.\<close>

definition two_hosts :: "('i, 'o) service \<Rightarrow> string \<Rightarrow> nat \<Rightarrow> uint64 \<Rightarrow> ('i, 'o) hosts pay_env" where
  "two_hosts S uid delay seq =
     \<lparr>pe_dial = \<lambda>w. (None, w),
      pe_call = \<lambda>k w. (case serve_call S (ho_now w) k (ho_srv w) of (h, res) \<Rightarrow>
        (if ho_lost w then Inl ''connection closed'' else Inr res, 0, w\<lparr>ho_srv := h, ho_lost := False\<rparr>)),
      pe_over = \<lambda>w. False,
      pe_wait = \<lambda>w. (None, poll_pause w),
      pe_debit = \<lambda>n w. (case Debit (ho_dir w) uid n of (e, l) \<Rightarrow> (map_option billing_message e, w\<lparr>ho_dir := l\<rparr>)),
      pe_record = \<lambda>n w. (case record_spend \<lparr>ds_ts = unix (ho_now w), ds_uid = uid, ds_tool = t_name (sv_tool S), ds_atoms = n\<rparr> (ho_spend w) of
        ((token, _), j) \<Rightarrow> (token, w\<lparr>ho_spend := j\<rparr>)),
      pe_pay = \<lambda>n w. (None, False, post_tip delay \<lparr>tip_uid = sv_peer S, tip_matoms = n * matomsPerAtom, tip_seq = seq\<rparr> w),
      pe_remove = \<lambda>token w. w\<lparr>ho_spend := remove_spend token (ho_spend w)\<rparr>,
      pe_refund = \<lambda>n w. w\<lparr>ho_dir := snd (Credit (ho_dir w) uid n)\<rparr>\<rparr>"

lemma two_hosts_simps [simp]:
  "pe_dial (two_hosts S uid delay seq) w = (None, w)"
  "pe_call (two_hosts S uid delay seq) k w = (case serve_call S (ho_now w) k (ho_srv w) of (h, res) \<Rightarrow>
     (if ho_lost w then Inl ''connection closed'' else Inr res, 0, w\<lparr>ho_srv := h, ho_lost := False\<rparr>))"
  "pe_over (two_hosts S uid delay seq) w = False"
  "pe_wait (two_hosts S uid delay seq) w = (None, poll_pause w)"
  "pe_pay (two_hosts S uid delay seq) n w =
     (None, False, post_tip delay \<lparr>tip_uid = sv_peer S, tip_matoms = n * matomsPerAtom, tip_seq = seq\<rparr> w)"
  by (simp_all add: two_hosts_def)

section \<open>Steps of the payment\<close>

text \<open>What the directory may rely on: a fixed price, a refusal that arrives as it was sent, and a handler that
  succeeds.\<close>

definition serves_at :: "('i, 'o) service \<Rightarrow> (string \<Rightarrow> PaymentRequired option) \<Rightarrow> int64 \<Rightarrow> int \<Rightarrow> 'o tool_out option \<Rightarrow> bool" where
  "serves_at S unmarshal p bal out \<longleftrightarrow> t_price (sv_tool S) (sv_peer S) (sv_args S) = Inr p \<and> 0 < p \<and> p * matomsPerAtom \<le> max64 \<and>
     sv_run S = Inr out \<and> \<not> cr_isError (sv_pack S (None, out, None)) \<and> (\<forall>r. sv_pack S (Some r, None, None) = r) \<and>
     (\<exists>s. sv_marshal S (refusal_of S p bal) = Some s \<and> unmarshal s = Some (refusal_of S p bal))"

definition tips_ready :: "('i, 'o) service \<Rightarrow> uint64 \<Rightarrow> ('i, 'o) hosts \<Rightarrow> bool" where
  "tips_ready S seq w \<longleftrightarrow> Allowed (ho_srv w) (sv_peer S) \<and> (\<exists>j. ho_tips w = Some j \<and> \<not> Seen j seq)"

lemma parse_refusal:
  "serves_at S unmarshal p bal out \<Longrightarrow>
    ParsePaymentRequired unmarshal (Some (sv_pack S (Some (paymentRequiredResult (sv_marshal S) (refusal_of S p bal)), None, None))) =
      Some (refusal_of S p bal)"
proof -
  assume s: "serves_at S unmarshal p bal out"
  then obtain t where "sv_marshal S (refusal_of S p bal) = Some t" "unmarshal t = Some (refusal_of S p bal)"
    by (auto simp: serves_at_def)
  then show ?thesis using s by (simp add: serves_at_def ParsePaymentRequired_def paymentRequiredResult_def refusal_of_def)
qed

lemma parse_outcome: "serves_at S unmarshal p bal out \<Longrightarrow> ParsePaymentRequired unmarshal (Some (sv_pack S (None, out, None))) = None"
  by (simp add: serves_at_def ParsePaymentRequired_def)

lemma ready_later: "ready S k t n bal h \<Longrightarrow> t \<le> t' \<Longrightarrow> ready S k t' n bal h"
proof -
  assume r: "ready S k t n bal h" and le: "t \<le> t'"
  have cpm: "1 \<le> hc_callsPerMinute (h_cfg h)" using r by (simp add: ready_def buckets_ok_def)
  have "refill (hc_callsPerMinute (h_cfg h)) t b \<le> refill (hc_callsPerMinute (h_cfg h)) t' b" for b
  proof -
    have "time_sub t (bk_last b) \<le> time_sub t' (bk_last b)" using le by (auto simp: time_sub_def)
    then have "(of_int (time_sub t (bk_last b)) :: rat) / 1000000000 * (of_int (hc_callsPerMinute (h_cfg h)) / 60)
        \<le> of_int (time_sub t' (bk_last b)) / 1000000000 * (of_int (hc_callsPerMinute (h_cfg h)) / 60)"
      using cpm by (intro mult_right_mono divide_right_mono) auto
    then show ?thesis by (simp add: refill_def min_def)
  qed
  then have "level h (sv_peer S) t \<le> level h (sv_peer S) t'" by (simp add: level_def split: option.splits)
  moreover have "buckets_ok h t'" using r le by (fastforce simp: ready_def buckets_ok_def)
  ultimately show ?thesis using r by (auto simp: ready_def)
qed

text \<open>A tip of what is missing makes the balance the price.\<close>

definition tip_of :: "('i, 'o) service \<Rightarrow> uint64 \<Rightarrow> int64 \<Rightarrow> tip" where
  "tip_of S seq n = \<lparr>tip_uid = sv_peer S, tip_matoms = n * matomsPerAtom, tip_seq = seq\<rparr>"

lemma tip_amount: "0 < n \<Longrightarrow> n * matomsPerAtom \<le> max64 \<Longrightarrow> quot64 (n * matomsPerAtom) matomsPerAtom = n"
  by (simp add: quot64_def matomsPerAtom_def wrap64_id max64_def min64_def range64 sgn_mult)

definition due :: "('i, 'o) service \<Rightarrow> string \<Rightarrow> uint64 \<Rightarrow> nat \<Rightarrow> int64 \<Rightarrow> int \<Rightarrow> nat \<Rightarrow> ('i, 'o) hosts \<Rightarrow> bool" where
  "due S k seq n p bal d w \<longleftrightarrow>
     (if d = 0 then ready S k (ho_now w) n p (ho_srv w)
      else ready S k (ho_now w) n bal (ho_srv w) \<and> tips_ready S seq w \<and> ho_mail w = Some (d, tip_of S seq (p - bal)))"

lemma tip_lands:
  assumes "ready S k (ho_now w) n bal (ho_srv w)" "tips_ready S seq w" "bal < p" "p * matomsPerAtom \<le> max64"
  shows "ready S k (ho_now w) n p (ho_srv (tip_arrives (tip_of S seq (p - bal)) w)) \<and>
    Balance (h_billing (ho_srv (tip_arrives (tip_of S seq (p - bal)) w))) = (Balance (h_billing (ho_srv w)))(sv_peer S := p)"
proof -
  let ?t = "tip_of S seq (p - bal)" and ?h = "ho_srv w"
  let ?s = "\<lparr>ts_billing = h_billing ?h, ts_tips = ho_tips w, ts_acked = [], ts_received = []\<rparr> :: ledger tip_server"
  let ?s' = "handle_tip ledger_billing (Allowed ?h) True ?t ?s"
  obtain j where j: "ho_tips w = Some j" "\<not> Seen j seq" and al: "Allowed ?h (sv_peer S)" using assms(2) by (auto simp: tips_ready_def)
  have sound: "ledger_durably (h_billing ?h)" and bal: "Balance (h_billing ?h) (sv_peer S) = bal"
    using assms(1) by (simp_all add: ready_def)
  have bal0: "0 \<le> bal" using durable_ledger.balance_range [OF sound, of "sv_peer S"] bal by (simp add: ledger_billing_def)
  have "(p - bal) * matomsPerAtom \<le> p * matomsPerAtom" using bal0 by (simp add: matomsPerAtom_def)
  then have q: "quot64 (tip_matoms ?t) matomsPerAtom = p - bal"
    using tip_amount [of "p - bal"] assms(3,4) by (simp add: tip_of_def)
  have p: "p \<le> max64" using assms(3,4) bal0 by (simp add: matomsPerAtom_def)
  have "bl_balance ledger_billing (ts_billing ?s) (tip_uid ?t) + max 0 (quot64 (tip_matoms ?t) matomsPerAtom) \<le> max64"
    using assms(3) p bal unfolding q by (simp add: tip_of_def ledger_billing_def)
  note delivered = durable_ledger.delivered [of ?s j ?t "Allowed ?h" True, OF _ _ _ this]
  have "ledger_durably (ts_billing ?s') \<and>
      Balance (ts_billing ?s') u = Balance (h_billing ?h) u + earned (Allowed ?h) u [?t]" for u
    using delivered [of u] sound j by (simp add: tip_of_def ledger_billing_def)
  moreover have "earned (Allowed ?h) u [?t] = (if u = sv_peer S then p - bal else 0)" for u
    using al assms(3) unfolding earned_simps q by (simp add: tip_of_def)
  ultimately have b: "ledger_durably (ts_billing ?s')" "Balance (ts_billing ?s') = (Balance (h_billing ?h))(sv_peer S := p)"
    using bal by (auto simp: fun_eq_iff)
  have "level (?h\<lparr>h_billing := x\<rparr>) = level ?h" "buckets_ok (?h\<lparr>h_billing := x\<rparr>) = buckets_ok ?h" for x
    by (intro ext level_cong buckets_cong; simp)+
  then show ?thesis using assms(1) b by (simp add: tip_arrives_def Let_def ready_def)
qed

text \<open>The balances of the other callers.\<close>

definition others :: "('i, 'o) service \<Rightarrow> ('i, 'o) hosts \<Rightarrow> string \<Rightarrow> int64" where
  "others S w = (Balance (h_billing (ho_srv w)))(sv_peer S := 0)"

lemma post_due:
  assumes "ready S k (ho_now w) n bal (ho_srv w)" "tips_ready S seq w" "bal < p" "p * matomsPerAtom \<le> max64"
  shows "due S k seq n p bal d (post_tip d (tip_of S seq (p - bal)) w) \<and> others S (post_tip d (tip_of S seq (p - bal)) w) = others S w"
proof (cases "d = 0")
  case True
  moreover have "ho_now (tip_arrives t w) = ho_now w" for t by (simp add: tip_arrives_def Let_def)
  ultimately show ?thesis using tip_lands [OF assms] by (simp add: due_def post_tip_def others_def)
next
  case False
  then show ?thesis using assms by (simp add: due_def post_tip_def tips_ready_def others_def)
qed

lemma pause_due:
  assumes "due S k seq n p bal (Suc d) w" "bal < p" "p * matomsPerAtom \<le> max64"
  shows "due S k seq n p bal d (poll_pause w) \<and> others S (poll_pause w) = others S w"
proof -
  let ?w = "w\<lparr>ho_now := ho_now w + creditPollDelay\<rparr>"
  have "ready S k (ho_now ?w) n bal (ho_srv ?w)" "tips_ready S seq ?w"
    using assms(1) ready_later [of S k "ho_now w" n bal "ho_srv w" "ho_now ?w"]
    by (auto simp: due_def tips_ready_def creditPollDelay_def second_def)
  moreover have "others S ?w = others S w" by (simp add: others_def)
  moreover have "poll_pause w = post_tip d (tip_of S seq (p - bal)) ?w"
    using assms(1) by (simp add: poll_pause_def due_def Let_def)
  ultimately show ?thesis using post_due [of S k ?w n bal seq p d] assms(2,3) by simp
qed

lemma post_tip_frame [simp]:
  "ho_dir (post_tip d t w) = ho_dir w" "ho_spend (post_tip d t w) = ho_spend w" "ho_lost (post_tip d t w) = ho_lost w"
  "ho_dir (poll_pause w) = ho_dir w" "ho_spend (poll_pause w) = ho_spend w" "ho_lost (poll_pause w) = ho_lost w"
  by (simp_all add: post_tip_def tip_arrives_def poll_pause_def Let_def split: option.splits)

section \<open>Until the answer\<close>

lemma others_srv: "h_billing h = h_billing (ho_srv w) \<Longrightarrow> others S (w\<lparr>ho_srv := h, ho_lost := l\<rparr>) = others S w"
  by (simp add: others_def)

lemma tips_ready_srv: "tips_ready S seq w \<Longrightarrow> h_allowed h = h_allowed (ho_srv w) \<Longrightarrow> h_cfg h = h_cfg (ho_srv w) \<Longrightarrow>
    tips_ready S seq (w\<lparr>ho_srv := h, ho_lost := l\<rparr>)"
  by (simp add: tips_ready_def Allowed_def split: option.splits)

text \<open>Once the tip is on its way, the call is repeated until the credit has landed.\<close>

lemma paid_phase:
  assumes "serves_at S unmarshal p bal out" "bal < p" "8 \<le> length k" "length k \<le> 128"
    and "due S k seq (Suc d) p bal d w" "polls + d \<le> creditPollTries" "\<not> ho_lost w"
  shows "\<exists>tr w'. paid_loop (two_hosts S uid delay seq) unmarshal k m escrow first True polls cr w =
      (cr\<lparr>cl_res := Some (sv_pack S (None, out, None)), cl_latency := 0\<rparr>, None, tr, w') \<and>
    Balance (h_billing (ho_srv w')) = others S w \<and> ho_dir w' = ho_dir w \<and> ho_spend w' = ho_spend w"
  using assms(5-)
proof (induction d arbitrary: w polls first)
  case 0
  have price: "t_price (sv_tool S) (sv_peer S) (sv_args S) = Inr p" "0 < p" "sv_run S = Inr out"
    using assms(1) by (simp_all add: serves_at_def)
  have "ready S k (ho_now w) (Suc 0) p (ho_srv w)" using 0 by (simp add: due_def)
  then obtain h where "serve_call S (ho_now w) k (ho_srv w) = (h, sv_pack S (None, out, None))"
    "Balance (h_billing h) = (Balance (h_billing (ho_srv w)))(sv_peer S := 0)"
    using serve_executed [OF _ assms(3,4) price(1,2) order.refl price(3)] by force
  then show ?case using 0 parse_outcome [OF assms(1)]
    by (subst paid_loop.simps) (simp add: others_def quot64_def wrap64_def)
next
  case (Suc d)
  have price: "t_price (sv_tool S) (sv_peer S) (sv_args S) = Inr p" "p * matomsPerAtom \<le> max64"
    using assms(1) by (simp_all add: serves_at_def)
  have r: "ready S k (ho_now w) (Suc (Suc d)) bal (ho_srv w)" and t: "tips_ready S seq w"
    and mail: "ho_mail w = Some (Suc d, tip_of S seq (p - bal))" using Suc.prems by (simp_all add: due_def)
  obtain h where h: "serve_call S (ho_now w) k (ho_srv w) =
      (h, sv_pack S (Some (paymentRequiredResult (sv_marshal S) (refusal_of S p bal)), None, None))"
    "ready S k (ho_now w) (Suc d) bal h" "h_allowed h = h_allowed (ho_srv w)" "h_cfg h = h_cfg (ho_srv w)"
    "h_billing h = h_billing (ho_srv w)"
    using serve_refused [OF r assms(3,4) price(1) assms(2)] by blast
  let ?w = "w\<lparr>ho_srv := h, ho_lost := False\<rparr>"
  have "due S k seq (Suc d) p bal (Suc d) ?w"
    using h(2) tips_ready_srv [OF t h(3,4)] mail by (simp add: due_def)
  note pd = pause_due [OF this assms(2) price(2)]
  obtain tr w' where IH: "paid_loop (two_hosts S uid delay seq) unmarshal k m escrow False True (polls + 1) cr (poll_pause ?w) =
      (cr\<lparr>cl_res := Some (sv_pack S (None, out, None)), cl_latency := 0\<rparr>, None, tr, w')"
    "Balance (h_billing (ho_srv w')) = others S (poll_pause ?w)" "ho_dir w' = ho_dir w" "ho_spend w' = ho_spend w"
    using Suc.IH [of "poll_pause ?w" "polls + 1" False] pd Suc.prems by auto
  have "paid_loop (two_hosts S uid delay seq) unmarshal k m escrow first True polls cr w =
      ptraced [PCalled k] (paid_loop (two_hosts S uid delay seq) unmarshal k m escrow False True (polls + 1) cr (poll_pause ?w))"
    using Suc.prems h(1) parse_refusal [OF assms(1)] by (subst paid_loop.simps) simp
  then show ?case using IH pd others_srv [OF h(5)] by (simp add: ptraced_def)
qed

text \<open>The whole loop, from a first call that is answered.\<close>

definition missing :: "int64 \<Rightarrow> int \<Rightarrow> int64" where
  "missing p bal = max 0 (p - bal)"

definition settled :: "('i, 'o) service \<Rightarrow> string \<Rightarrow> int64 \<Rightarrow> int \<Rightarrow> ('i, 'o) hosts \<Rightarrow> ('i, 'o) hosts \<Rightarrow> bool" where
  "settled S uid p bal w w' \<longleftrightarrow>
     Balance (h_billing (ho_srv w')) = (others S w)(sv_peer S := bal + missing p bal - p) \<and>
     Balance (ho_dir w') = (Balance (ho_dir w))(uid := Balance (ho_dir w) uid - missing p bal) \<and>
     map ds_atoms (sj_entries (ho_spend w')) = map ds_atoms (sj_entries (ho_spend w)) @ (if bal < p then [p - bal] else [])"

lemma settles_covered:
  assumes "serves_at S unmarshal p bal out" "p \<le> bal" "8 \<le> length k" "length k \<le> 128"
    and "ready S k (ho_now w) (Suc n) bal (ho_srv w)" "\<not> ho_lost w"
  shows "\<exists>tr w'. paid_loop (two_hosts S uid delay seq) unmarshal k m True first False 0 cr w =
      (cr\<lparr>cl_res := Some (sv_pack S (None, out, None)), cl_latency := 0\<rparr>, None, tr, w') \<and> settled S uid p bal w w'"
proof -
  have price: "t_price (sv_tool S) (sv_peer S) (sv_args S) = Inr p" "0 < p" "sv_run S = Inr out"
    using assms(1) by (simp_all add: serves_at_def)
  obtain h where "serve_call S (ho_now w) k (ho_srv w) = (h, sv_pack S (None, out, None))"
    "Balance (h_billing h) = (Balance (h_billing (ho_srv w)))(sv_peer S := bal - p)"
    using serve_executed [OF assms(5,3,4) price(1,2) assms(2) price(3)] by force
  then show ?thesis using assms(2,6) parse_outcome [OF assms(1)]
    by (subst paid_loop.simps) (simp add: settled_def missing_def others_def quot64_def wrap64_def)
qed

lemma settles_short:
  assumes "serves_at S unmarshal p bal out" "bal < p" "8 \<le> length k" "length k \<le> 128"
    and "ready S k (ho_now w) (Suc (Suc delay)) bal (ho_srv w)" "\<not> ho_lost w" "tips_ready S seq w" "delay \<le> creditPollTries"
    and "ledger_durably (ho_dir w)" "p - bal \<le> Balance (ho_dir w) uid" "p - bal \<le> m" "cl_paid cr = 0"
  shows "\<exists>tr w'. paid_loop (two_hosts S uid delay seq) unmarshal k m True first False 0 cr w =
      (cr\<lparr>cl_paid := p - bal, cl_res := Some (sv_pack S (None, out, None)), cl_latency := 0\<rparr>, None, tr, w') \<and> settled S uid p bal w w'"
proof -
  let ?E = "two_hosts S uid delay seq"
  have price: "t_price (sv_tool S) (sv_peer S) (sv_args S) = Inr p" "0 < p" "p * matomsPerAtom \<le> max64"
    using assms(1) by (simp_all add: serves_at_def)
  have bal0: "0 \<le> bal" using assms(5) durable_ledger.balance_range [of "h_billing (ho_srv w)" "sv_peer S"]
    by (simp add: ready_def ledger_billing_def)
  have p: "p \<le> max64" using price(2,3) by (simp add: matomsPerAtom_def)
  have exact: "sub64 p bal = p - bal" "add64 0 (p - bal) = p - bal"
    using p bal0 assms(2) sub64_exact [of p bal] add64_exact [of 0 "p - bal"] by (simp_all add: range64)
  have amount: "quoted_amount (refusal_of S p bal) = p - bal" using exact assms(2) by (simp add: quoted_amount_def refusal_of_def)
  obtain h where h: "serve_call S (ho_now w) k (ho_srv w) =
      (h, sv_pack S (Some (paymentRequiredResult (sv_marshal S) (refusal_of S p bal)), None, None))"
    "ready S k (ho_now w) (Suc delay) bal h" "h_allowed h = h_allowed (ho_srv w)" "h_cfg h = h_cfg (ho_srv w)"
    "h_billing h = h_billing (ho_srv w)"
    using serve_refused [OF assms(5,3,4) price(1) assms(2)] by blast
  let ?w = "w\<lparr>ho_srv := h, ho_lost := False\<rparr>"
  obtain l where l: "Debit (ho_dir w) uid (p - bal) = (None, l)" "Balance l = (Balance (ho_dir w))(uid := Balance (ho_dir w) uid - (p - bal))"
    using durable_ledger.debit_covered [OF assms(9), of "p - bal" uid] assms(2,10)
    by (cases "Debit (ho_dir w) uid (p - bal)") (simp add: ledger_billing_def)
  let ?e = "\<lparr>ds_ts = unix (ho_now w), ds_uid = uid, ds_tool = t_name (sv_tool S), ds_atoms = p - bal\<rparr>"
  obtain token err j where j: "record_spend ?e (ho_spend w) = ((token, err), j)" by (metis surj_pair)
  have ents: "sj_entries j = sj_entries (ho_spend w) @ [?e]" using record_spend_simps(1) [of ?e "ho_spend w"] j by simp
  let ?w1 = "?w\<lparr>ho_dir := l, ho_spend := j\<rparr>"
  let ?w2 = "post_tip delay (tip_of S seq (p - bal)) ?w1"
  have pay: "pay_once ?E True m (refusal_of S p bal) ?w =
      (Inr (p - bal), [PDebited (p - bal) None, PRecorded token (p - bal), PPaid (p - bal) None False], ?w2)"
    using assms(2,11) l(1) j by (simp add: pay_once_def Let_def amount two_hosts_def tip_of_def)
  have t1: "tips_ready S seq ?w1" using tips_ready_srv [OF assms(7) h(3,4), of False] by (simp add: tips_ready_def)
  have pd: "due S k seq (Suc delay) p bal delay ?w2 \<and> others S ?w2 = others S ?w1"
    by (rule post_due [OF _ t1 assms(2) price(3)]) (use h(2) in simp)
  have "\<exists>tr w'. paid_loop ?E unmarshal k m True False True 0 (cr\<lparr>cl_paid := p - bal\<rparr>) ?w2 =
      (cr\<lparr>cl_paid := p - bal, cl_res := Some (sv_pack S (None, out, None)), cl_latency := 0\<rparr>, None, tr, w') \<and>
    Balance (h_billing (ho_srv w')) = others S ?w2 \<and> ho_dir w' = ho_dir ?w2 \<and> ho_spend w' = ho_spend ?w2"
    using paid_phase [where w = ?w2 and d = delay and polls = 0 and cr = "cr\<lparr>cl_paid := p - bal\<rparr>" and uid = uid and delay = delay
        and escrow = True and first = False and m = m, OF assms(1-4) conjunct1 [OF pd]] assms(8) by simp
  then obtain tr w' where rest: "paid_loop ?E unmarshal k m True False True 0 (cr\<lparr>cl_paid := p - bal\<rparr>) ?w2 =
      (cr\<lparr>cl_paid := p - bal, cl_res := Some (sv_pack S (None, out, None)), cl_latency := 0\<rparr>, None, tr, w')"
    and w': "Balance (h_billing (ho_srv w')) = others S ?w2" "ho_dir w' = ho_dir ?w2" "ho_spend w' = ho_spend ?w2" by blast
  have "others S ?w1 = others S w" using h(5) by (simp add: others_def)
  then have "settled S uid p bal w w'" using w' pd l(2) ents assms(2)
    by (auto simp: settled_def missing_def fun_eq_iff) (simp_all add: others_def)
  moreover have "paid_loop ?E unmarshal k m True first False 0 cr w = ptraced (PCalled k #
      [PDebited (p - bal) None, PRecorded token (p - bal), PPaid (p - bal) None False])
      (paid_loop ?E unmarshal k m True False True 0 (cr\<lparr>cl_paid := p - bal\<rparr>) ?w2)"
    using assms(6,12) h(1) parse_refusal [OF assms(1)] pay exact(2) by (subst paid_loop.simps) simp
  ultimately show ?thesis using rest by (simp add: ptraced_def)
qed

text \<open>A lost first answer costs one call, never money.\<close>

lemma ready_fewer: "ready S k t n bal h \<Longrightarrow> m \<le> n \<Longrightarrow> ready S k t m bal h"
  by (auto simp: ready_def intro: order_trans [of "of_nat m :: rat" "of_nat n"])

lemma redial:
  assumes "ho_lost w" "serve_call S (ho_now w) k (ho_srv w) = (h, res)"
  shows "paid_loop (two_hosts S uid delay seq) unmarshal k m True True False 0 cr w =
    ptraced [PCalled k] (paid_loop (two_hosts S uid delay seq) unmarshal k m True False False 0 cr (w\<lparr>ho_srv := h, ho_lost := False\<rparr>))"
  using assms by (subst paid_loop.simps) simp

lemma settles:
  assumes "serves_at S unmarshal p bal out" "8 \<le> length k" "length k \<le> 128"
    and "ready S k (ho_now w) 9 bal (ho_srv w)" "tips_ready S seq w" "delay \<le> 6"
    and "ledger_durably (ho_dir w)" "missing p bal \<le> Balance (ho_dir w) uid" "missing p bal \<le> m" "cl_paid cr = 0"
  shows "\<exists>tr w'. paid_loop (two_hosts S uid delay seq) unmarshal k m True True False 0 cr w =
      (cr\<lparr>cl_paid := missing p bal, cl_res := Some (sv_pack S (None, out, None)), cl_latency := 0\<rparr>, None, tr, w') \<and>
    settled S uid p bal w w'"
proof -
  have price: "t_price (sv_tool S) (sv_peer S) (sv_args S) = Inr p" "0 < p" "sv_run S = Inr out"
    using assms(1) by (simp_all add: serves_at_def)
  have same: "cr\<lparr>cl_paid := 0, cl_res := x, cl_latency := y\<rparr> = cr\<lparr>cl_res := x, cl_latency := y\<rparr>" for x y
    using assms(10) by (cases cr) simp
  have nine: "ready S k (ho_now w) (Suc 8) bal (ho_srv w)" using assms(4) by simp
  have few: "ready S k t 8 bal h \<Longrightarrow> ready S k t (Suc (Suc delay)) bal h" for t h using assms(6) by (auto elim: ready_fewer)
  consider (covered) "p \<le> bal" "\<not> ho_lost w" | (short) "bal < p" "\<not> ho_lost w" | (covered_lost) "p \<le> bal" "ho_lost w"
    | (short_lost) "bal < p" "ho_lost w" by linarith
  then show ?thesis
  proof cases
    case covered
    then show ?thesis using settles_covered [OF assms(1) _ assms(2,3) nine, where cr = cr] by (simp add: missing_def same)
  next
    case short
    then show ?thesis
      using settles_short [OF assms(1) short(1) assms(2,3) few [OF ready_fewer [OF assms(4)]] short(2) assms(5), where cr = cr]
        assms(6-10) by (simp add: missing_def creditPollTries_def)
  next
    case covered_lost
    obtain h where h: "serve_call S (ho_now w) k (ho_srv w) = (h, sv_pack S (None, out, None))"
      "kept S k out (ho_now w + callKeyTTL) h" "Balance (h_billing h) = (Balance (h_billing (ho_srv w)))(sv_peer S := bal - p)"
      using serve_executed [OF nine assms(2,3) price(1,2) covered_lost(1) price(3)] by blast
    let ?w = "w\<lparr>ho_srv := h, ho_lost := False\<rparr>"
    obtain h2 where h2: "serve_call S (ho_now w) k h = (h2, sv_pack S (None, out, None))" "h_billing h2 = h_billing h"
      using serve_replayed [OF h(2) _ assms(2,3), of "ho_now w"] by (auto simp: callKeyTTL_def durations)
    have "paid_loop (two_hosts S uid delay seq) unmarshal k m True False False 0 cr ?w =
        (cr\<lparr>cl_res := Some (sv_pack S (None, out, None)), cl_latency := 0\<rparr>, None, [PCalled k], ?w\<lparr>ho_srv := h2\<rparr>)"
      using h2(1) parse_outcome [OF assms(1)] by (subst paid_loop.simps) (simp add: quot64_def wrap64_def)
    moreover have "settled S uid p bal w (?w\<lparr>ho_srv := h2\<rparr>)"
      using h(3) h2(2) covered_lost(1) by (simp add: settled_def missing_def others_def)
    ultimately show ?thesis using covered_lost h(1) redial [OF covered_lost(2) h(1)]
      by (simp add: ptraced_def missing_def same)
  next
    case short_lost
    obtain h where h: "serve_call S (ho_now w) k (ho_srv w) =
        (h, sv_pack S (Some (paymentRequiredResult (sv_marshal S) (refusal_of S p bal)), None, None))"
      "ready S k (ho_now w) 8 bal h" "h_allowed h = h_allowed (ho_srv w)" "h_cfg h = h_cfg (ho_srv w)"
      "h_billing h = h_billing (ho_srv w)"
      using serve_refused [OF nine assms(2,3) price(1) short_lost(1)] by blast
    let ?w = "w\<lparr>ho_srv := h, ho_lost := False\<rparr>"
    have "\<exists>tr w'. paid_loop (two_hosts S uid delay seq) unmarshal k m True False False 0 cr ?w =
        (cr\<lparr>cl_paid := p - bal, cl_res := Some (sv_pack S (None, out, None)), cl_latency := 0\<rparr>, None, tr, w') \<and>
      settled S uid p bal ?w w'"
      by (rule settles_short [OF assms(1) short_lost(1) assms(2,3) few _ tips_ready_srv [OF assms(5) h(3,4)]])
        (use h(2) assms(6-10) short_lost in \<open>simp_all add: missing_def creditPollTries_def\<close>)
    moreover have "settled S uid p bal ?w w' = settled S uid p bal w w'" for w'
      using others_srv [OF h(5)] by (simp add: settled_def)
    ultimately show ?thesis using short_lost redial [OF short_lost(2) h(1)] by (auto simp: ptraced_def missing_def)
  qed
qed

section \<open>Properties\<close>

text \<open>
  C12: A paid test settles exactly. Let a provider serve the nominated tool for \<open>p\<close> atoms, and the directory have \<open>bal\<close>
  atoms there; let its deposit and the budget of the registration cover what is missing, the tip arrive within six pauses, and the
  first answer get through or be lost. Then the test passes; the deposit and the registration are charged exactly
  what is missing; the provider's ledger received exactly that and took the price once; no other balance on either
  side changes; and the journal of payments has one more entry, of that amount, if anything was missing.
\<close>

theorem paid_test_settles:
  assumes "serves_at S unmarshal p bal out" "8 \<le> length (r_callKey reg)" "length (r_callKey reg) \<le> 128"
    and "ready S (r_callKey reg) (ho_now w) 9 bal (ho_srv w)" "tips_ready S seq w" "delay \<le> 6"
    and "ledger_durably (ho_dir w)" "missing p bal \<le> Balance (ho_dir w) uid" "missing p bal \<le> remaining reg"
    and "0 \<le> r_paid reg" "r_paid reg + missing p bal \<le> max64"
    and "runTest (two_hosts S uid delay seq) unmarshal reg w = ((r, passed), tr, w')"
  shows "passed \<and> r_outcome r = ''ok'' \<and> r_paid r = r_paid reg + missing p bal \<and>
    Balance (ho_dir w') = (Balance (ho_dir w))(uid := Balance (ho_dir w) uid - missing p bal) \<and>
    Balance (h_billing (ho_srv w')) = (Balance (h_billing (ho_srv w)))(sv_peer S := bal + missing p bal - p) \<and>
    map ds_atoms (sj_entries (ho_spend w')) = map ds_atoms (sj_entries (ho_spend w)) @ (if bal < p then [p - bal] else [])"
proof -
  obtain tr' w'' where run: "paid_loop (two_hosts S uid delay seq) unmarshal (r_callKey reg) (remaining reg) True True False 0 no_result w =
      (no_result\<lparr>cl_paid := missing p bal, cl_res := Some (sv_pack S (None, out, None)), cl_latency := 0\<rparr>, None, tr', w'')"
    and st: "settled S uid p bal w w''"
    using settles [OF assms(1-9), of no_result] by (auto simp: no_result_def)
  have "add64 (r_paid reg) (missing p bal) = r_paid reg + missing p bal"
    using assms(10,11) by (intro add64_exact) (simp add: range64 missing_def)
  moreover have "\<not> cr_isError (sv_pack S (None, out, None))" using assms(1) by (simp add: serves_at_def)
  moreover have "w' = w''" "r = tested reg (no_result\<lparr>cl_paid := missing p bal, cl_res := Some (sv_pack S (None, out, None)), cl_latency := 0\<rparr>) None"
    "passed = (r_outcome r = ''ok'')"
    using assms(12) run by (auto simp: runTest_def paidCall_def Let_def)
  ultimately show ?thesis using st by (auto simp: tested_def Let_def settled_def others_def)
qed

text \<open>A tool for 7 atoms, of which the directory has 3 at the provider; the first answer is lost, and the tip takes four pauses.\<close>

definition demo_service :: "(unit, string) service" where
  "demo_service = \<lparr>sv_codec = demo_call_codec, sv_marshal = \<lambda>pr. if pr_shortfall pr = 4 then Some ''short'' else None,
     sv_pack = \<lambda>(r, out, err). (case r of Some r \<Rightarrow> r | None \<Rightarrow> \<lparr>cr_isError = err \<noteq> None, cr_content = [TextContent ''done'']\<rparr>),
     sv_peer = ''dir'', sv_tool = demo_tool\<lparr>t_price := \<lambda>_ _. Inr 7\<rparr>, sv_args = (), sv_run = Inr (Some (Value ''out''))\<rparr>"

definition demo_hosts :: "(unit, string) hosts" where
  "demo_hosts = \<lparr>ho_srv = demo_harness\<lparr>h_cfg := (h_cfg demo_harness)\<lparr>hc_callsPerMinute := 10\<rparr>, h_allowed := [''dir''],
       h_billing := \<lparr>ld_balances = [(''dir'', 3)], ld_store = \<lparr>st_file = Holds [(''dir'', 3)], st_script = []\<rparr>\<rparr>\<rparr>,
     ho_tips = Some \<lparr>tj_seqs = [], tj_seen = {}, tj_store = \<lparr>st_file = Absent, st_script = []\<rparr>\<rparr>, ho_now = 0,
     ho_dir = \<lparr>ld_balances = [(''prov'', 50)], ld_store = \<lparr>st_file = Holds [(''prov'', 50)], st_script = []\<rparr>\<rparr>,
     ho_spend = \<lparr>sj_entries = [], sj_store = \<lparr>st_file = Absent, st_script = []\<rparr>\<rparr>, ho_lost = True, ho_mail = None\<rparr>"

definition demo_reads :: "string \<Rightarrow> PaymentRequired option" where
  "demo_reads s = Some (refusal_of demo_service 7 3)"

definition demo_testing :: Registration where
  "demo_testing = \<lparr>r_state = RegTesting, r_description = ''d'', r_tags = [], r_test = \<lparr>ts_tool = ''tool'', ts_args = None, ts_max = 20\<rparr>,
     r_fee = 0, r_budget = 20, r_callKey = ''0123456789'', r_paid = 0, r_renewal = False, r_created = 0, r_catalog = None,
     r_outcome = '''', r_err = '''', r_latency = 0\<rparr>"

lemma paid_test_settles_witness:
  "\<exists>r tr w. runTest (two_hosts demo_service ''prov'' 4 9) demo_reads demo_testing demo_hosts = ((r, True), tr, w) \<and> r_paid r = 4 \<and>
     Balance (ho_dir w) ''prov'' = 46 \<and> Balance (h_billing (ho_srv w)) ''dir'' = 0"
proof -
  obtain r passed tr w where run: "runTest (two_hosts demo_service ''prov'' 4 9) demo_reads demo_testing demo_hosts = ((r, passed), tr, w)"
    by (metis surj_pair)
  note defs = demo_service_def demo_hosts_def demo_harness_def demo_tool_def demo_testing_def
  have "serves_at demo_service demo_reads 7 3 (Some (Value ''out''))"
    by (simp add: serves_at_def demo_reads_def refusal_of_def max64_def matomsPerAtom_def sub64_exact range64 min64_def) (simp add: defs)
  moreover have "ready demo_service (r_callKey demo_testing) (ho_now demo_hosts) 9 3 (ho_srv demo_hosts)"
    by (simp add: ready_def defs ledger_sound_def ledger_ok_def ledger_synced_iff open_file_def Balance_def max64_def buckets_ok_def level_def
      gint_def)
  moreover have "tips_ready demo_service 9 demo_hosts" by (simp add: tips_ready_def defs Allowed_def Seen_def)
  moreover have "ledger_durably (ho_dir demo_hosts)"
    by (simp add: defs ledger_sound_def ledger_ok_def ledger_synced_iff open_file_def Balance_def max64_def gint_def)
  moreover have "remaining demo_testing = 20" "r_paid demo_testing = 0" "Balance (ho_dir demo_hosts) ''prov'' = 50" "8 \<le> length (r_callKey demo_testing)"
    "length (r_callKey demo_testing) \<le> 128" by code_simp+
  ultimately show ?thesis
    using paid_test_settles [OF _ _ _ _ _ _ _ _ _ _ _ run, where p = 7 and bal = 3] run
    by (simp add: missing_def max64_def demo_service_def)
qed

end
