(* ===== verification/Dialing.thy ===== *)
theory Dialing
  imports Router
begin

text \<open>
  Opening a client session and listing a provider's tools, \<^verbatim>\<open>dialPeer\<close> and \<^verbatim>\<open>crawl\<close> of \<^verbatim>\<open>directory/client.go\<close>, over the
  router of \<open>Router\<close>. What the SDK does with the connection is an argument; that it, and whatever else goes on
  meanwhile, acts on the network by steps of \<open>net_step\<close> is the hypothesis \<open>sdk_ok\<close>.
\<close>

section \<open>Operations\<close>

definition close_session :: "nat \<Rightarrow> 'm net \<Rightarrow> 'm net" where
  "close_session i s = s\<lparr>n_router := conn_close i (n_router s)\<rparr>"

text \<open>What the SDK does: \<^verbatim>\<open>Client.Connect\<close>, \<^verbatim>\<open>session.ListTools\<close>, \<^verbatim>\<open>session.Close\<close>.\<close>

record ('m, 't) sdk =
  sd_connect :: "nat \<Rightarrow> 'm net \<Rightarrow> string option \<times> 'm net"
  sd_list :: "nat \<Rightarrow> 'm net \<Rightarrow> (string + 't) \<times> 'm net"
  sd_close :: "nat \<Rightarrow> 'm net \<Rightarrow> 'm net"

text \<open>\<open>None\<close> is a service that has not been started. The result is the error or the connection.\<close>

definition dialPeer :: "('m, 't) sdk \<Rightarrow> string \<Rightarrow> instant \<Rightarrow> byte list \<Rightarrow> 'm net option \<Rightarrow> (string + nat) \<times> 'm net option" where
  "dialPeer K uid now rnd router = (case router of
     None \<Rightarrow> (Inl ''no router; not started'', None)
   | Some s \<Rightarrow>
       (case Dial (n_router s) now uid rnd of
          (r, None) \<Rightarrow> (Inl ''brmcp: router closed'', Some (s\<lparr>n_router := r\<rparr>))
        | (r, Some i) \<Rightarrow>
            (case sd_connect K i (s\<lparr>n_router := r\<rparr>) of
               (Some e, s) \<Rightarrow> (Inl (''connect to '' @ take 8 uid @ '': '' @ e), Some (close_session i s))
             | (None, s) \<Rightarrow> (Inr i, Some s))))"

definition dial_cleanup :: "('m, 't) sdk \<Rightarrow> nat \<Rightarrow> 'm net \<Rightarrow> 'm net" where
  "dial_cleanup K i s = close_session i (sd_close K i s)"

definition crawl :: "('m, 't) sdk \<Rightarrow> ('t \<Rightarrow> string option) \<Rightarrow> string \<Rightarrow> instant \<Rightarrow> byte list \<Rightarrow> 'm net option \<Rightarrow>
    (string + string) \<times> 'm net option" where
  "crawl K marshal uid now rnd router = (case dialPeer K uid now rnd router of
     (Inl e, n) \<Rightarrow> (Inl e, n)
   | (Inr i, None) \<Rightarrow> (Inl '''', None)
   | (Inr i, Some s) \<Rightarrow>
       (case sd_list K i s of (listed, s) \<Rightarrow>
         ((case listed of
             Inl e \<Rightarrow> Inl (''list tools: '' @ e)
           | Inr tools \<Rightarrow> (case marshal tools of None \<Rightarrow> Inl ''json: marshal'' | Some raw \<Rightarrow> Inr raw)),
          Some (dial_cleanup K i s))))"

section \<open>Connections stay what they are\<close>

definition same_end :: "'m conn \<Rightarrow> 'm conn \<Rightarrow> bool" where
  "same_end c c' \<longleftrightarrow> cn_peer c' = cn_peer c \<and> cn_sid c' = cn_sid c \<and> cn_dialed c' = cn_dialed c \<and>
     (cn_state c = Closed \<longrightarrow> cn_state c' = Closed)"

definition conns_kept :: "'m router \<Rightarrow> 'm router \<Rightarrow> bool" where
  "conns_kept r r' \<longleftrightarrow> length (r_conns r) \<le> length (r_conns r') \<and>
     (\<forall>i < length (r_conns r). same_end (r_conns r ! i) (r_conns r' ! i))"

lemma conns_kept_refl [simp, intro]: "conns_kept r r"
  by (simp add: conns_kept_def same_end_def)

lemma conns_kept_trans: "conns_kept r r1 \<Longrightarrow> conns_kept r1 r2 \<Longrightarrow> conns_kept r r2"
  by (auto simp: conns_kept_def same_end_def)

lemma conns_kept_cong: "r_conns r' = r_conns r \<Longrightarrow> conns_kept r r'"
  by (simp add: conns_kept_def same_end_def)

lemma conns_kept_set: "i < length (r_conns r) \<Longrightarrow> same_end (r_conns r ! i) c \<Longrightarrow> conns_kept r (set_conn i c r)"
  by (auto simp: conns_kept_def same_end_def nth_list_update)

lemma kept_touch: "i < length (r_conns r) \<Longrightarrow> conns_kept r (touch i now r)"
  unfolding touch_def by (rule conns_kept_set) (simp_all add: same_end_def)

lemma kept_close: "i < length (r_conns r) \<Longrightarrow> conns_kept r (close_done i r)" "i < length (r_conns r) \<Longrightarrow> conns_kept r (onClose i r)"
proof -
  assume i: "i < length (r_conns r)"
  show "conns_kept r (close_done i r)" using i by (auto simp: close_done_def same_end_def intro: conns_kept_set)
  have "conns_kept r (set_conn i ((r_conns r ! i)\<lparr>cn_state := Closed\<rparr>) r)" by (rule conns_kept_set [OF i]) (simp add: same_end_def)
  moreover have "conns_kept r1 (r1\<lparr>r_sessions := x, r_peers := y\<rparr>)" for r1 :: "'a router" and x y by (rule conns_kept_cong) simp
  ultimately show "conns_kept r (onClose i r)" by (auto simp: onClose_def Let_def intro: conns_kept_trans)
qed

lemma kept_conn_close: "i < length (r_conns r) \<Longrightarrow> conns_kept r (conn_close i r)"
  unfolding conn_close_def by (rule conns_kept_trans [OF kept_close(1) kept_close(2)]) simp_all

lemma kept_new: "conns_kept r (fst (newConnLocked r now peer sid dialed))"
  by (auto simp: newConnLocked_def Let_def conns_kept_def same_end_def nth_append)

lemma kept_read: "i < length (r_conns r) \<Longrightarrow> conns_kept r (fst (conn_read i cancelled pick r))"
proof -
  assume i: "i < length (r_conns r)"
  define ready where "ready = (case cn_inbox (r_conns r ! i) of [] \<Rightarrow> []
        | m # ms \<Rightarrow> [(set_conn i ((r_conns r ! i)\<lparr>cn_inbox := ms\<rparr>) r, Got m)]) @
      (if cn_state (r_conns r ! i) \<noteq> Open then [(r, EOF)] else []) @ (if cancelled then [(r, CtxDone)] else [])"
  have set: "conns_kept r (set_conn i ((r_conns r ! i)\<lparr>cn_inbox := ms\<rparr>) r)" for ms
    by (rule conns_kept_set [OF i]) (simp add: same_end_def)
  have "conns_kept r (fst x)" if "x \<in> set ready" for x
    using that set by (auto simp: ready_def split: list.splits if_splits)
  moreover have "conn_read i cancelled pick r = (if ready = [] then (r, Blocks) else ready ! (pick mod length ready))"
    by (simp only: conn_read_def Let_def ready_def)
  ultimately show ?thesis by simp
qed

lemma kept_deliver: "i < length (r_conns r) \<Longrightarrow> conns_kept r (deliver i isNew m now lucky r)"
proof -
  assume i: "i < length (r_conns r)"
  define r1 where "r1 = (if isNew then (touch i now r)\<lparr>r_accepted := r_accepted (touch i now r) @ [i]\<rparr> else touch i now r)"
  have r1: "conns_kept r r1" "i < length (r_conns r1)"
    using kept_touch [OF i, of now] i by (auto simp: r1_def conns_kept_def)
  have eq: "deliver i isNew m now lucky r = (let c = r_conns r1 ! i;
      room = int (length (cn_inbox c)) < rc_inboxSize (r_cfg r1); closed = (cn_state c \<noteq> Open)
      in if room \<and> (\<not> closed \<or> lucky) then set_conn i (c\<lparr>cn_inbox := cn_inbox c @ [m]\<rparr>) r1
         else if closed then r1 else conn_close i r1)"
    by (simp only: deliver_def Let_def r1_def)
  have "conns_kept r1 (set_conn i (c\<lparr>cn_inbox := ms\<rparr>) r1)" if "c = r_conns r1 ! i" for c ms
    using that r1(2) by (auto simp: same_end_def intro: conns_kept_set)
  then show ?thesis unfolding eq Let_def using r1 kept_conn_close [OF r1(2)] by (auto intro: conns_kept_trans)
qed

lemma kept_route: "route r peer sid now = (r', res) \<Longrightarrow> conns_kept r r'"
  using kept_new [of r now peer sid False] by (auto simp: route_def split_beta split: if_splits option.splits)

lemma kept_step: "net_step dec s l s' \<Longrightarrow> net_ok s \<Longrightarrow> conns_kept (n_router s) (n_router s')"
proof (induction rule: net_step.induct)
  case (ignored s peer body now r)
  then show ?case using receive_ok [OF ignored.hyps] by (simp add: conns_kept_cong)
next
  case (dropped s peer body now r sid m r')
  then show ?case
    using conns_kept_trans [OF conns_kept_cong kept_route [OF dropped.hyps(2)]] receive_ok [OF dropped.hyps(1)] by simp
next
  case (routed s peer body now r sid m r' i isNew)
  then show ?case
    using conns_kept_trans [OF conns_kept_cong kept_route [OF routed.hyps(2)]] receive_ok [OF routed.hyps(1)] by simp
next
  case (delivered k s i isNew m now lucky)
  then have "i < length (r_conns (n_router s))" using nth_mem by (fastforce simp: net_ok_def)
  then show ?case by (simp add: kept_deliver)
next
  case (dialed s peer rnd now)
  then show ?case using kept_new [of "n_router s" now peer "NewID rnd" True] by (simp add: Dial_def split_beta)
qed (auto simp: kept_close kept_read conns_kept_cong)

text \<open>Any number of steps, whoever takes them.\<close>

definition net_moves :: "(byte list \<Rightarrow> 'm option) \<Rightarrow> 'm net \<Rightarrow> 'm net \<Rightarrow> bool" where
  "net_moves dec = (\<lambda>s s'. \<exists>l. net_step dec s l s')\<^sup>*\<^sup>*"

lemma moves_kept: "net_moves dec s s' \<Longrightarrow> net_ok s \<Longrightarrow> net_ok s' \<and> conns_kept (n_router s) (n_router s')"
  unfolding net_moves_def
  by (induction rule: rtranclp_induct) (auto intro: net_ok_step conns_kept_trans kept_step)

definition sdk_ok :: "(byte list \<Rightarrow> 'm option) \<Rightarrow> ('m, 't) sdk \<Rightarrow> bool" where
  "sdk_ok dec K \<longleftrightarrow> (\<forall>i s. net_moves dec s (snd (sd_connect K i s)) \<and> net_moves dec s (snd (sd_list K i s)) \<and>
     net_moves dec s (sd_close K i s))"

section \<open>Nothing is left open\<close>

text \<open>Connection \<open>i\<close> is closed and no session leads to it.\<close>

definition gone :: "nat \<Rightarrow> 'm net \<Rightarrow> bool" where
  "gone i s \<longleftrightarrow> cn_state (r_conns (n_router s) ! i) = Closed \<and> (\<forall>key. map_of (r_sessions (n_router s)) key \<noteq> Some i)"

lemma conn_close_closed:
  "i < length (r_conns r) \<Longrightarrow> cn_state (r_conns (conn_close i r) ! i) = Closed"
  by (cases "cn_state (r_conns r ! i)") (simp_all add: conn_close_def close_done_def onClose_def Let_def)

lemma close_session_gone:
  assumes "net_ok s" "i < length (r_conns (n_router s))"
  shows "net_ok (close_session i s) \<and> gone i (close_session i s) \<and> conns_kept (n_router s) (n_router (close_session i s))"
proof -
  have ok: "router_ok (conn_close i (n_router s))" using assms by (auto simp: net_ok_def conn_close_ok)
  then have "gone i (close_session i s)"
    using conn_close_closed [OF assms(2)] by (auto simp: gone_def close_session_def router_ok_def)
  then show ?thesis using ok assms kept_conn_close [OF assms(2)] by (auto simp: net_ok_def close_session_def)
qed

lemma dial_cases:
  assumes "sdk_ok dec K" "net_ok s" "map_of (r_sessions (n_router s)) (uid @ ''/'' @ NewID rnd) = None"
    and "dialPeer K uid now rnd (Some s) = (res, n)"
  shows "\<exists>s'. n = Some s' \<and> net_ok s' \<and> conns_kept (n_router s) (n_router s') \<and>
    (if r_closed (n_router s) then res = Inl ''brmcp: router closed'' \<and> s' = s
     else length (r_conns (n_router s)) < length (r_conns (n_router s')) \<and>
       cn_peer (r_conns (n_router s') ! length (r_conns (n_router s))) = uid \<and>
       (case res of Inl e \<Rightarrow> gone (length (r_conns (n_router s))) s' | Inr i \<Rightarrow> i = length (r_conns (n_router s))))"
proof (cases "r_closed (n_router s)")
  case True
  then show ?thesis using assms(2,4) by (auto simp: dialPeer_def Dial_def)
next
  case False
  let ?i = "length (r_conns (n_router s))" and ?r = "fst (newConnLocked (n_router s) now uid (NewID rnd) True)"
  have ok: "router_ok (n_router s)" using assms(2) by (simp add: net_ok_def)
  note new = newConn_ok [OF ok assms(3), of True now]
  let ?s = "s\<lparr>n_router := ?r\<rparr>"
  have s: "net_ok ?s" "conns_kept (n_router s) (n_router ?s)" "length (r_conns (n_router ?s)) = Suc ?i"
    using new assms(2) kept_new by (fastforce simp: net_ok_def)+
  have peer: "cn_peer (r_conns (n_router ?s) ! ?i) = uid" by (simp add: newConnLocked_def Let_def)
  obtain e s1 where c: "sd_connect K ?i ?s = (e, s1)" by fastforce
  have "net_moves dec ?s s1" using assms(1) c unfolding sdk_ok_def by (metis snd_conv)
  then have s1: "net_ok s1" "conns_kept (n_router ?s) (n_router s1)" using moves_kept s(1) by blast+
  then have i: "?i < length (r_conns (n_router s1))" "cn_peer (r_conns (n_router s1) ! ?i) = uid"
    using s(3) peer by (auto simp: conns_kept_def same_end_def)
  note close = close_session_gone [OF s1(1) i(1)]
  have kept: "conns_kept (n_router s) (n_router s1)" using s(2) s1(2) by (rule conns_kept_trans)
  have d: "Dial (n_router s) now uid rnd = (?r, Some ?i)" using False new(2) by (simp add: Dial_def split_beta)
  show ?thesis
  proof (cases e)
    case None
    then have "res = Inr ?i" "n = Some s1" using assms(4) c d by (simp_all add: dialPeer_def)
    then show ?thesis using False s1 i kept by simp
  next
    case (Some x)
    then have n: "n = Some (close_session ?i s1)" and res: "\<exists>y. res = Inl y" using assms(4) c d by (auto simp: dialPeer_def)
    moreover have "conns_kept (n_router s) (n_router (close_session ?i s1))" using kept close by (blast intro: conns_kept_trans)
    ultimately show ?thesis using False close i by (auto simp: conns_kept_def same_end_def)
  qed
qed

lemma gone_later:
  assumes "gone i s" "i < length (r_conns (n_router s))" "conns_kept (n_router s) (n_router s')" "net_ok s'"
  shows "gone i s'"
proof -
  have "cn_state (r_conns (n_router s') ! i) = Closed" using assms(1-3) by (simp add: gone_def conns_kept_def same_end_def)
  then show ?thesis using assms(4) by (auto simp: gone_def net_ok_def router_ok_def)
qed

section \<open>Properties\<close>

text \<open>
  C15: Listing a provider's tools leaves no session behind. Whatever the SDK does with the connection and whatever arrives or
  is closed meanwhile, when \<^verbatim>\<open>crawl\<close> returns, with a catalog or with any error, the connection that it dialed is closed
  and no session of the router leads to it, the sessions of all peers are counted exactly, and every other connection
  still belongs to its peer; on a closed router nothing happens at all. Only a successful listing yields a catalog.
\<close>

theorem crawl_leaves_no_session:
  assumes "sdk_ok dec K" "net_reachable dec cfg s" "map_of (r_sessions (n_router s)) (uid @ ''/'' @ NewID rnd) = None"
    and "crawl K marshal uid now rnd (Some s) = (res, n)"
  shows "\<exists>s'. n = Some s' \<and> (if r_closed (n_router s) then s' = s \<and> res = Inl ''brmcp: router closed''
       else cn_state (r_conns (n_router s') ! length (r_conns (n_router s))) = Closed \<and>
         (\<forall>key. map_of (r_sessions (n_router s')) key \<noteq> Some (length (r_conns (n_router s))))) \<and>
    (\<forall>p. gint (r_peers (n_router s')) p = open_of (r_conns (n_router s')) p) \<and> conns_kept (n_router s) (n_router s') \<and>
    (\<forall>raw. res = Inr raw \<longrightarrow> (\<exists>s1 tools. fst (sd_list K (length (r_conns (n_router s))) s1) = Inr tools \<and> marshal tools = Some raw))"
proof -
  let ?i = "length (r_conns (n_router s))"
  have ok: "net_ok s" by (rule net_ok_reachable [OF assms(2)])
  obtain d n1 where d: "dialPeer K uid now rnd (Some s) = (d, n1)" by fastforce
  obtain s1 where s1: "n1 = Some s1" "net_ok s1" "conns_kept (n_router s) (n_router s1)"
    and cases: "if r_closed (n_router s) then d = Inl ''brmcp: router closed'' \<and> s1 = s
     else ?i < length (r_conns (n_router s1)) \<and> cn_peer (r_conns (n_router s1) ! ?i) = uid \<and>
       (case d of Inl e \<Rightarrow> gone ?i s1 | Inr i \<Rightarrow> i = ?i)"
    using dial_cases [OF assms(1) ok assms(3) d] by blast
  have peers: "gint (r_peers (n_router s')) p = open_of (r_conns (n_router s')) p" if "net_ok s'" for s' p
    using that by (simp add: net_ok_def router_ok_def)
  show ?thesis
  proof (cases d)
    case (Inl e)
    then have "n = Some s1" "res = Inl e" using assms(4) d s1(1) by (simp_all add: crawl_def)
    then show ?thesis using cases s1 peers Inl by (auto simp: gone_def)
  next
    case (Inr j)
    then have i: "j = ?i" "\<not> r_closed (n_router s)" "?i < length (r_conns (n_router s1))" using cases by (auto split: if_splits)
    obtain listed s2 where l: "sd_list K ?i s1 = (listed, s2)" by fastforce
    let ?s3 = "sd_close K ?i s2"
    have "net_moves dec s1 s2" using assms(1) l unfolding sdk_ok_def by (metis snd_conv)
    then have s2: "net_ok s2" "conns_kept (n_router s1) (n_router s2)" using moves_kept s1(2) by blast+
    have "net_moves dec s2 ?s3" using assms(1) by (simp add: sdk_ok_def)
    then have s3: "net_ok ?s3" "conns_kept (n_router s2) (n_router ?s3)" using moves_kept s2(1) by blast+
    then have i3: "?i < length (r_conns (n_router ?s3))" using i(3) s2(2) by (simp add: conns_kept_def)
    note close = close_session_gone [OF s3(1) i3]
    have kept: "conns_kept (n_router s) (n_router (close_session ?i ?s3))"
      using conns_kept_trans [OF conns_kept_trans [OF s1(3) s2(2)] conns_kept_trans [OF s3(2)]] close by blast
    have n: "n = Some (close_session ?i ?s3)" using assms(4) d s1(1) l Inr i(1)
      by (simp add: crawl_def dial_cleanup_def)
    have "\<exists>s1 tools. fst (sd_list K ?i s1) = Inr tools \<and> marshal tools = Some raw" if "res = Inr raw" for raw
      using assms(4) d s1(1) l Inr i(1) that
      by (auto simp: crawl_def intro!: exI [of _ s1] split: sum.splits option.splits)
    then show ?thesis using n kept close peers i(2) by (auto simp: gone_def)
  qed
qed

text \<open>An SDK whose listing fails after the session was already closed under it.\<close>

definition demo_sdk :: "(nat, string) sdk" where
  "demo_sdk = \<lparr>sd_connect = \<lambda>i s. (None, s), sd_list = \<lambda>i s. (if i < length (r_conns (n_router s)) then (Inl ''EOF'', s\<lparr>n_router := close_done i (n_router s)\<rparr>) else (Inr ''tools'', s)),
     sd_close = \<lambda>i s. s\<rparr>"

lemma crawl_leaves_no_session_witness:
  "\<exists>s'. crawl demo_sdk Some ''peer'' 5 (replicate 8 9) (Some demo_net) = (Inl ''list tools: EOF'', Some s') \<and>
    cn_state (r_conns (n_router s') ! length (r_conns (n_router demo_net))) = Closed"
proof -
  have c: "net_moves demo_dec s (s\<lparr>n_router := close_done i (n_router s)\<rparr>)" if "i < length (r_conns (n_router s))" for i and s :: "nat net"
    unfolding net_moves_def using net_step.close [OF that] by (blast intro: r_into_rtranclp)
  then have sdk: "sdk_ok demo_dec demo_sdk" by (auto simp: sdk_ok_def demo_sdk_def net_moves_def)
  obtain res n where r: "crawl demo_sdk Some ''peer'' 5 (replicate 8 9) (Some demo_net) = (res, n)" by fastforce
  have e: "(case crawl demo_sdk Some ''peer'' 5 (replicate 8 9) (Some demo_net) of (res, n) \<Rightarrow>
      res = Inl ''list tools: EOF'' \<and> \<not> r_closed (n_router demo_net))" by code_simp
  have "map_of (r_sessions (n_router demo_net)) (''peer'' @ ''/'' @ NewID (replicate 8 9)) = None" by code_simp
  from crawl_leaves_no_session [OF sdk demo_net_reachable this r] r e show ?thesis by auto
qed

end
