(* ===== verification/Fabric.thy ===== *)
theory Fabric
  imports Router Payment
begin

text \<open>
  The in-memory fabric of \<^verbatim>\<open>brmcptest/brmcptest.go\<close>, over which whole routers are run against each other: endpoints by uid,
  senders, and private messages under way, each in a goroutine of its own. Endpoints are addresses of routers or of a
  test's functions. The accepted sends and the deliveries made are kept as ghost lists.
\<close>

section \<open>Operations\<close>

definition fab_UID :: "int \<Rightarrow> string" where
  "fab_UID n = replicate 64 (''0123456789abcdef'' ! nat (n mod 16))"

datatype endpoint = AtRouter nat | AtFunction nat

record 'm fabric =
  fb_endpoints :: "(string, endpoint) gomap"
  fb_routers :: "nat list"
  fb_closed :: bool
  fb_sent :: int64
  fb_heap :: "'m router list"
  fb_flight :: "(endpoint \<times> string \<times> string) list"
  fb_accepted :: "(endpoint \<times> string \<times> string) list"
  fb_done :: "(endpoint \<times> string \<times> string) list"

definition NewFabric :: "'m fabric" where
  "NewFabric = \<lparr>fb_endpoints = [], fb_routers = [], fb_closed = False, fb_sent = 0, fb_heap = [], fb_flight = [],
     fb_accepted = [], fb_done = []\<rparr>"

definition fab_Attach :: "string \<Rightarrow> endpoint \<Rightarrow> 'm fabric \<Rightarrow> 'm fabric" where
  "fab_Attach uid e f = f\<lparr>fb_endpoints := gput uid e (fb_endpoints f)\<rparr>"

text \<open>A private message to nobody, or after \<^verbatim>\<open>Close\<close>, is dropped without an error.\<close>

definition fab_Sender :: "string \<Rightarrow> string \<Rightarrow> string \<Rightarrow> 'm fabric \<Rightarrow> 'm fabric" where
  "fab_Sender fromUID peer t f = (case map_of (fb_endpoints f) peer of
     None \<Rightarrow> f
   | Some e \<Rightarrow> if fb_closed f then f
       else f\<lparr>fb_sent := add64 (fb_sent f) 1, fb_flight := fb_flight f @ [(e, fromUID, t)],
              fb_accepted := fb_accepted f @ [(e, fromUID, t)]\<rparr>)"

definition fab_NewRouter :: "string \<Rightarrow> router_config \<Rightarrow> 'm fabric \<Rightarrow> 'm fabric" where
  "fab_NewRouter uid cfg f =
     (let i = length (fb_heap f); f = fab_Attach uid (AtRouter i) (f\<lparr>fb_heap := fb_heap f @ [NewRouter cfg]\<rparr>)
      in f\<lparr>fb_routers := fb_routers f @ [i]\<rparr>)"

definition fab_Sent :: "'m fabric \<Rightarrow> int64" where
  "fab_Sent f = fb_sent f"

definition fab_Close :: "'m fabric \<Rightarrow> 'm fabric" where
  "fab_Close f = f\<lparr>fb_closed := True, fb_routers := [],
     fb_heap := fold (\<lambda>i rs. rs[i := router_Close (rs ! i)]) (fb_routers f) (fb_heap f)\<rparr>"

text \<open>The goroutine of the \<open>k\<close>th message under way runs: the endpoint that lived at the uid when it was sent gets it.\<close>

definition fab_deliver :: "(byte list \<Rightarrow> 'm option) \<Rightarrow> bool \<Rightarrow> nat \<Rightarrow> instant \<Rightarrow> 'm fabric \<Rightarrow> 'm fabric" where
  "fab_deliver dec lucky k now f = (case fb_flight f ! k of (e, fromUID, t) \<Rightarrow>
     f\<lparr>fb_flight := take k (fb_flight f) @ drop (Suc k) (fb_flight f), fb_done := fb_done f @ [(e, fromUID, t)],
       fb_heap := (case e of
         AtRouter i \<Rightarrow> (fb_heap f)[i := HandlePM dec lucky (fb_heap f ! i) (fromUID, t, now)]
       | AtFunction n \<Rightarrow> fb_heap f)\<rparr>)"

text \<open>\<^verbatim>\<open>Text\<close>.\<close>

definition fab_Text :: "CallToolResult \<Rightarrow> string" where
  "fab_Text res = concat (map (\<lambda>c. case c of TextContent t \<Rightarrow> t | OtherContent \<Rightarrow> '''') (cr_content res))"

section \<open>Runs\<close>

datatype fab_event = FAttach string endpoint | FSend string string string | FRouter string router_config
  | FDeliver nat instant bool | FClose

fun fab_step :: "(byte list \<Rightarrow> 'm option) \<Rightarrow> fab_event \<Rightarrow> 'm fabric \<Rightarrow> 'm fabric" where
  "fab_step dec (FAttach uid e) f = fab_Attach uid e f"
| "fab_step dec (FSend a b t) f = fab_Sender a b t f"
| "fab_step dec (FRouter uid cfg) f = fab_NewRouter uid cfg f"
| "fab_step dec (FDeliver k now lucky) f = (if k < length (fb_flight f) then fab_deliver dec lucky k now f else f)"
| "fab_step dec FClose f = fab_Close f"

definition fab_ok :: "'m fabric \<Rightarrow> bool" where
  "fab_ok f \<longleftrightarrow> mset (fb_accepted f) = mset (fb_done f) + mset (fb_flight f) \<and>
     fb_sent f = wrap64 (int (length (fb_accepted f)))"

lemma mset_take_out: "k < length xs \<Longrightarrow> mset xs = add_mset (xs ! k) (mset (take k xs @ drop (Suc k) xs))"
  using id_take_nth_drop [of k xs] by (metis mset_append mset.simps(2) union_mset_add_mset_right)

lemma add64_wrap: "add64 (wrap64 a) 1 = wrap64 (a + 1)"
  unfolding add64_def wrap64_def by (simp add: mod_simps algebra_simps)

lemma fab_ok_step: "fab_ok f \<Longrightarrow> fab_ok (fab_step dec e f)"
proof (cases e)
  case (FDeliver k now lucky)
  assume "fab_ok f"
  then show ?thesis using mset_take_out [of k "fb_flight f"] FDeliver
    by (cases "fb_flight f ! k") (auto simp: fab_ok_def fab_deliver_def)
next
  case (FSend a b t)
  assume "fab_ok f"
  then show ?thesis using FSend by (auto simp: fab_ok_def fab_Sender_def add64_wrap add.commute split: option.splits)
qed (auto simp: fab_ok_def fab_Attach_def fab_NewRouter_def fab_Close_def Let_def)

text \<open>
  The fabric is a faithful relay: in every run, each message that a sender accepted was delivered once or is still under way, to the
  endpoint that lived at the uid when it was sent and attributed to its sender, and \<^verbatim>\<open>Sent\<close> counts them.
\<close>

lemma fabric_relays:
  "mset (fb_accepted (fold (fab_step dec) es NewFabric)) =
     mset (fb_done (fold (fab_step dec) es NewFabric)) + mset (fb_flight (fold (fab_step dec) es NewFabric)) \<and>
   fab_Sent (fold (fab_step dec) es NewFabric) = wrap64 (int (length (fb_accepted (fold (fab_step dec) es NewFabric))))"
proof -
  have "fab_ok f \<Longrightarrow> fab_ok (fold (fab_step dec) es f)" for f :: "'a fabric"
    by (induction es arbitrary: f) (simp_all add: fab_ok_step)
  moreover have "fab_ok NewFabric" by (simp add: fab_ok_def NewFabric_def wrap64_id range64)
  ultimately show ?thesis by (simp add: fab_ok_def fab_Sent_def)
qed

end
