(* ===== verification/Serving.thy ===== *)
theory Serving
  imports ServeBot Router
begin

text \<open>
  The harness at the router: \<^verbatim>\<open>Start\<close> of \<^verbatim>\<open>server/harness.go\<close> wires the allowlist of the harness and its per-caller servers to the
  router of \<open>Router\<close>. Connecting a server to a connection is the SDK's, and an argument.
\<close>

section \<open>Start and Accept\<close>

text \<open>\<open>sg_log\<close>: the callers whose sessions were connected to a server, and the tools of that server.\<close>

record ('b, 'i, 'o, 'm) serving =
  sg_h :: "('b, 'i, 'o) harness"
  sg_router :: "'m router"
  sg_log :: "(string \<times> 'i tool list) list"

definition harness_Start :: "duration \<Rightarrow> int \<Rightarrow> ('b, 'i, 'o) harness \<Rightarrow> ('b, 'i, 'o, 'm) serving" where
  "harness_Start ttl chunk h = \<lparr>sg_h = h,
     sg_router = NewRouter \<lparr>rc_accept = True, rc_allow = Some (Allowed h), rc_ttl = ttl, rc_chunkSize = chunk,
       rc_assembler = \<lparr>MaxPendingPerPeer = 0, MaxMessageBytes = 0, MaxTotalBytes = 0, Timeout = 0\<rparr>,
       rc_inboxSize = 0, rc_idleTimeout = 0, rc_maxSessions = 0\<rparr>,
     sg_log = []\<rparr>"

text \<open>The callback; \<open>connect\<close> is \<^verbatim>\<open>srv.Connect\<close>.\<close>

definition harness_accept :: "(nat \<Rightarrow> 'i tool list \<Rightarrow> 'm router \<Rightarrow> string option \<times> 'm router) \<Rightarrow> nat \<Rightarrow>
    ('b, 'i, 'o, 'm) serving \<Rightarrow> ('b, 'i, 'o, 'm) serving" where
  "harness_accept connect i s =
     (let peer = cn_peer (r_conns (sg_router s) ! i) in
      case serverFor (sg_h s) peer of (h, srv) \<Rightarrow>
      case connect i srv (sg_router s) of
        (Some e, r) \<Rightarrow> s\<lparr>sg_h := h, sg_router := conn_close i r\<rparr>
      | (None, r) \<Rightarrow> s\<lparr>sg_h := h, sg_router := r, sg_log := sg_log s @ [(peer, srv)]\<rparr>)"

text \<open>\<^verbatim>\<open>HandlePM\<close> of that router, the callback between the lock and the select.\<close>

definition serving_HandlePM :: "(byte list \<Rightarrow> 'm option) \<Rightarrow> (nat \<Rightarrow> 'i tool list \<Rightarrow> 'm router \<Rightarrow> string option \<times> 'm router) \<Rightarrow> bool \<Rightarrow>
    string \<times> string \<times> instant \<Rightarrow> ('b, 'i, 'o, 'm) serving \<Rightarrow> ('b, 'i, 'o, 'm) serving" where
  "serving_HandlePM dec connect lucky pm s = (let (peer, body, now) = pm; (r, res) = receive dec (sg_router s) peer body now in
     case res of
       None \<Rightarrow> s\<lparr>sg_router := r\<rparr>
     | Some (sid, m) \<Rightarrow> (let (r, target) = route r peer sid now in
         case target of
           None \<Rightarrow> s\<lparr>sg_router := r\<rparr>
         | Some (i, isNew) \<Rightarrow>
             let s = s\<lparr>sg_router := touch i now r\<rparr>;
                 s = (if isNew then harness_accept connect i s else s)
             in s\<lparr>sg_router := deliver i False m now lucky (sg_router s)\<rparr>))"

section \<open>Who is served what\<close>

definition visible_tools :: "('b, 'i, 'o) harness \<Rightarrow> string \<Rightarrow> 'i tool list" where
  "visible_tools h peer = filter (\<lambda>t. case hc_toolVisible (h_cfg h) of None \<Rightarrow> True | Some v \<Rightarrow> v peer (t_name t)) (h_tools h)"

text \<open>The harness keeps its tools and its policy, and its servers and the log agree with them; \<open>h0\<close> is the harness at the start.\<close>

definition serving_ok :: "('b, 'i, 'o) harness \<Rightarrow> ('b, 'i, 'o, 'm) serving \<Rightarrow> bool" where
  "serving_ok h0 s \<longleftrightarrow> h_tools (sg_h s) = h_tools h0 \<and> h_cfg (sg_h s) = h_cfg h0 \<and> h_allowed (sg_h s) = h_allowed h0 \<and>
     rc_allow (r_cfg (sg_router s)) = Some (Allowed h0) \<and>
     (\<forall>(peer, srv) \<in> set (h_servers (sg_h s)). srv = visible_tools h0 peer) \<and>
     (\<forall>(peer, srv) \<in> set (sg_log s). Allowed h0 peer \<and> srv = visible_tools h0 peer)"

lemma serverFor_eq: "serverFor h peer = (case map_of (h_servers h) peer of
     Some s \<Rightarrow> (h, s)
   | None \<Rightarrow> (h\<lparr>h_servers := gput peer (visible_tools h peer) (h_servers h)\<rparr>, visible_tools h peer))"
  by (simp add: serverFor_def visible_tools_def Let_def split: option.split)

lemma serverFor_ok:
  assumes "serving_ok h0 s" "serverFor (sg_h s) peer = (h, srv)"
  shows "srv = visible_tools h0 peer \<and> serving_ok h0 (s\<lparr>sg_h := h\<rparr>)"
proof -
  have vis: "visible_tools (sg_h s) peer = visible_tools h0 peer" using assms(1) by (simp add: serving_ok_def visible_tools_def)
  show ?thesis
  proof (cases "map_of (h_servers (sg_h s)) peer")
    case None
    then have h: "h = (sg_h s)\<lparr>h_servers := gput peer srv (h_servers (sg_h s))\<rparr>" and srv: "srv = visible_tools h0 peer"
      using assms(2) vis by (auto simp: serverFor_eq)
    have "\<forall>(p, v) \<in> set (gput peer srv (h_servers (sg_h s))). v = visible_tools h0 p"
      using set_gput [of peer srv "h_servers (sg_h s)"] assms(1) srv by (auto simp: serving_ok_def)
    then show ?thesis using assms(1) h srv by (simp add: serving_ok_def)
  next
    case (Some v)
    then show ?thesis using map_of_SomeD [OF Some] assms by (auto simp: serverFor_eq serving_ok_def)
  qed
qed

text \<open>What the SDK does to the router leaves its configuration and the peers of its connections alone.\<close>

definition connect_ok :: "(nat \<Rightarrow> 'i tool list \<Rightarrow> 'm router \<Rightarrow> string option \<times> 'm router) \<Rightarrow> bool" where
  "connect_ok connect \<longleftrightarrow> (\<forall>i srv r. r_cfg (snd (connect i srv r)) = r_cfg r)"

lemma accept_ok:
  assumes "serving_ok h0 s" "connect_ok connect" "Allowed h0 (cn_peer (r_conns (sg_router s) ! i))"
  shows "serving_ok h0 (harness_accept connect i s)"
proof -
  let ?p = "cn_peer (r_conns (sg_router s) ! i)"
  obtain h srv where h: "serverFor (sg_h s) ?p = (h, srv)" by fastforce
  obtain e r where c: "connect i srv (sg_router s) = (e, r)" by fastforce
  have cfg: "r_cfg r = r_cfg (sg_router s)" using assms(2) c unfolding connect_ok_def by (metis snd_conv)
  have "r_cfg (conn_close i r) = r_cfg r" by (simp add: conn_close_def close_done_def onClose_def Let_def)
  moreover have "harness_accept connect i s = (case e of Some x \<Rightarrow> s\<lparr>sg_h := h, sg_router := conn_close i r\<rparr>
      | None \<Rightarrow> s\<lparr>sg_h := h, sg_router := r, sg_log := sg_log s @ [(?p, srv)]\<rparr>)"
    using h c by (simp add: harness_accept_def Let_def split: option.split)
  ultimately show ?thesis using serverFor_ok [OF assms(1) h] assms(3) cfg
    by (cases e) (auto simp: serving_ok_def)
qed

lemma router_cfg:
  "r_cfg (conn_close i r) = r_cfg r" "r_cfg (touch i now r) = r_cfg r" "r_cfg (deliver i isNew m now lucky r) = r_cfg r"
  by (simp_all add: conn_close_def close_done_def onClose_def deliver_def Let_def)

lemma received_allowed: "receive dec r peer body now = (r', Some (sid, m)) \<Longrightarrow> rc_allow (r_cfg r) = Some f \<Longrightarrow> f peer"
  by (auto simp: receive_def split: option.splits if_splits)

lemma routed_peer: "route r peer sid now = (r', Some (i, True)) \<Longrightarrow> cn_peer (r_conns r' ! i) = peer"
  by (auto simp: route_def newConnLocked_def Let_def split: option.splits if_splits)

lemma touch_peer: "cn_peer (r_conns (touch i now r) ! j) = cn_peer (r_conns r ! j)"
  by (cases "i < length (r_conns r)") (auto simp: touch_def nth_list_update list_update_beyond)

lemma serving_step:
  assumes "serving_ok h0 s" "connect_ok connect"
  shows "serving_ok h0 (serving_HandlePM dec connect lucky pm s)"
proof -
  obtain peer body now where pm: "pm = (peer, body, now)" by (metis prod_cases3)
  obtain r res where rc: "receive dec (sg_router s) peer body now = (r, res)" by fastforce
  have keep: "serving_ok h0 (s\<lparr>sg_router := x\<rparr>)" if "r_cfg x = r_cfg (sg_router s)" for x
    using assms(1) that by (simp add: serving_ok_def)
  have r: "r_cfg r = r_cfg (sg_router s)" by (rule receive_simps [OF rc]) simp
  show ?thesis
  proof (cases res)
    case None
    then show ?thesis using keep [OF r] by (simp add: serving_HandlePM_def pm rc)
  next
    case (Some sm)
    obtain sid m where sm: "sm = (sid, m)" by fastforce
    obtain r' target where rt: "route r peer sid now = (r', target)" by fastforce
    have r': "r_cfg r' = r_cfg (sg_router s)"
      using rt r by (auto simp: route_def newConnLocked_def Let_def split: option.splits if_splits)
    show ?thesis
    proof (cases target)
      case None
      then show ?thesis using keep [OF r'] Some sm rt by (simp add: serving_HandlePM_def pm rc)
    next
      case t: (Some ib)
      obtain i isNew where ib: "ib = (i, isNew)" by fastforce
      let ?s = "s\<lparr>sg_router := touch i now r'\<rparr>"
      have s: "serving_ok h0 ?s" by (rule keep) (simp add: router_cfg r')
      have "serving_ok h0 (if isNew then harness_accept connect i ?s else ?s)"
      proof (cases isNew)
        case True
        have "cn_peer (r_conns (touch i now r') ! i) = peer"
          using routed_peer [of r peer sid now r' i] rt t ib True by (simp add: touch_peer)
        moreover have "Allowed h0 peer"
          using received_allowed [of dec "sg_router s" peer body now r sid m] rc Some sm assms(1) by (simp add: serving_ok_def)
        ultimately show ?thesis using accept_ok [OF s assms(2), of i] True by simp
      qed (use s in simp)
      then show ?thesis using Some sm rt t ib by (simp add: serving_HandlePM_def pm rc Let_def serving_ok_def router_cfg)
    qed
  qed
qed

lemma serving_run:
  "connect_ok connect \<Longrightarrow> serving_ok h s \<Longrightarrow> serving_ok h (fold (\<lambda>(pm, lucky). serving_HandlePM dec connect lucky pm) pms s)"
  by (induction pms arbitrary: s) (auto simp: serving_step)

section \<open>Property\<close>

text \<open>
  C14: Only allowed callers get sessions, with exactly their tools. Whatever private messages reach a started harness, in whatever
  order, and however its connections fare: every session that was connected to a server belongs to a caller that the
  harness allows, and that server offers exactly the registered tools which are visible to this caller, in the
  order of their registration; and a message of any other caller changes nothing at all.
\<close>

theorem sessions_as_allowed:
  assumes "connect_ok connect" "h_servers h = []"
    and "s = fold (\<lambda>(pm, lucky). serving_HandlePM dec connect lucky pm) pms (harness_Start ttl chunk h)"
  shows "(\<forall>(peer, srv) \<in> set (sg_log s). Allowed h peer \<and>
      srv = filter (\<lambda>t. case hc_toolVisible (h_cfg h) of None \<Rightarrow> True | Some v \<Rightarrow> v peer (t_name t)) (h_tools h)) \<and>
    (\<not> Allowed h eve \<longrightarrow> serving_HandlePM dec connect lucky (eve, body, now) s = s)"
proof -
  have "serving_ok h (harness_Start ttl chunk h)"
    using assms(2) by (simp add: serving_ok_def harness_Start_def NewRouter_def router_defaults_def)
  then have ok: "serving_ok h s" unfolding assms(3) by (rule serving_run [OF assms(1)])
  have "receive dec (sg_router s) eve body now = (sg_router s, None)" if "\<not> Allowed h eve"
    using ok that by (auto simp: serving_ok_def receive_def split: option.splits)
  then have "\<not> Allowed h eve \<longrightarrow> serving_HandlePM dec connect lucky (eve, body, now) s = s" by (simp add: serving_HandlePM_def)
  then show ?thesis using ok by (simp add: serving_ok_def visible_tools_def)
qed

text \<open>A harness with an open tool and one that only its owner sees. Ann and Eve say hello; Eve is not allowed.\<close>

definition demo_tools_harness :: "(ledger, unit, nat) harness" where
  "demo_tools_harness = AddTool (AddTool (served \<lparr>sv_AllowedUIDs = [''ann''], sv_CallsPerMinute = 30, sv_Directory = None\<rparr>)
     (plain_tool ''open'') 0) (plain_tool ''owner'') 0\<lparr>h_cfg := \<lparr>hc_dataDir = True, hc_allowedPeers = [''ann''], hc_allowFunc = None,
       hc_callsPerMinute = 30, hc_toolVisible = Some (\<lambda>peer t. t \<noteq> ''owner'')\<rparr>\<rparr>"

definition demo_serving :: "(ledger, unit, nat, nat) serving" where
  "demo_serving = fold (\<lambda>(pm, lucky). serving_HandlePM (\<lambda>_. Some 7) (\<lambda>i srv r. (None, r)) lucky pm)
     [((''eve'', SampleEnvelope, 5), True), ((''ann'', SampleEnvelope, 6), True)] (harness_Start 0 0 demo_tools_harness)"

lemma sessions_as_allowed_witness:
  "map (\<lambda>(p, srv). (p, map t_name srv)) (sg_log demo_serving) = [(''ann'', [''echo'', ''fortune'', ''open''])] \<and>
    serving_HandlePM (\<lambda>_. Some 7) (\<lambda>i srv r. (None, r)) True (''eve'', SampleEnvelope, 8) demo_serving = demo_serving"
proof -
  have c: "connect_ok (\<lambda>i srv r :: nat router. (None :: string option, r))" by (simp add: connect_ok_def)
  have e: "h_servers demo_tools_harness = []" "\<not> Allowed demo_tools_harness ''eve''" by code_simp+
  have l: "map (\<lambda>(p, srv). (p, map t_name srv)) (sg_log demo_serving) = [(''ann'', [''echo'', ''fortune'', ''open''])]" by code_simp
  show ?thesis using l e(2) sessions_as_allowed [OF c e(1) demo_serving_def] by blast
qed

end
