(* ===== verification/Publishing.thy ===== *)
theory Publishing
  imports DirHandlers
begin

text \<open>
  A registration whose verification succeeds gets published: the pipeline of \<^verbatim>\<open>directory/pipeline.go\<close> and \<^verbatim>\<open>Approve\<close>, from a
  funded registration or from one that a restart finds in the middle of its verification, up to the listing.
\<close>

section \<open>The schedule\<close>

text \<open>The steps of the pipeline with number \<open>i\<close> when the crawl yields \<open>cat\<close> and the test \<open>t\<close>; a first registration then waits for an approval.\<close>

definition verification :: "nat \<Rightarrow> string \<Rightarrow> Registration \<Rightarrow> string \<Rightarrow> string \<Rightarrow> test_result \<Rightarrow> 'b dir_event list" where
  "verification i uid r cat key t =
     [DResume uid, DPipeStart i] @ (if r_state r = RegCrawling then [DCrawled i (Inr cat) False key] else []) @
     [DReread i, DTested i t False] @ (if r_renewal r then [DPromote i, DEnd i] else [DEnd i, DApprove uid])"

text \<open>The registration as it is tested, and as it is published.\<close>

definition crawled_reg :: "string \<Rightarrow> string \<Rightarrow> Registration \<Rightarrow> Registration" where
  "crawled_reg cat key r = (if r_state r = RegCrawling
     then r\<lparr>r_catalog := Some cat, r_callKey := (if r_callKey r = '''' then key else r_callKey r), r_state := RegTesting\<rparr> else r)"

definition tested_reg :: "test_result \<Rightarrow> Registration \<Rightarrow> Registration" where
  "tested_reg t r = (let r1 = r\<lparr>r_paid := tr_paid t, r_outcome := tr_outcome t, r_err := tr_err t, r_latency := tr_latency t\<rparr>
     in if r_renewal r then r1 else r1\<lparr>r_state := RegPendingReview\<rparr>)"

section \<open>Step by step\<close>

text \<open>The newest pipeline is at a phase, its entry and the rest of the directory as given; \<open>g0\<close> is where it started.\<close>

definition running :: "'b registry \<Rightarrow> string \<Rightarrow> pipe_phase \<Rightarrow> Entry \<Rightarrow> 'b registry \<Rightarrow> bool" where
  "running g0 uid ph e g \<longleftrightarrow> rg_pipes g = rg_pipes g0 @ [\<lparr>pl_uid = uid, pl_phase = ph, pl_debited = 0\<rparr>] \<and>
     js_get uid (rg_index g) = Some e \<and> reliable (js_file (rg_index g)) \<and> rg_policy g = rg_policy g0 \<and> rg_now g = rg_now g0 \<and>
     rg_billing g = rg_billing g0 \<and> (\<forall>v. v \<noteq> uid \<longrightarrow> js_get v (rg_index g) = js_get v (rg_index g0))"

lemma running_entry: "running g0 uid ph e g \<Longrightarrow> entry_of g uid = e"
  by (simp add: running_def entry_of_def js_val_def js_get_def)

lemma running_pipe: "running g0 uid ph e g \<Longrightarrow> rg_pipes g ! length (rg_pipes g0) = \<lparr>pl_uid = uid, pl_phase = ph, pl_debited = 0\<rparr>"
  by (simp add: running_def)

lemma running_on: "running g0 uid ph e g \<Longrightarrow> on_pipe (length (rg_pipes g0)) f g = f g"
  by (simp add: running_def on_pipe_def)

lemma running_move: "running g0 uid ph e g \<Longrightarrow> running g0 uid ph' e (set_pipe (length (rg_pipes g0)) ph' g)"
  by (simp add: running_def set_pipe_def)

lemma running_put:
  "running g0 uid ph e g \<Longrightarrow> fst (put_entry uid e' g) = None \<and> running g0 uid ph e' (snd (put_entry uid e' g))"
  by (auto simp: running_def put_entry_def js_put_def js_get_def split_beta)

lemma run_cons:
  assumes "dir_step B e g = Some g1" "\<exists>log. dir_run B es (g1, []) = Some (g', log)"
  shows "\<exists>log. dir_run B (e # es) (g, []) = Some (g', log)"
  using assms by (auto simp: dir_run_log [of B es g1 "dir_log B e g"])

lemma step_spawned:
  assumes "rg_started g" "\<not> rg_closed g" "\<not> gbool (rg_inflight g) uid" "js_get uid (rg_index g) = Some e" "reliable (js_file (rg_index g))"
  shows "dir_step B (DResume uid) g = Some (spawnPipeline uid g) \<and> running g uid PStart e (spawnPipeline uid g)"
  using assms by (simp add: spawnPipeline_def running_def)

lemma step_start:
  assumes "running g0 uid PStart e g" "e_Reg e = Some r" "r_state r = RegCrawling \<or> r_state r = RegTesting"
  shows "\<exists>g'. dir_step B (DPipeStart (length (rg_pipes g0))) g = Some g' \<and>
    running g0 uid (if r_state r = RegCrawling then PCrawl r else PReread) e g'"
  using assms(2,3) running_move [OF assms(1)]
  by (auto simp: running_on [OF assms(1)] pipe_start_def running_pipe [OF assms(1)] running_entry [OF assms(1)])

lemma step_crawled:
  assumes "running g0 uid (PCrawl r) e g" "e_Reg e = Some r" "r_state r = RegCrawling"
  shows "\<exists>g'. dir_step B (DCrawled (length (rg_pipes g0)) (Inr cat) False key) g = Some g' \<and>
    running g0 uid PReread (e\<lparr>e_Reg := Some (crawled_reg cat key r)\<rparr>) g'"
proof -
  obtain g1 where put: "put_entry uid (e\<lparr>e_Reg := Some (crawled_reg cat key r)\<rparr>) g = (None, g1)"
    and g1: "running g0 uid (PCrawl r) (e\<lparr>e_Reg := Some (crawled_reg cat key r)\<rparr>) g1"
    using running_put [OF assms(1), of "e\<lparr>e_Reg := Some (crawled_reg cat key r)\<rparr>"] by (metis prod.collapse)
  show ?thesis using put running_move [OF g1] assms(2,3)
    by (auto simp: running_on [OF assms(1)] pipe_crawled_def running_pipe [OF assms(1)] running_entry [OF assms(1)] crawled_reg_def Let_def)
qed

lemma step_reread:
  assumes "running g0 uid PReread e g" "e_Reg e = Some r" "r_state r = RegTesting"
  shows "\<exists>g'. dir_step B (DReread (length (rg_pipes g0))) g = Some g' \<and> running g0 uid (PTest r) e g'"
  using assms(2,3) running_move [OF assms(1)]
  by (auto simp: running_on [OF assms(1)] pipe_reread_def running_pipe [OF assms(1)] running_entry [OF assms(1)])

lemma step_tested:
  assumes "running g0 uid (PTest q) e g" "e_Reg e = Some r" "tr_outcome t = ''ok''"
  shows "\<exists>g'. dir_step B (DTested (length (rg_pipes g0)) t False) g = Some g' \<and>
    running g0 uid (if r_renewal r then PPromote else PEnd) (e\<lparr>e_Reg := Some (tested_reg t r)\<rparr>) g'"
proof -
  obtain g1 where put: "put_entry uid (e\<lparr>e_Reg := Some (tested_reg t r)\<rparr>) g = (None, g1)"
    and g1: "running g0 uid (PTest q) (e\<lparr>e_Reg := Some (tested_reg t r)\<rparr>) g1"
    using running_put [OF assms(1), of "e\<lparr>e_Reg := Some (tested_reg t r)\<rparr>"] by (metis prod.collapse)
  show ?thesis using put running_move [OF g1] assms(2,3)
    by (auto simp: running_on [OF assms(1)] pipe_tested_def running_pipe [OF assms(1)] running_entry [OF assms(1)] tested_reg_def Let_def)
qed

definition published :: "'b registry \<Rightarrow> Registration \<Rightarrow> Entry \<Rightarrow> Entry" where
  "published g r e = \<lparr>e_Live = Some (listing_from r (e_Live e) (unix (rg_now g)) (py_expiryDays (rg_policy g))), e_Reg = None, e_Flag = ''''\<rparr>"

lemma promoted:
  assumes "running g0 uid ph e g" "e_Reg e = Some r" "r_outcome r = ''ok''"
  shows "running g0 uid ph (published g0 r e) (snd (promote uid g))" "rg_inflight (snd (promote uid g)) = rg_inflight g"
proof -
  have same: "rg_now g = rg_now g0" "rg_policy g = rg_policy g0" using assms(1) by (simp_all add: running_def)
  have p: "snd (promote uid g) = snd (put_entry uid (published g0 r e) g)"
    using assms(2,3) by (simp add: promote_def running_entry [OF assms(1)] published_def same Let_def split_beta)
  show "running g0 uid ph (published g0 r e) (snd (promote uid g))" "rg_inflight (snd (promote uid g)) = rg_inflight g"
    unfolding p using running_put [OF assms(1)] by (simp_all add: put_entry_simps)
qed

lemma step_promote:
  assumes "running g0 uid PPromote e g" "e_Reg e = Some r" "r_outcome r = ''ok''"
  shows "\<exists>g'. dir_step B (DPromote (length (rg_pipes g0))) g = Some g' \<and> running g0 uid PEnd (published g0 r e) g'"
  using running_move [OF promoted(1) [OF assms]]
  by (auto simp: running_on [OF assms(1)] pipe_promote_def running_pipe [OF assms(1)])

lemma step_end:
  assumes "running g0 uid PEnd e g"
  shows "\<exists>g'. dir_step B (DEnd (length (rg_pipes g0))) g = Some g' \<and> running g0 uid PDone e g' \<and> \<not> gbool (rg_inflight g') uid"
proof -
  let ?g = "g\<lparr>rg_inflight := gdel uid (rg_inflight g)\<rparr>"
  have "running g0 uid PEnd e ?g" using assms by (simp add: running_def)
  from running_move [OF this, of PDone] show ?thesis
    by (auto simp: running_on [OF assms] pipe_end_def running_pipe [OF assms] set_pipe_def)
qed

lemma step_approve:
  assumes "running g0 uid ph e g" "e_Reg e = Some r" "r_state r = RegPendingReview" "r_outcome r = ''ok''"
  shows "\<exists>g'. dir_step B (DApprove uid) g = Some g' \<and> running g0 uid ph (published g0 r e) g' \<and> rg_inflight g' = rg_inflight g"
  using promoted [OF assms(1,2,4)] assms(1-3) by (simp add: approveRegistration_def running_def)


lemma run_to_test:
  assumes "running g uid PStart e g1" "e_Reg e = Some r" "r_state r = RegCrawling \<or> r_state r = RegTesting"
    and "\<And>g2. running g uid PReread (e\<lparr>e_Reg := Some (crawled_reg cat key r)\<rparr>) g2 \<Longrightarrow> \<exists>g' log. dir_run B es (g2, []) = Some (g', log) \<and> Q g'"
  shows "\<exists>g' log. dir_run B (DPipeStart (length (rg_pipes g)) #
      (if r_state r = RegCrawling then [DCrawled (length (rg_pipes g)) (Inr cat) False key] else []) @ es) (g1, []) = Some (g', log) \<and> Q g'"
proof (cases "r_state r = RegCrawling")
  case True
  obtain g2 where 2: "dir_step B (DPipeStart (length (rg_pipes g))) g1 = Some g2" "running g uid (PCrawl r) e g2"
    using step_start [OF assms(1-3)] True by auto
  obtain g3 where 3: "dir_step B (DCrawled (length (rg_pipes g)) (Inr cat) False key) g2 = Some g3"
    "running g uid PReread (e\<lparr>e_Reg := Some (crawled_reg cat key r)\<rparr>) g3"
    using step_crawled [OF 2(2) assms(2) True] by blast
  obtain g' where g': "\<exists>log. dir_run B es (g3, []) = Some (g', log)" "Q g'" using assms(4) [OF 3(2)] by blast
  show ?thesis using run_cons [OF 2(1) run_cons [OF 3(1) g'(1)]] g'(2) True by auto
next
  case False
  then have "crawled_reg cat key r = r" "e\<lparr>e_Reg := Some r\<rparr> = e" using assms(2) by (simp_all add: crawled_reg_def)
  moreover obtain g2 where 2: "dir_step B (DPipeStart (length (rg_pipes g))) g1 = Some g2" "running g uid PReread e g2"
    using step_start [OF assms(1-3)] False by auto
  ultimately obtain g' where g': "\<exists>log. dir_run B es (g2, []) = Some (g', log)" "Q g'" using assms(4) [of g2] by auto
  show ?thesis using run_cons [OF 2(1) g'(1)] g'(2) False by auto
qed

lemma tested_reg_simps [simp]:
  "r_renewal (tested_reg t r) = r_renewal r" "r_outcome (tested_reg t r) = tr_outcome t"
  "\<not> r_renewal r \<Longrightarrow> r_state (tested_reg t r) = RegPendingReview"
  by (simp_all add: tested_reg_def Let_def)

lemma crawled_reg_simps [simp]:
  "r_renewal (crawled_reg cat key r) = r_renewal r"
  "r_state r = RegCrawling \<or> r_state r = RegTesting \<Longrightarrow> r_state (crawled_reg cat key r) = RegTesting"
  by (auto simp: crawled_reg_def)

lemma published_live: "published g r (e\<lparr>e_Reg := q\<rparr>) = published g r e"
  by (simp add: published_def)

lemma run_from_test:
  assumes "running g uid PReread (e\<lparr>e_Reg := Some r\<rparr>) g2" "r_state r = RegTesting" "tr_outcome t = ''ok''" "i = length (rg_pipes g)"
  shows "\<exists>g' log. dir_run B ([DReread i, DTested i t False] @ (if r_renewal r then [DPromote i, DEnd i] else [DEnd i, DApprove uid])) (g2, [])
      = Some (g', log) \<and> running g uid PDone (published g (tested_reg t r) e) g' \<and> \<not> gbool (rg_inflight g') uid"
proof -
  let ?r = "tested_reg t r" and ?e = "e\<lparr>e_Reg := Some (tested_reg t r)\<rparr>"
  have ok: "r_outcome ?r = ''ok''" "e_Reg ?e = Some ?r" using assms(3) by simp_all
  obtain g3 where 3: "dir_step B (DReread i) g2 = Some g3" "running g uid (PTest r) (e\<lparr>e_Reg := Some r\<rparr>) g3"
    using step_reread [OF assms(1)] assms(2,4) by auto
  obtain g4 where 4: "dir_step B (DTested i t False) g3 = Some g4" "running g uid (if r_renewal r then PPromote else PEnd) ?e g4"
    using step_tested [OF 3(2) _ assms(3), of r] assms(4) by auto
  have "\<exists>g'. (\<exists>log. dir_run B (if r_renewal r then [DPromote i, DEnd i] else [DEnd i, DApprove uid]) (g4, []) = Some (g', log)) \<and>
      running g uid PDone (published g ?r ?e) g' \<and> \<not> gbool (rg_inflight g') uid"
  proof (cases "r_renewal r")
    case True
    then obtain g5 where 5: "dir_step B (DPromote i) g4 = Some g5" "running g uid PEnd (published g ?r ?e) g5"
      using step_promote [OF _ ok(2,1), of g uid g4] 4(2) assms(4) by auto
    obtain g6 where 6: "dir_step B (DEnd i) g5 = Some g6" "running g uid PDone (published g ?r ?e) g6" "\<not> gbool (rg_inflight g6) uid"
      using step_end [OF 5(2)] assms(4) by auto
    show ?thesis using run_cons [OF 5(1) run_cons [OF 6(1)], of "[]" g6] 6(2,3) True by auto
  next
    case False
    then obtain g5 where 5: "dir_step B (DEnd i) g4 = Some g5" "running g uid PDone ?e g5" "\<not> gbool (rg_inflight g5) uid"
      using step_end [of g uid ?e g4] 4(2) assms(4) by auto
    obtain g6 where 6: "dir_step B (DApprove uid) g5 = Some g6" "running g uid PDone (published g ?r ?e) g6" "rg_inflight g6 = rg_inflight g5"
      using step_approve [OF 5(2) ok(2) _ ok(1)] False by auto
    show ?thesis using run_cons [OF 5(1) run_cons [OF 6(1)], of "[]" g6] 5(3) 6(2,3) False by auto
  qed
  then obtain g' where g': "\<exists>log. dir_run B (if r_renewal r then [DPromote i, DEnd i] else [DEnd i, DApprove uid]) (g4, []) = Some (g', log)"
    "running g uid PDone (published g ?r ?e) g'" "\<not> gbool (rg_inflight g') uid" by blast
  show ?thesis using run_cons [OF 3(1) run_cons [OF 4(1) g'(1)]] g'(2,3) unfolding published_live append_Cons append_Nil by blast
qed

section \<open>Publication\<close>


text \<open>A registration that a restart finds at its crawl.\<close>

definition demo_claim :: Registration where
  "demo_claim = (new_registration demo_policy 0 (demo_reg ''echo'') False)\<lparr>r_state := RegCrawling\<rparr>"

definition demo_resumed :: "ledger registry" where
  "demo_resumed = (demo_directory 350)\<lparr>rg_started := True,
     rg_index := \<lparr>js_m = [(''prov'', \<lparr>e_Live = None, e_Reg = Some demo_claim, e_Flag = ''slow''\<rparr>)], js_file = no_file\<rparr>\<rparr>"


end
