(* ===== verification/Maintenance.thy ===== *)
theory Maintenance
  imports DirHandlers
begin

text \<open>
  The maintenance loop of the directory, \<^verbatim>\<open>runMaintenance\<close> of \<^verbatim>\<open>directory/service.go\<close>: a sweep a minute, over the sweep of
  \<open>DirAdmin\<close>, compared with a reference that follows one provider at a time.
\<close>

section \<open>The loop\<close>

definition sweepInterval :: duration where "sweepInterval = 60 * second"

text \<open>Each round waits for the interval, and perhaps longer, and then sweeps with what the crawls answer. The context ends
  between rounds.\<close>

fun runMaintenance :: "'b Billing \<Rightarrow> (duration \<times> (string \<Rightarrow> string + string)) list \<Rightarrow> 'b registry \<Rightarrow> 'b registry" where
  "runMaintenance B [] g = g"
| "runMaintenance B ((late, crawled) # rounds) g =
     runMaintenance B rounds (dir_sweep B crawled (g\<lparr>rg_now := rg_now g + sweepInterval + late\<rparr>))"

section \<open>One provider at a time\<close>

text \<open>What the directory knows of a provider: its entry, its balance, and whether a pipeline is in flight for it.\<close>

record provider_view =
  pv_entry :: "Entry option"
  pv_balance :: int64
  pv_inflight :: bool

definition view :: "ledger registry \<Rightarrow> string \<Rightarrow> provider_view" where
  "view g uid = \<lparr>pv_entry = js_get uid (rg_index g), pv_balance = Balance (rg_billing g) uid,
     pv_inflight = gbool (rg_inflight g) uid\<rparr>"

definition lapsed :: "int64 \<Rightarrow> Entry \<Rightarrow> bool" where
  "lapsed now e \<longleftrightarrow> (case e_Live e of None \<Rightarrow> False | Some l \<Rightarrow> l_expires l \<le> now)"

definition refreshed :: "int64 \<Rightarrow> Policy \<Rightarrow> string + string \<Rightarrow> Listing \<Rightarrow> Listing" where
  "refreshed now p answer l = (case answer of
     Inl _ \<Rightarrow> l
   | Inr cat \<Rightarrow> if mul64 (py_recrawlHours p) 3600 \<le> sub64 now (l_checked l) then l\<lparr>l_catalog := Some cat, l_checked := now\<rparr> else l)"

text \<open>A registration that waits for its money and has it.\<close>

definition covered :: "Entry \<Rightarrow> int64 \<Rightarrow> Registration option" where
  "covered e balance = (case e_Reg e of
     None \<Rightarrow> None
   | Some r \<Rightarrow> if r_state r = RegAwaitingFunding \<and> r_fee r + r_budget r \<le> balance then Some r else None)"

definition funded_view :: "bool \<Rightarrow> Entry \<Rightarrow> provider_view \<Rightarrow> provider_view" where
  "funded_view sv e v = (case covered e (pv_balance v) of
     None \<Rightarrow> v\<lparr>pv_entry := Some e\<rparr>
   | Some r \<Rightarrow> \<lparr>pv_entry = Some (e\<lparr>e_Reg := Some (r\<lparr>r_state := RegCrawling\<rparr>)\<rparr>), pv_balance = pv_balance v - r_fee r,
       pv_inflight = pv_inflight v \<or> sv\<rparr>)"

text \<open>The reference. \<open>serves\<close>: the directory is started and not closed.\<close>

definition swept :: "int64 \<Rightarrow> Policy \<Rightarrow> bool \<Rightarrow> string + string \<Rightarrow> provider_view \<Rightarrow> provider_view" where
  "swept now p serves answer v = (case pv_entry v of
     None \<Rightarrow> v
   | Some e \<Rightarrow>
       if lapsed now e then v\<lparr>pv_entry := (if e_Reg e = None then None else Some (e\<lparr>e_Live := None\<rparr>))\<rparr>
       else funded_view serves (e\<lparr>e_Live := map_option (refreshed now p answer) (e_Live e)\<rparr>) v)"

fun maintained :: "instant \<Rightarrow> Policy \<Rightarrow> bool \<Rightarrow> string \<Rightarrow> (duration \<times> (string \<Rightarrow> string + string)) list \<Rightarrow> provider_view \<Rightarrow> provider_view" where
  "maintained t p serves uid [] v = v"
| "maintained t p serves uid ((late, crawled) # rounds) v =
     (let t = t + sweepInterval + late in maintained t p serves uid rounds (swept (unix t) p serves (crawled uid) v))"

section \<open>The sweep is pointwise\<close>

definition fees_sane :: "Entry \<Rightarrow> bool" where
  "fees_sane e \<longleftrightarrow> (case e_Reg e of None \<Rightarrow> True | Some r \<Rightarrow> 0 \<le> r_fee r \<and> 0 \<le> r_budget r \<and> r_fee r + r_budget r \<le> max64)"

text \<open>What a sweep relies on and keeps.\<close>

definition calm_dir :: "ledger registry \<Rightarrow> bool" where
  "calm_dir g \<longleftrightarrow> reliable (js_file (rg_index g)) \<and> ledger_sound (rg_billing g) \<and> gmap_ok (js_m (rg_index g)) \<and>
     (\<forall>u e. js_get u (rg_index g) = Some e \<longrightarrow> fees_sane e)"

definition same_terms :: "'b registry \<Rightarrow> 'b registry \<Rightarrow> bool" where
  "same_terms g g' \<longleftrightarrow> rg_now g' = rg_now g \<and> rg_policy g' = rg_policy g \<and> rg_started g' = rg_started g \<and> rg_closed g' = rg_closed g"

definition serves :: "'b registry \<Rightarrow> bool" where
  "serves g \<longleftrightarrow> rg_started g \<and> \<not> rg_closed g"

text \<open>An operation that changes one provider's view.\<close>

definition turns :: "ledger registry \<Rightarrow> string \<Rightarrow> provider_view \<Rightarrow> ledger registry \<Rightarrow> bool" where
  "turns g uid v g' \<longleftrightarrow> calm_dir g' \<and> same_terms g g' \<and> view g' = (view g)(uid := v)"

lemma turns_refl: "calm_dir g \<Longrightarrow> turns g uid (view g uid) g"
  by (simp add: turns_def same_terms_def)

lemma turns_trans: "turns g uid v g1 \<Longrightarrow> turns g1 uid w g2 \<Longrightarrow> turns g uid w g2"
  by (auto simp: turns_def same_terms_def)

lemma turns_put:
  assumes "calm_dir g" "fees_sane e"
  shows "turns g uid ((view g uid)\<lparr>pv_entry := Some e\<rparr>) (snd (put_entry uid e g))"
proof -
  have "js_get v (rg_index (snd (put_entry uid e g))) = (if v = uid then Some e else js_get v (rg_index g))" for v
    by (simp add: put_entry_def js_put_def js_get_def split_beta)
  moreover have "reliable (js_file (rg_index (snd (put_entry uid e g))))" "gmap_ok (js_m (rg_index (snd (put_entry uid e g))))"
    using assms(1) by (simp_all add: calm_dir_def put_entry_def js_put_def split_beta)
  moreover have "same_terms g (snd (put_entry uid e g))" by (simp add: same_terms_def put_entry_def split_beta)
  ultimately show ?thesis using assms by (auto simp: turns_def calm_dir_def view_def fun_eq_iff)
qed

lemma turns_delete:
  assumes "calm_dir g"
  shows "turns g uid ((view g uid)\<lparr>pv_entry := None\<rparr>) (expire_delete uid g)"
proof -
  have "js_get v (rg_index (expire_delete uid g)) = (if v = uid then None else js_get v (rg_index g))" for v
    by (simp add: expire_delete_def js_get_def)
  moreover have "reliable (js_file (rg_index (expire_delete uid g)))" "gmap_ok (js_m (rg_index (expire_delete uid g)))"
    using assms by (auto simp: calm_dir_def expire_delete_def js_delete_def split: option.split)
  ultimately show ?thesis using assms
    by (auto simp: turns_def calm_dir_def view_def fun_eq_iff same_terms_def) (simp_all add: expire_delete_def)
qed

lemma turns_spawn:
  assumes "calm_dir g"
  shows "turns g uid ((view g uid)\<lparr>pv_inflight := pv_inflight (view g uid) \<or> serves g\<rparr>) (spawnPipeline uid g)"
proof -
  have "same_terms g (spawnPipeline uid g)" "gbool (rg_inflight (spawnPipeline uid g)) v = (gbool (rg_inflight g) v \<or> v = uid \<and> serves g)" for v
    by (auto simp: spawnPipeline_def same_terms_def serves_def)
  then show ?thesis using assms by (auto simp: turns_def calm_dir_def view_def fun_eq_iff)
qed

lemma turns_debit:
  assumes "calm_dir g" "0 \<le> n" "n \<le> Balance (rg_billing g) uid"
  shows "\<exists>b. Debit (rg_billing g) uid n = (None, b) \<and>
    turns g uid ((view g uid)\<lparr>pv_balance := Balance (rg_billing g) uid - n\<rparr>) (g\<lparr>rg_billing := b\<rparr>)"
proof -
  have sound: "ledger_sound (rg_billing g)" using assms(1) by (simp add: calm_dir_def)
  obtain b where b: "Debit (rg_billing g) uid n = (None, b)" "ledger_sound b"
    "Balance b = (Balance (rg_billing g))(uid := Balance (rg_billing g) uid - n)"
  proof (cases "n = 0")
    case True
    then show ?thesis using that [of "rg_billing g"] sound by (simp add: Debit_def)
  next
    case False
    then show ?thesis using ledger.debit_covered [OF sound, of n uid] assms(2,3) that
      by (cases "Debit (rg_billing g) uid n") (simp add: ledger_billing_def)
  qed
  then show ?thesis using assms(1) by (auto simp: turns_def calm_dir_def same_terms_def view_def fun_eq_iff)
qed

lemma turns_poke:
  assumes "calm_dir g" "js_get uid (rg_index g) = Some e"
  shows "turns g uid (funded_view (serves g) e (view g uid)) (fst (pokeFunding ledger_billing uid g))"
proof -
  have e: "entry_of g uid = e" "(view g uid)\<lparr>pv_entry := Some e\<rparr> = view g uid" "pv_balance (view g uid) = Balance (rg_billing g) uid"
    using assms(2) by (simp_all add: entry_of_def js_val_def js_get_def view_def)
  have sane: "fees_sane e" using assms by (auto simp: calm_dir_def)
  show ?thesis
  proof (cases "covered e (Balance (rg_billing g) uid)")
    case None
    then have "fst (pokeFunding ledger_billing uid g) = g" using sane
      by (auto simp: pokeFunding_def e Let_def covered_def required_atoms_def add64_exact range64 fees_sane_def ledger_billing_def
        split: option.splits if_splits)
    then show ?thesis using None turns_refl [OF assms(1)] by (simp add: funded_view_def e)
  next
    case (Some r)
    then have r: "e_Reg e = Some r" "r_state r = RegAwaitingFunding" "r_fee r + r_budget r \<le> Balance (rg_billing g) uid"
      by (auto simp: covered_def split: option.splits if_splits)
    have fee: "0 \<le> r_fee r" "0 \<le> r_budget r" "required_atoms r = r_fee r + r_budget r"
      using sane r(1) by (simp_all add: fees_sane_def required_atoms_def add64_exact range64)
    obtain b where b: "Debit (rg_billing g) uid (r_fee r) = (None, b)"
      and t1: "turns g uid ((view g uid)\<lparr>pv_balance := Balance (rg_billing g) uid - r_fee r\<rparr>) (g\<lparr>rg_billing := b\<rparr>)"
      using turns_debit [OF assms(1) fee(1), of uid] r(3) fee(2) by auto
    let ?g = "g\<lparr>rg_billing := b\<rparr>" and ?e = "e\<lparr>e_Reg := Some (r\<lparr>r_state := RegCrawling\<rparr>)\<rparr>"
    have t2: "turns ?g uid ((view ?g uid)\<lparr>pv_entry := Some ?e\<rparr>) (snd (put_entry uid ?e ?g))"
      using sane r(1) t1 by (intro turns_put) (simp_all add: turns_def fees_sane_def)
    note t3 = turns_spawn [of "snd (put_entry uid ?e ?g)" uid]
    have "fst (pokeFunding ledger_billing uid g) = spawnPipeline uid (snd (put_entry uid ?e ?g))"
      using r fee(3) b by (simp add: pokeFunding_def e Let_def ledger_billing_def)
    moreover have "view (snd (put_entry uid ?e ?g)) uid = \<lparr>pv_entry = Some ?e, pv_balance = Balance (rg_billing g) uid - r_fee r, pv_inflight = pv_inflight (view g uid)\<rparr>"
      using t1 t2 by (simp add: turns_def view_def)
    moreover have "serves (snd (put_entry uid ?e ?g)) = serves g" using t2 by (simp add: turns_def same_terms_def serves_def)
    ultimately show ?thesis using turns_trans [OF t1 turns_trans [OF t2 t3]] t2 Some by (simp add: funded_view_def e turns_def [of ?g])
  qed
qed

lemma turns_expire:
  assumes "calm_dir g" "js_get uid (rg_index g) = Some e" "lapsed now e"
  shows "turns g uid ((view g uid)\<lparr>pv_entry := (if e_Reg e = None then None else Some (e\<lparr>e_Live := None\<rparr>))\<rparr>) (expire uid now g)"
proof -
  have e: "entry_of g uid = e" "fees_sane e" using assms(1,2) by (auto simp: entry_of_def js_val_def js_get_def calm_dir_def)
  obtain l where l: "e_Live e = Some l" "\<not> now < l_expires l" using assms(3) by (auto simp: lapsed_def split: option.splits)
  have "fees_sane (e\<lparr>e_Live := None\<rparr>)" using e(2) by (simp add: fees_sane_def)
  from turns_put [OF assms(1) this, of uid] turns_delete [OF assms(1), of uid] show ?thesis
    using assms(2) l by (simp add: expire_def expire_look_def expire_clear_def e(1))
qed

lemma turns_recrawl:
  assumes "calm_dir g" "js_get uid (rg_index g) = Some e"
  shows "turns g uid ((view g uid)\<lparr>pv_entry := Some (e\<lparr>e_Live := map_option (refreshed (unix (rg_now g)) (rg_policy g) (crawled uid)) (e_Live e)\<rparr>)\<rparr>)
    (if (case e_Live e of None \<Rightarrow> False | Some l \<Rightarrow> mul64 (py_recrawlHours (rg_policy g)) 3600 \<le> sub64 (unix (rg_now g)) (l_checked l))
     then recrawlListing crawled uid g else g)"
proof -
  have e: "entry_of g uid = e" "fees_sane e" "(view g uid)\<lparr>pv_entry := Some e\<rparr> = view g uid"
    using assms by (auto simp: entry_of_def js_val_def js_get_def calm_dir_def view_def)
  have put: "turns g uid ((view g uid)\<lparr>pv_entry := Some (e\<lparr>e_Live := x\<rparr>)\<rparr>) (snd (put_entry uid (e\<lparr>e_Live := x\<rparr>) g))" for x
    using e(2) by (intro turns_put [OF assms(1)]) (simp add: fees_sane_def)
  have same: "turns g uid ((view g uid)\<lparr>pv_entry := Some (e\<lparr>e_Live := x\<rparr>)\<rparr>) g" if "e_Live e = x" for x
    using turns_refl [OF assms(1), of uid] e(3) that by auto
  show ?thesis
  proof (cases "e_Live e")
    case None
    then show ?thesis using same by simp
  next
    case (Some l)
    then show ?thesis using put [of "Some (l\<lparr>l_catalog := Some cat, l_checked := unix (rg_now g)\<rparr>)" for cat] same [OF Some]
      by (cases "crawled uid") (auto simp: refreshed_def recrawlListing_def recrawl_commit_def e(1))
  qed
qed

lemma turns_sweep:
  assumes "calm_dir g" "js_get uid (rg_index g) = Some e"
  shows "turns g uid (swept (unix (rg_now g)) (rg_policy g) (serves g) (crawled uid) (view g uid))
    (sweep_entry ledger_billing crawled (unix (rg_now g)) (uid, e) g)"
proof (cases "lapsed (unix (rg_now g)) e")
  case True
  then show ?thesis using turns_expire [OF assms True] assms(2)
    by (simp add: swept_def view_def sweep_entry_def lapsed_def)
next
  case False
  let ?e = "e\<lparr>e_Live := map_option (refreshed (unix (rg_now g)) (rg_policy g) (crawled uid)) (e_Live e)\<rparr>"
  define g1 where "g1 = (if (case e_Live e of None \<Rightarrow> False | Some l \<Rightarrow> mul64 (py_recrawlHours (rg_policy g)) 3600 \<le> sub64 (unix (rg_now g)) (l_checked l))
     then recrawlListing crawled uid g else g)"
  have t1: "turns g uid ((view g uid)\<lparr>pv_entry := Some ?e\<rparr>) g1"
    using turns_recrawl [OF assms, of crawled] by (simp add: g1_def)
  then have v: "view g1 uid = (view g uid)\<lparr>pv_entry := Some ?e\<rparr>" "serves g1 = serves g" "calm_dir g1"
    by (simp_all add: turns_def same_terms_def serves_def)
  from arg_cong [OF v(1), of pv_entry] have "js_get uid (rg_index g1) = Some ?e" by (simp add: view_def)
  note v1 = v(1) this v(2,3)
  have sw: "swept (unix (rg_now g)) (rg_policy g) (serves g) (crawled uid) (view g uid) = funded_view (serves g) ?e (view g uid)"
    using False assms(2) by (simp add: swept_def view_def)
  have s: "sweep_entry ledger_billing crawled (unix (rg_now g)) (uid, e) g = (case e_Reg e of None \<Rightarrow> g1
      | Some r \<Rightarrow> if r_state r = RegAwaitingFunding then fst (pokeFunding ledger_billing uid g1) else g1)"
    using False unfolding sweep_entry_def prod.case Let_def g1_def [symmetric] lapsed_def by simp
  show ?thesis
  proof (cases "\<exists>r. e_Reg e = Some r \<and> r_state r = RegAwaitingFunding")
    case True
    then show ?thesis using turns_trans [OF t1 turns_poke [OF v1(4,2)]] v1 s sw by (auto simp: funded_view_def covered_def split: option.splits)
  next
    case False
    then show ?thesis using t1 s sw by (auto simp: funded_view_def covered_def split: option.splits)
  qed
qed

lemma turns_sweep_list:
  assumes "calm_dir g" "distinct (map fst ues)" "\<forall>(u, e) \<in> set ues. js_get u (rg_index g) = Some e"
  shows "calm_dir (fold (sweep_entry ledger_billing crawled (unix (rg_now g))) ues g) \<and>
    same_terms g (fold (sweep_entry ledger_billing crawled (unix (rg_now g))) ues g) \<and>
    view (fold (sweep_entry ledger_billing crawled (unix (rg_now g))) ues g) u =
      (if u \<in> fst ` set ues then swept (unix (rg_now g)) (rg_policy g) (serves g) (crawled u) (view g u) else view g u)"
  using assms
proof (induction ues arbitrary: g)
  case Nil
  then show ?case by (simp add: same_terms_def)
next
  case (Cons ue ues)
  obtain uid e where ue: "ue = (uid, e)" by fastforce
  let ?g = "sweep_entry ledger_billing crawled (unix (rg_now g)) (uid, e) g"
  have t: "turns g uid (swept (unix (rg_now g)) (rg_policy g) (serves g) (crawled uid) (view g uid)) ?g"
    using turns_sweep [OF Cons.prems(1)] Cons.prems(3) ue by simp
  have terms: "rg_now ?g = rg_now g" "rg_policy ?g = rg_policy g" "serves ?g = serves g" and calm: "calm_dir ?g" and same: "same_terms g ?g"
    and view: "view ?g v = (if v = uid then swept (unix (rg_now g)) (rg_policy g) (serves g) (crawled uid) (view g uid) else view g v)" for v
    using t by (simp_all add: turns_def same_terms_def serves_def)
  have "js_get v (rg_index ?g) = Some e'" if "(v, e') \<in> set ues" for v e'
  proof -
    have "v \<noteq> uid" using that Cons.prems(2) ue by (force simp: image_iff)
    then have "pv_entry (view ?g v) = pv_entry (view g v)" using view by simp
    then show ?thesis using that Cons.prems(3) by (auto simp: view_def)
  qed
  then have "\<forall>(v, e') \<in> set ues. js_get v (rg_index ?g) = Some e'" by blast
  from Cons.IH [OF calm _ this] Cons.prems(2) terms same view [of u] show ?case
    by (auto simp: ue same_terms_def)
qed

lemma sweep_pointwise:
  assumes "calm_dir g"
  shows "calm_dir (dir_sweep ledger_billing crawled g) \<and> same_terms g (dir_sweep ledger_billing crawled g) \<and>
    view (dir_sweep ledger_billing crawled g) u = swept (unix (rg_now g)) (rg_policy g) (serves g) (crawled u) (view g u)"
proof -
  have ok: "gmap_ok (js_m (rg_index g))" using assms by (simp add: calm_dir_def)
  then have all: "distinct (map fst (js_all (rg_index g)))" "\<forall>(v, e) \<in> set (js_all (rg_index g)). js_get v (rg_index g) = Some e"
    by (auto simp: gmap_ok_def js_all_def js_get_def)
  have "pv_entry (view g u) = None" if "u \<notin> fst ` set (js_all (rg_index g))"
    using that by (simp add: view_def js_get_def js_all_def map_of_eq_None_iff)
  then have "swept n p sv a (view g u) = view g u" if "u \<notin> fst ` set (js_all (rg_index g))" for n p sv a
    using that by (simp add: swept_def)
  then show ?thesis using turns_sweep_list [OF assms all, of crawled u] by (auto simp: dir_sweep_def)
qed

lemma maintenance_run:
  assumes "calm_dir g"
  shows "calm_dir (runMaintenance ledger_billing rounds g) \<and>
    view (runMaintenance ledger_billing rounds g) u = maintained (rg_now g) (rg_policy g) (serves g) u rounds (view g u)"
  using assms
proof (induction rounds arbitrary: g)
  case (Cons round rounds)
  obtain late crawled where r: "round = (late, crawled)" by fastforce
  let ?g = "g\<lparr>rg_now := rg_now g + sweepInterval + late\<rparr>"
  have "calm_dir ?g" "serves ?g = serves g" "view ?g = view g" using Cons.prems by (simp_all add: calm_dir_def serves_def view_def fun_eq_iff)
  note s = sweep_pointwise [OF this(1), of crawled u] this(2,3)
  let ?h = "dir_sweep ledger_billing crawled ?g"
  have "rg_now ?h = rg_now ?g" "rg_policy ?h = rg_policy g" "serves ?h = serves g"
    using s by (simp_all add: same_terms_def serves_def)
  then show ?case using Cons.IH [of ?h] s by (simp add: r Let_def)
qed simp

lemma swept_kept: "pv_entry (swept now p sv answer v) = Some e \<Longrightarrow> \<not> lapsed now e"
  by (auto simp: swept_def funded_view_def lapsed_def refreshed_def split: option.splits sum.splits if_splits)

lemma runMaintenance_append: "runMaintenance B (xs @ ys) g = runMaintenance B ys (runMaintenance B xs g)"
proof (induction xs arbitrary: g)
  case (Cons x xs)
  then show ?case by (cases x) simp
qed simp

text \<open>Nothing that has lapsed outlives the next sweep.\<close>

lemma maintenance_leaves_no_lapsed:
  assumes "calm_dir g" "js_get u (rg_index (runMaintenance ledger_billing (rounds @ [(late, crawled)]) g)) = Some e"
  shows "\<not> lapsed (unix (rg_now (runMaintenance ledger_billing (rounds @ [(late, crawled)]) g))) e"
proof -
  let ?h = "runMaintenance ledger_billing rounds g"
  let ?g = "?h\<lparr>rg_now := rg_now ?h + sweepInterval + late\<rparr>"
  have run: "runMaintenance ledger_billing (rounds @ [(late, crawled)]) g = dir_sweep ledger_billing crawled ?g"
    by (simp add: runMaintenance_append)
  have "calm_dir ?g" using maintenance_run [OF assms(1)] by (simp add: calm_dir_def)
  note s = sweep_pointwise [OF this, of crawled u]
  have "pv_entry (view (dir_sweep ledger_billing crawled ?g) u) = Some e" using assms(2) by (simp add: run view_def)
  then show ?thesis using s swept_kept [of "unix (rg_now ?g)"] unfolding run by (simp add: same_terms_def)
qed

section \<open>Property\<close>


text \<open>A listing that lapses in the first minute, one that is due, and a registration with its money; the second crawl fails.\<close>

definition demo_listing :: "int64 \<Rightarrow> Listing" where
  "demo_listing expires = \<lparr>l_description = ''d'', l_tags = [], l_test = ri_test (demo_reg ''echo''), l_catalog = Some ''old'', l_checked = - 1000000,
     l_verified = 0, l_latency = 0, l_approved = 0, l_renewed = 0, l_expires = expires\<rparr>"

definition demo_upkeep :: "ledger registry" where
  "demo_upkeep = (demo_directory 350)\<lparr>rg_started := True, rg_index := \<lparr>js_m =
     [(''ann'', \<lparr>e_Live = Some (demo_listing 60), e_Reg = None, e_Flag = ''f''\<rparr>),
      (''bob'', \<lparr>e_Live = Some (demo_listing 1000000), e_Reg = None, e_Flag = ''''\<rparr>),
      (''prov'', \<lparr>e_Live = None, e_Reg = Some (new_registration demo_policy 0 (demo_reg ''echo'') False), e_Flag = ''''\<rparr>)], js_file = no_file\<rparr>\<rparr>"

definition demo_rounds :: "(duration \<times> (string \<Rightarrow> string + string)) list" where
  "demo_rounds = [(0, \<lambda>uid. if uid = ''bob'' then Inr ''new'' else Inl ''unreachable''), (5, \<lambda>_. Inl ''unreachable'')]"


end
