(* ===== verification/Funding.thy ===== *)
theory Funding
  imports ServeBot "HOL-Library.Sublist" "HOL-Library.Multiset"
begin

text \<open>
  Registrations that run at the same time. \<^verbatim>\<open>brmcp-serve\<close> starts a goroutine for every directory of its configuration, and an
  invitation starts another one; they share the history of payments. \<^verbatim>\<open>Register\<close> is cut where other
  goroutines come in between: it asks the directory, reads the history in \<^verbatim>\<open>allowFund\<close>, locks it again to
  record the payment, pays, and asks once more. The host may restart at any time.
\<close>

section \<open>Goroutines\<close>

datatype register_phase = Asking | Allowing StatusOut | Recording StatusOut | Paying StatusOut fundEntry | Following StatusOut
  | Finished "string option" StatusOut

record register_job =
  jb_dir :: string
  jb_phase :: register_phase

text \<open>\<open>rn_paid\<close>: the payments launched, each with its entry in the history.\<close>

record registrant =
  rn_now :: instant
  rn_hist :: fundHistory
  rn_jobs :: "register_job list"
  rn_paid :: "fundEntry list"

definition to_phase :: "nat \<Rightarrow> register_phase \<Rightarrow> registrant \<Rightarrow> registrant" where
  "to_phase i ph s = s\<lparr>rn_jobs := (rn_jobs s)[i := (rn_jobs s ! i)\<lparr>jb_phase := ph\<rparr>]\<rparr>"

definition job_start :: "string \<Rightarrow> registrant \<Rightarrow> registrant" where
  "job_start dir s = s\<lparr>rn_jobs := rn_jobs s @ [\<lparr>jb_dir = dir, jb_phase = Asking\<rparr>]\<rparr>"

definition job_invited :: "RegistrantConfig \<Rightarrow> string \<Rightarrow> int64 \<Rightarrow> registrant \<Rightarrow> registrant" where
  "job_invited cfg peer fee s = (case listing_invite cfg (rn_now s) (rn_hist s) peer fee of
     None \<Rightarrow> job_start peer s
   | Some _ \<Rightarrow> s)"

definition job_ask :: "nat \<Rightarrow> register_answers \<Rightarrow> registrant \<Rightarrow> registrant" where
  "job_ask i a s = to_phase i (case register_ask (rn_now s) a of
     Inl (err, st) \<Rightarrow> Finished err st
   | Inr st \<Rightarrow> if so_shortfall st \<le> 0 then Finished None st else Allowing st) s"

definition job_allow :: "AutoFund \<Rightarrow> nat \<Rightarrow> StatusOut \<Rightarrow> registrant \<Rightarrow> registrant" where
  "job_allow p i st s = to_phase i (case allowFund p (rn_now s) (rn_hist s) (jb_dir (rn_jobs s ! i)) (so_shortfall st) of
     Some reason \<Rightarrow> Finished (Some (''funding declined: '' @ reason)) st
   | None \<Rightarrow> Recording st) s"

definition job_record :: "nat \<Rightarrow> StatusOut \<Rightarrow> registrant \<Rightarrow> registrant" where
  "job_record i st s =
     (let e = \<lparr>fe_ts = unix (rn_now s), fe_dir = jb_dir (rn_jobs s ! i), fe_atoms = so_shortfall st\<rparr> in
      case fund_record e (rn_hist s) of
        (Some _, h) \<Rightarrow> to_phase i (Finished (Some ''fund history'') st) (s\<lparr>rn_hist := h\<rparr>)
      | (None, h) \<Rightarrow> to_phase i (Paying st e) (s\<lparr>rn_hist := h\<rparr>))"

definition job_pay :: "nat \<Rightarrow> StatusOut \<Rightarrow> fundEntry \<Rightarrow> string option \<Rightarrow> registrant \<Rightarrow> registrant" where
  "job_pay i st e answer s = to_phase i (case answer of
     Some err \<Rightarrow> Finished (Some (''funding payment: '' @ err)) st
   | None \<Rightarrow> Following st) (s\<lparr>rn_paid := rn_paid s @ [e]\<rparr>)"

definition job_follow :: "nat \<Rightarrow> StatusOut \<Rightarrow> string + StatusOut \<Rightarrow> registrant \<Rightarrow> registrant" where
  "job_follow i st answer s = to_phase i (case answer of
     Inl err \<Rightarrow> Finished (Some err) (status_zero '''')
   | Inr r \<Rightarrow> Finished None (decode_into r st)) s"

text \<open>The start of \<^verbatim>\<open>brmcp-serve\<close> with a directory block, and the tool that it adds to the harness.\<close>

definition registrant_at :: "instant \<Rightarrow> fundHistory \<Rightarrow> registrant" where
  "registrant_at now h = \<lparr>rn_now = now, rn_hist = h, rn_jobs = [], rn_paid = []\<rparr>"

definition serve_start :: "string \<Rightarrow> directoryEntry \<Rightarrow> instant \<Rightarrow> fundEntry list store \<Rightarrow> string + RegistrantConfig \<times> registrant" where
  "serve_start datadir d now store = (case NewRegistrant (serve_registrant datadir d) store of
     Inl e \<Rightarrow> Inl (''directory registrant disabled: '' @ e)
   | Inr (cfg, h) \<Rightarrow> Inr (cfg, fold job_start (de_RegisterAtUIDs d) (registrant_at now h)))"

definition RegisterTools :: "('b, 'i, 'o) harness \<Rightarrow> ('b, 'i, 'o) harness" where
  "RegisterTools h = AddTool h (plain_tool ''listing_invite'') 0"

datatype fund_event = JStart string | JInvited string int64 | JAsk nat register_answers | JAllow nat | JRecord nat
  | JPay nat "string option" | JFollow nat "string + StatusOut" | JTick duration | JRestart

fun job_step :: "RegistrantConfig \<Rightarrow> fund_event \<Rightarrow> register_phase \<Rightarrow> registrant \<Rightarrow> registrant option" where
  "job_step cfg (JAsk i a) Asking s = Some (job_ask i a s)"
| "job_step cfg (JAllow i) (Allowing st) s = Some (job_allow (rc_autoFund cfg) i st s)"
| "job_step cfg (JRecord i) (Recording st) s = Some (job_record i st s)"
| "job_step cfg (JPay i answer) (Paying st e) s = Some (job_pay i st e answer s)"
| "job_step cfg (JFollow i answer) (Following st) s = Some (job_follow i st answer s)"
| "job_step cfg _ _ s = None"

fun job_of :: "fund_event \<Rightarrow> nat option" where
  "job_of (JAsk i a) = Some i"
| "job_of (JAllow i) = Some i"
| "job_of (JRecord i) = Some i"
| "job_of (JPay i answer) = Some i"
| "job_of (JFollow i answer) = Some i"
| "job_of e = None"

definition fund_step :: "RegistrantConfig \<Rightarrow> fund_event \<Rightarrow> registrant \<Rightarrow> registrant option" where
  "fund_step cfg e s = (case job_of e of
     Some i \<Rightarrow> if i < length (rn_jobs s) then job_step cfg e (jb_phase (rn_jobs s ! i)) s else None
   | None \<Rightarrow> (case e of
       JStart dir \<Rightarrow> Some (job_start dir s)
     | JInvited peer fee \<Rightarrow> Some (job_invited cfg peer fee s)
     | JTick d \<Rightarrow> if 0 \<le> d then Some (s\<lparr>rn_now := rn_now s + d\<rparr>) else None
     | JRestart \<Rightarrow> (case openFundHistory (fh_store (rn_hist s)) of
         Inl _ \<Rightarrow> None
       | Inr h \<Rightarrow> Some (s\<lparr>rn_hist := h, rn_jobs := []\<rparr>))
     | _ \<Rightarrow> None))"

fun fund_run :: "RegistrantConfig \<Rightarrow> fund_event list \<Rightarrow> registrant \<Rightarrow> registrant option" where
  "fund_run cfg [] s = Some s"
| "fund_run cfg (e # es) s = (case fund_step cfg e s of None \<Rightarrow> None | Some s' \<Rightarrow> fund_run cfg es s')"

section \<open>Alone, it is Register\<close>

definition attempt :: "RegistrantConfig \<Rightarrow> fund_event \<Rightarrow> registrant \<Rightarrow> registrant" where
  "attempt cfg e s = (case fund_step cfg e s of None \<Rightarrow> s | Some s' \<Rightarrow> s')"

lemma attempt_only: "rn_jobs s = [j] \<Longrightarrow> job_of e = Some 0 \<Longrightarrow> attempt cfg e s = (case job_step cfg e (jb_phase j) s of None \<Rightarrow> s | Some s' \<Rightarrow> s')"
  by (simp add: attempt_def fund_step_def)

lemma only_job [simp]: "rn_jobs s = [j] \<Longrightarrow> rn_jobs (to_phase 0 ph s) = [j\<lparr>jb_phase := ph\<rparr>]"
  by (simp add: to_phase_def)

lemma to_phase_simps [simp]:
  "rn_hist (to_phase i ph s) = rn_hist s" "rn_now (to_phase i ph s) = rn_now s" "rn_paid (to_phase i ph s) = rn_paid s"
  "length (rn_jobs (to_phase i ph s)) = length (rn_jobs s)"
  by (simp_all add: to_phase_def)

lemmas job_defs = job_ask_def job_allow_def job_record_def job_pay_def job_follow_def

text \<open>A registration whose steps follow each other does what \<open>Register\<close> does.\<close>

lemma registration_alone:
  assumes "rn_jobs s = [\<lparr>jb_dir = dir, jb_phase = Asking\<rparr>]" "Register (rc_autoFund cfg) (rn_now s) dir a (rn_hist s) = (r, ps, h)"
  defines "s' \<equiv> fold (attempt cfg) [JAsk 0 a, JAllow 0, JRecord 0, JPay 0 (an_pay a), JFollow 0 (an_after a)] s"
  shows "rn_jobs s' = [\<lparr>jb_dir = dir, jb_phase = Finished (fst r) (snd r)\<rparr>] \<and> rn_hist s' = h \<and> rn_now s' = rn_now s \<and>
    rn_paid s' = rn_paid s @ map (\<lambda>n. \<lparr>fe_ts = unix (rn_now s), fe_dir = dir, fe_atoms = n\<rparr>) ps"
proof (cases "register_ask (rn_now s) a")
  case (Inl x)
  then show ?thesis using assms(1,2) unfolding s'_def
    by (cases x; cases r) (simp add: Register_def attempt_only job_defs)
next
  case (Inr st)
  let ?e = "\<lparr>fe_ts = unix (rn_now s), fe_dir = dir, fe_atoms = so_shortfall st\<rparr>"
  obtain err g where f: "fund_record ?e (rn_hist s) = (err, g)" by fastforce
  show ?thesis
  proof (cases "so_shortfall st \<le> 0 \<or> allowFund (rc_autoFund cfg) (rn_now s) (rn_hist s) dir (so_shortfall st) \<noteq> None \<or> err \<noteq> None")
    case True
    then show ?thesis using assms(1,2) Inr f unfolding s'_def
      by (cases "so_shortfall st \<le> 0"; cases "allowFund (rc_autoFund cfg) (rn_now s) (rn_hist s) dir (so_shortfall st)"; cases err; cases r)
        (simp_all add: Register_def attempt_only job_defs)
  next
    case False
    then show ?thesis using assms(1,2) Inr f unfolding s'_def
      by (cases "an_pay a"; cases "an_after a"; cases r) (auto simp: Register_def attempt_only job_defs)
  qed
qed

section \<open>Invariant\<close>

text \<open>A registration between the look at the history and the entry in it, and one whose payment is recorded but not launched.\<close>

definition in_gap :: "register_job \<Rightarrow> bool" where
  "in_gap j = (case jb_phase j of Recording st \<Rightarrow> True | _ \<Rightarrow> False)"

definition pending :: "register_job \<Rightarrow> int" where
  "pending j = (case jb_phase j of Recording st \<Rightarrow> so_shortfall st | _ \<Rightarrow> 0)"

definition to_pay :: "register_job \<Rightarrow> fundEntry multiset" where
  "to_pay j = (case jb_phase j of Paying st e \<Rightarrow> {#e#} | _ \<Rightarrow> {#})"

definition permitted :: "AutoFund \<Rightarrow> string \<Rightarrow> int64 \<Rightarrow> bool" where
  "permitted p dir n \<longleftrightarrow> 0 < n \<and> n \<le> af_perRequest p \<and> af_Enabled p \<and> (af_allowed p = [] \<or> dir \<in> set (af_allowed p))"

definition job_ok :: "AutoFund \<Rightarrow> register_job \<Rightarrow> bool" where
  "job_ok p j = (case jb_phase j of
     Allowing st \<Rightarrow> 0 < so_shortfall st
   | Recording st \<Rightarrow> permitted p (jb_dir j) (so_shortfall st)
   | Paying st e \<Rightarrow> permitted p (fe_dir e) (fe_atoms e)
   | _ \<Rightarrow> True)"

definition orders_ok :: "AutoFund \<Rightarrow> registrant \<Rightarrow> bool" where
  "orders_ok p s \<longleftrightarrow> (\<forall>j \<in> set (rn_jobs s). job_ok p j) \<and> (\<forall>e \<in> set (rn_paid s). permitted p (fe_dir e) (fe_atoms e))"

definition within_caps :: "AutoFund \<Rightarrow> nat \<Rightarrow> registrant \<Rightarrow> bool" where
  "within_caps p n s \<longleftrightarrow> fund_ok (rn_hist s) \<and>
     funded (unix (rn_now s - fund_window)) (rn_hist s) + sum_list (map pending (rn_jobs s)) \<le> af_perMonth p + (int n - 1) * af_perRequest p"

definition paid_recorded :: "registrant \<Rightarrow> bool" where
  "paid_recorded s \<longleftrightarrow> (\<exists>es. open_file [] (fh_store (rn_hist s)) = Inr es \<and> prefix es (fh_entries (rn_hist s)) \<and>
     mset (rn_paid s) + sum_list (map to_pay (rn_jobs s)) \<subseteq># mset es)"

definition fund_inv :: "AutoFund \<Rightarrow> nat \<Rightarrow> registrant \<Rightarrow> bool" where
  "fund_inv p n s \<longleftrightarrow> orders_ok p s \<and> within_caps p n s \<and> paid_recorded s"

lemma sum_list_set:
  "i < length xs \<Longrightarrow> sum_list (map f (xs[i := y])) + f (xs ! i) = sum_list (map f xs) + (f y :: 'b::comm_monoid_add)"
proof (induction xs arbitrary: i)
  case (Cons x xs)
  show ?case
  proof (cases i)
    case 0
    then show ?thesis by (simp add: ac_simps)
  next
    case (Suc k)
    then show ?thesis using Cons.IH [of k] Cons.prems by (simp add: add.assoc)
  qed
qed simp

lemma total_to_phase:
  "i < length (rn_jobs s) \<Longrightarrow> sum_list (map f (rn_jobs (to_phase i ph s))) + f (rn_jobs s ! i) =
     sum_list (map f (rn_jobs s)) + (f ((rn_jobs s ! i)\<lparr>jb_phase := ph\<rparr>) :: 'b::comm_monoid_add)"
  by (simp add: to_phase_def sum_list_set)

lemma gaps_to_phase:
  "i < length (rn_jobs s) \<Longrightarrow> \<not> in_gap (rn_jobs s ! i) \<Longrightarrow>
     length (filter in_gap (rn_jobs (to_phase i ph s))) = length (filter in_gap (rn_jobs s)) + (if in_gap ((rn_jobs s ! i)\<lparr>jb_phase := ph\<rparr>) then 1 else 0)"
proof -
  have "length (filter in_gap js) = sum_list (map (\<lambda>j. if in_gap j then 1 else 0) js)" for js by (induction js) auto
  then show "i < length (rn_jobs s) \<Longrightarrow> \<not> in_gap (rn_jobs s ! i) \<Longrightarrow> ?thesis"
    using total_to_phase [of i s "\<lambda>j. if in_gap j then 1 else 0 :: nat" ph] by simp
qed

lemma orders_to_phase:
  "orders_ok p s \<Longrightarrow> job_ok p ((rn_jobs s ! i)\<lparr>jb_phase := ph\<rparr>) \<Longrightarrow> orders_ok p (to_phase i ph s)"
  using set_update_subset_insert [of "rn_jobs s" i] by (fastforce simp: orders_ok_def to_phase_def)

lemma orders_job: "orders_ok p s \<Longrightarrow> i < length (rn_jobs s) \<Longrightarrow> job_ok p (rn_jobs s ! i)"
  by (simp add: orders_ok_def)

lemma pending_bound:
  assumes "orders_ok p s"
  shows "0 \<le> sum_list (map pending (rn_jobs s)) \<and> sum_list (map pending (rn_jobs s)) \<le> int (length (filter in_gap (rn_jobs s))) * af_perRequest p"
proof -
  have "\<forall>j \<in> set js. job_ok p j \<Longrightarrow> 0 \<le> sum_list (map pending js) \<and> sum_list (map pending js) \<le> int (length (filter in_gap js)) * af_perRequest p" for js
    by (induction js) (auto simp: pending_def in_gap_def job_ok_def permitted_def distrib_right split: register_phase.splits)
  then show ?thesis using assms by (simp add: orders_ok_def)
qed

text \<open>Steps that neither decide nor record nor pay.\<close>

lemma quiet_phase:
  assumes "fund_inv p n s" "i < length (rn_jobs s)" "job_ok p ((rn_jobs s ! i)\<lparr>jb_phase := ph\<rparr>)"
    and "pending (rn_jobs s ! i) = 0" "pending ((rn_jobs s ! i)\<lparr>jb_phase := ph\<rparr>) = 0"
    and "to_pay (rn_jobs s ! i) = {#}" "to_pay ((rn_jobs s ! i)\<lparr>jb_phase := ph\<rparr>) = {#}"
  shows "fund_inv p n (to_phase i ph s)"
  using assms total_to_phase [OF assms(2), of pending ph] total_to_phase [OF assms(2), of to_pay ph] orders_to_phase [of p s ph i]
  by (simp add: fund_inv_def within_caps_def paid_recorded_def)

section \<open>Every step keeps it\<close>

lemma inv_start: "fund_inv p n s \<Longrightarrow> fund_inv p n (job_start dir s)"
  by (auto simp: fund_inv_def job_start_def orders_ok_def within_caps_def paid_recorded_def job_ok_def pending_def to_pay_def)

lemma inv_ask:
  assumes "fund_inv p n s" "i < length (rn_jobs s)" "jb_phase (rn_jobs s ! i) = Asking"
  shows "fund_inv p n (job_ask i a s)"
  unfolding job_ask_def using assms(3)
  by (intro quiet_phase [OF assms(1,2)]) (auto simp: job_ok_def pending_def to_pay_def split: sum.splits)

lemma inv_follow:
  assumes "fund_inv p n s" "i < length (rn_jobs s)" "jb_phase (rn_jobs s ! i) = Following st"
  shows "fund_inv p n (job_follow i st answer s)"
  unfolding job_follow_def using assms(3)
  by (intro quiet_phase [OF assms(1,2)]) (auto simp: job_ok_def pending_def to_pay_def split: sum.splits)

lemma inv_pay:
  assumes "fund_inv p n s" "i < length (rn_jobs s)" "jb_phase (rn_jobs s ! i) = Paying st e"
  shows "fund_inv p n (job_pay i st e answer s)"
proof -
  let ?s = "s\<lparr>rn_paid := rn_paid s @ [e]\<rparr>"
  define ph where "ph = (case answer of Some err \<Rightarrow> Finished (Some (''funding payment: '' @ err)) st | None \<Rightarrow> Following st)"
  have i: "i < length (rn_jobs ?s)" using assms(2) by simp
  have new: "pending ((rn_jobs s ! i)\<lparr>jb_phase := ph\<rparr>) = 0" "to_pay ((rn_jobs s ! i)\<lparr>jb_phase := ph\<rparr>) = {#}" "job_ok p ((rn_jobs s ! i)\<lparr>jb_phase := ph\<rparr>)"
    by (auto simp: ph_def pending_def to_pay_def job_ok_def split: option.splits)
  have old: "pending (rn_jobs s ! i) = 0" "to_pay (rn_jobs s ! i) = {#e#}" using assms(3) by (simp_all add: pending_def to_pay_def)
  have "permitted p (fe_dir e) (fe_atoms e)" using orders_job [of p s i] assms by (simp add: fund_inv_def job_ok_def)
  then have "orders_ok p ?s" using assms(1) by (auto simp: fund_inv_def orders_ok_def)
  then have "orders_ok p (to_phase i ph ?s)" using orders_to_phase [of p ?s ph i] new(3) by simp
  moreover have "sum_list (map pending (rn_jobs (to_phase i ph ?s))) = sum_list (map pending (rn_jobs s))"
    "sum_list (map to_pay (rn_jobs s)) = add_mset e (sum_list (map to_pay (rn_jobs (to_phase i ph ?s))))"
    using total_to_phase [OF i, of pending ph] total_to_phase [OF i, of to_pay ph] new old by simp_all
  ultimately show ?thesis using assms(1) unfolding job_pay_def ph_def [symmetric]
    by (simp add: fund_inv_def within_caps_def paid_recorded_def)
qed

lemma permitted_allow:
  "allowFund p now h dir n = None \<Longrightarrow> 0 < n \<Longrightarrow> 0 < af_perRequest p \<Longrightarrow> permitted p dir n"
  by (auto simp: allowFund_def permitted_def split: if_splits)

lemma inv_allow:
  assumes "fund_inv p n s" "i < length (rn_jobs s)" "jb_phase (rn_jobs s ! i) = Allowing st"
    and "0 < af_perRequest p" "0 < af_perMonth p" "af_perMonth p + int n * af_perRequest p \<le> max64"
    and "length (filter in_gap (rn_jobs (job_allow p i st s))) \<le> n"
  shows "fund_inv p n (job_allow p i st s)"
proof -
  let ?dir = "jb_dir (rn_jobs s ! i)" and ?n = "so_shortfall st" and ?f = "funded (unix (rn_now s - fund_window)) (rn_hist s)"
  have inv: "orders_ok p s" "within_caps p n s" using assms(1) by (simp_all add: fund_inv_def)
  have st: "0 < ?n" using orders_job [OF inv(1) assms(2)] assms(3) by (simp add: job_ok_def)
  have old: "pending (rn_jobs s ! i) = 0" "to_pay (rn_jobs s ! i) = {#}" "\<not> in_gap (rn_jobs s ! i)"
    using assms(3) by (simp_all add: pending_def to_pay_def in_gap_def)
  show ?thesis
  proof (cases "allowFund p (rn_now s) (rn_hist s) ?dir ?n")
    case (Some reason)
    then show ?thesis using quiet_phase [OF assms(1,2), of "Finished (Some (''funding declined: '' @ reason)) st"] old
      by (simp add: job_allow_def job_ok_def pending_def to_pay_def)
  next
    case None
    let ?new = "(rn_jobs s ! i)\<lparr>jb_phase := Recording st\<rparr>"
    have s': "job_allow p i st s = to_phase i (Recording st) s" using None by (simp add: job_allow_def)
    have perm: "permitted p ?dir ?n" by (rule permitted_allow [OF None st assms(4)])
    have new: "pending ?new = ?n" "to_pay ?new = {#}" "in_gap ?new" "job_ok p ?new"
      using perm by (simp_all add: pending_def to_pay_def in_gap_def job_ok_def)
    have gap: "length (filter in_gap (rn_jobs s)) + 1 \<le> n" using assms(7) gaps_to_phase [OF assms(2) old(3)] new(3) unfolding s' by simp
    have others: "0 \<le> sum_list (map pending (rn_jobs s))" "sum_list (map pending (rn_jobs s)) \<le> (int n - 1) * af_perRequest p"
    proof -
      have "int (length (filter in_gap (rn_jobs s))) * af_perRequest p \<le> (int n - 1) * af_perRequest p"
        using gap assms(4) by (intro mult_right_mono) simp_all
      then show "0 \<le> sum_list (map pending (rn_jobs s))" "sum_list (map pending (rn_jobs s)) \<le> (int n - 1) * af_perRequest p"
        using pending_bound [OF inv(1)] by linarith+
    qed
    have f: "0 \<le> ?f" "?f \<le> af_perMonth p + (int n - 1) * af_perRequest p"
      using inv(2) others funded_nonneg by (auto simp: within_caps_def)
    have "(int n - 1) * af_perRequest p + af_perRequest p = int n * af_perRequest p" by (simp add: algebra_simps)
    then have "in64 ?f" "in64 (?f + ?n)" using f assms(4-6) perm by (auto simp: range64 permitted_def)
    then have "?f + ?n \<le> af_perMonth p" using None assms(5) by (auto simp: allowFund_def totalSince_exact add64_exact split: if_splits)
    then have "within_caps p n (to_phase i (Recording st) s)"
      using inv(2) others(2) total_to_phase [OF assms(2), of pending "Recording st"] old(1) new(1) by (simp add: within_caps_def)
    moreover have "paid_recorded (to_phase i (Recording st) s)"
      using assms(1) total_to_phase [OF assms(2), of to_pay "Recording st"] old(2) new(2) by (simp add: fund_inv_def paid_recorded_def)
    ultimately show ?thesis unfolding s' using orders_to_phase [OF inv(1) new(4)] by (simp add: fund_inv_def)
  qed
qed

lemma prefix_mset: "prefix xs ys \<Longrightarrow> mset xs \<subseteq># mset ys"
  by (auto simp: prefix_def)

lemma record_disk:
  assumes "open_file [] (fh_store h) = Inr es" "prefix es (fh_entries h)" "fund_record e h = (err, h')"
  shows "\<exists>es'. open_file [] (fh_store h') = Inr es' \<and> prefix es' (fh_entries h') \<and> mset es + (if err = None then {#e#} else {#}) \<subseteq># mset es'"
proof -
  have h': "fh_entries h' = fh_entries h @ [e]" "fh_store h' = snd (persist (fh_entries h @ [e]) (fh_store h))"
    "err = fst (persist (fh_entries h @ [e]) (fh_store h))"
    using assms(3) by (auto simp: fund_record_def Let_def split_beta)
  show ?thesis
  proof (cases err)
    case None
    then show ?thesis using h' prefix_mset [OF assms(2)] by (intro exI [of _ "fh_entries h'"]) simp
  next
    case (Some x)
    then have "open_file [] (fh_store h') = open_file [] (fh_store h)" using h'(2,3) by (simp add: open_file_def persist_atomic)
    then show ?thesis using assms(1,2) h'(1) Some by (intro exI [of _ es]) (simp add: prefix_prefix)
  qed
qed

lemma inv_record:
  assumes "fund_inv p n s" "i < length (rn_jobs s)" "jb_phase (rn_jobs s ! i) = Recording st"
  shows "fund_inv p n (job_record i st s)"
proof -
  define e where "e = \<lparr>fe_ts = unix (rn_now s), fe_dir = jb_dir (rn_jobs s ! i), fe_atoms = so_shortfall st\<rparr>"
  obtain err h where r: "fund_record e (rn_hist s) = (err, h)" by fastforce
  define ph where "ph = (case err of Some _ \<Rightarrow> Finished (Some ''fund history'') st | None \<Rightarrow> Paying st e)"
  let ?s = "s\<lparr>rn_hist := h\<rparr>" and ?new = "(rn_jobs s ! i)\<lparr>jb_phase := ph\<rparr>"
  have s': "job_record i st s = to_phase i ph ?s"
    using r by (cases err) (simp_all add: job_record_def e_def [symmetric] ph_def)
  have inv: "orders_ok p s" "within_caps p n s" "paid_recorded s" and i: "i < length (rn_jobs ?s)" using assms(1,2) by (simp_all add: fund_inv_def)
  have perm: "permitted p (fe_dir e) (fe_atoms e)" using orders_job [OF inv(1) assms(2)] assms(3) by (simp add: job_ok_def e_def)
  have new: "pending ?new = 0" "to_pay ?new = (if err = None then {#e#} else {#})" "job_ok p ?new"
    using perm by (auto simp: ph_def pending_def to_pay_def job_ok_def split: option.splits)
  have old: "pending (rn_jobs s ! i) = fe_atoms e" "to_pay (rn_jobs s ! i) = {#}" using assms(3) by (simp_all add: pending_def to_pay_def e_def)
  have sums: "sum_list (map pending (rn_jobs (to_phase i ph ?s))) + fe_atoms e = sum_list (map pending (rn_jobs s))"
    "sum_list (map to_pay (rn_jobs (to_phase i ph ?s))) = sum_list (map to_pay (rn_jobs s)) + (if err = None then {#e#} else {#})"
    using total_to_phase [OF i, of pending ph] total_to_phase [OF i, of to_pay ph] new old by simp_all
  have h: "h = snd (fund_record e (rn_hist s))" by (simp add: r)
  have "unix (rn_now s - fund_window) \<le> fe_ts e" unfolding e_def by (simp, rule unix_mono) (simp add: fund_window_def durations)
  then have "funded (unix (rn_now s - fund_window)) h = funded (unix (rn_now s - fund_window)) (rn_hist s) + fe_atoms e"
    by (simp add: h funded_record)
  moreover have "fund_ok h" using inv(2) perm by (simp add: h within_caps_def fund_ok_def fund_record_entries permitted_def)
  ultimately have "within_caps p n (to_phase i ph ?s)" using inv(2) sums(1) by (simp add: within_caps_def)
  moreover have "paid_recorded (to_phase i ph ?s)"
  proof -
    obtain es where es: "open_file [] (fh_store (rn_hist s)) = Inr es" "prefix es (fh_entries (rn_hist s))"
      "mset (rn_paid s) + sum_list (map to_pay (rn_jobs s)) \<subseteq># mset es" using inv(3) by (auto simp: paid_recorded_def)
    obtain es' where es': "open_file [] (fh_store h) = Inr es'" "prefix es' (fh_entries h)"
      "mset es + (if err = None then {#e#} else {#}) \<subseteq># mset es'" using record_disk [OF es(1,2) r] by blast
    have "mset (rn_paid s) + sum_list (map to_pay (rn_jobs s)) + (if err = None then {#e#} else {#}) \<subseteq># mset es'"
      by (rule subset_mset.order_trans [OF subset_mset.add_right_mono [OF es(3)] es'(3)])
    then show ?thesis using es'(1,2) sums(2) by (simp add: paid_recorded_def add.assoc)
  qed
  moreover have "orders_ok p (to_phase i ph ?s)" using orders_to_phase [of p ?s ph i] inv(1) new(3) by (simp add: orders_ok_def)
  ultimately show ?thesis unfolding s' by (simp add: fund_inv_def)
qed

lemma inv_tick: "fund_inv p n s \<Longrightarrow> 0 \<le> d \<Longrightarrow> fund_inv p n (s\<lparr>rn_now := rn_now s + d\<rparr>)"
  using funded_later [of "rn_hist s" "unix (rn_now s - fund_window)" "unix (rn_now s + d - fund_window)"] unix_mono [of "rn_now s - fund_window" "rn_now s + d - fund_window"]
  by (auto simp: fund_inv_def orders_ok_def within_caps_def paid_recorded_def)

lemma inv_restart:
  assumes "fund_inv p n s" "openFundHistory (fh_store (rn_hist s)) = Inr h"
  shows "fund_inv p n (s\<lparr>rn_hist := h, rn_jobs := []\<rparr>)"
proof -
  obtain es where es: "open_file [] (fh_store (rn_hist s)) = Inr es" "prefix es (fh_entries (rn_hist s))"
    "mset (rn_paid s) + sum_list (map to_pay (rn_jobs s)) \<subseteq># mset es" using assms(1) by (auto simp: fund_inv_def paid_recorded_def)
  have h: "h = \<lparr>fh_entries = es, fh_store = fh_store (rn_hist s)\<rparr>" using assms(2) es(1) by (simp add: openFundHistory_def)
  obtain zs where zs: "fh_entries (rn_hist s) = es @ zs" using es(2) by (auto simp: prefix_def)
  have ok: "fund_ok (rn_hist s)" using assms(1) by (simp add: fund_inv_def within_caps_def)
  then have ok': "fund_ok h" "0 \<le> sum_list (map fe_atoms (filter (\<lambda>e. lim \<le> fe_ts e) zs))" for lim
    by (auto simp: h fund_ok_def zs intro!: sum_list_nonneg)
  then have "funded (unix (rn_now s - fund_window)) h \<le> funded (unix (rn_now s - fund_window)) (rn_hist s)" by (simp add: funded_def h zs)
  moreover have "0 \<le> sum_list (map pending (rn_jobs s))" using pending_bound [of p s] assms(1) by (simp add: fund_inv_def)
  ultimately have "within_caps p n (s\<lparr>rn_hist := h, rn_jobs := []\<rparr>)"
    using assms(1) ok'(1) by (simp add: fund_inv_def within_caps_def)
  moreover have "mset (rn_paid s) \<subseteq># mset es" using es(3) by (meson mset_subset_eq_add_left subset_mset.order_trans)
  then have "paid_recorded (s\<lparr>rn_hist := h, rn_jobs := []\<rparr>)" using es(1) by (simp add: paid_recorded_def h)
  ultimately show ?thesis using assms(1) by (simp add: fund_inv_def orders_ok_def)
qed

lemma inv_step:
  assumes "fund_inv (rc_autoFund cfg) n s" "fund_step cfg e s = Some s'" "length (filter in_gap (rn_jobs s')) \<le> n"
    and "0 < af_perRequest (rc_autoFund cfg)" "0 < af_perMonth (rc_autoFund cfg)"
    and "af_perMonth (rc_autoFund cfg) + int n * af_perRequest (rc_autoFund cfg) \<le> max64"
  shows "fund_inv (rc_autoFund cfg) n s'"
proof (cases "job_of e")
  case None
  then show ?thesis using assms(1,2) inv_start inv_tick inv_restart
    by (cases e) (auto simp: fund_step_def job_invited_def split: option.splits sum.splits if_splits)
next
  case (Some i)
  then have i: "i < length (rn_jobs s)" "job_step cfg e (jb_phase (rn_jobs s ! i)) s = Some s'"
    using assms(2) by (auto simp: fund_step_def split: if_splits)
  show ?thesis using Some i(2) assms(3-6) inv_ask [OF assms(1) i(1)] inv_follow [OF assms(1) i(1)] inv_pay [OF assms(1) i(1)]
      inv_allow [OF assms(1) i(1)] inv_record [OF assms(1) i(1)]
    by (cases e; cases "jb_phase (rn_jobs s ! i)") auto
qed

text \<open>At no time are more than \<open>n\<close> registrations between their look at the history and their entry in it.\<close>

fun overlap_at_most :: "nat \<Rightarrow> RegistrantConfig \<Rightarrow> fund_event list \<Rightarrow> registrant \<Rightarrow> bool" where
  "overlap_at_most n cfg [] s = True"
| "overlap_at_most n cfg (e # es) s = (case fund_step cfg e s of
     None \<Rightarrow> True
   | Some s' \<Rightarrow> length (filter in_gap (rn_jobs s')) \<le> n \<and> overlap_at_most n cfg es s')"

lemma inv_run:
  assumes "0 < af_perRequest (rc_autoFund cfg)" "0 < af_perMonth (rc_autoFund cfg)"
    "af_perMonth (rc_autoFund cfg) + int n * af_perRequest (rc_autoFund cfg) \<le> max64"
  shows "fund_inv (rc_autoFund cfg) n s \<Longrightarrow> fund_run cfg es s = Some s' \<Longrightarrow> overlap_at_most n cfg es s \<Longrightarrow> fund_inv (rc_autoFund cfg) n s'"
  by (induction es arbitrary: s) (auto split: option.splits dest: inv_step [OF _ _ _ assms])

section \<open>Properties\<close>

text \<open>
  C17: Auto-funding stays within the operator's policy, up to what overlaps. With a per-request and a monthly cap set, let
  registrations and invitations run in any interleaving, whatever the directories and the rail answer, with any failures of
  the disk and any restarts, and let at most \<open>n\<close> registrations be between their look at the history and
  their entry in it. Then the payments of the last thirty days exceed the monthly cap by at most \<open>n - 1\<close> requests, so not at all
  when registrations take turns; every payment is positive, within the per-request cap, made while funding is enabled and to an
  allowed directory; and every payment launched is in the history on disk, so that a crash cannot forget it.
\<close>

theorem overlapping_funding:
  assumes "0 < af_perRequest (rc_autoFund cfg)" "0 < af_perMonth (rc_autoFund cfg)"
    and "af_perMonth (rc_autoFund cfg) + int n * af_perRequest (rc_autoFund cfg) \<le> max64" "0 < n"
    and "openFundHistory store = Inr h" "fund_ok h" "funded (unix (now - fund_window)) h \<le> af_perMonth (rc_autoFund cfg)"
    and "fund_run cfg es (registrant_at now h) = Some s" "overlap_at_most n cfg es (registrant_at now h)"
  shows "sum_list (map fe_atoms (filter (\<lambda>e. unix (rn_now s - fund_window) \<le> fe_ts e) (rn_paid s))) \<le>
      af_perMonth (rc_autoFund cfg) + (int n - 1) * af_perRequest (rc_autoFund cfg) \<and>
    (\<forall>e \<in> set (rn_paid s). 0 < fe_atoms e \<and> fe_atoms e \<le> af_perRequest (rc_autoFund cfg) \<and> af_Enabled (rc_autoFund cfg) \<and>
      (af_allowed (rc_autoFund cfg) = [] \<or> fe_dir e \<in> set (af_allowed (rc_autoFund cfg)))) \<and>
    (\<exists>d. openFundHistory (fh_store (rn_hist s)) = Inr d \<and> mset (rn_paid s) \<subseteq># mset (fh_entries d))"
proof -
  let ?p = "rc_autoFund cfg" and ?lim = "unix (rn_now s - fund_window)"
  have h: "open_file [] (fh_store h) = Inr (fh_entries h)" using assms(5) by (auto simp: openFundHistory_def split: sum.splits)
  have "0 \<le> (int n - 1) * af_perRequest ?p" using assms(1,4) by simp
  then have "fund_inv ?p n (registrant_at now h)" using assms(6,7) h
    by (simp add: fund_inv_def registrant_at_def orders_ok_def within_caps_def paid_recorded_def)
  then have inv: "fund_inv ?p n s" using inv_run [OF assms(1-3)] assms(8,9) by blast
  then obtain es' where es': "open_file [] (fh_store (rn_hist s)) = Inr es'" "prefix es' (fh_entries (rn_hist s))" "mset (rn_paid s) \<subseteq># mset es'"
    unfolding fund_inv_def paid_recorded_def by (meson mset_subset_eq_add_left subset_mset.order_trans)
  have ok: "fund_ok (rn_hist s)" and orders: "orders_ok ?p s" using inv by (simp_all add: fund_inv_def within_caps_def)
  have "mset (rn_paid s) \<subseteq># mset (fh_entries (rn_hist s))" by (rule subset_mset.order_trans [OF es'(3) prefix_mset [OF es'(2)]])
  then obtain M where M: "mset (fh_entries (rn_hist s)) = mset (rn_paid s) + M" by (metis mset_subset_eq_exists_conv)
  have total: "sum_list (map fe_atoms (filter P xs)) = sum_mset (image_mset fe_atoms (filter_mset P (mset xs)))" for P xs
    by (metis mset_filter mset_map sum_mset_sum_list)
  have "fe_atoms e \<ge> 0" if "e \<in># M" for e using ok that M by (metis fund_ok_def set_mset_mset union_iff)
  then have "0 \<le> sum_mset (image_mset fe_atoms (filter_mset (\<lambda>e. ?lim \<le> fe_ts e) M))" by (induction M) auto
  then have "sum_list (map fe_atoms (filter (\<lambda>e. ?lim \<le> fe_ts e) (rn_paid s))) \<le> funded ?lim (rn_hist s)"
    unfolding funded_def total M by simp
  moreover have "0 \<le> sum_list (map pending (rn_jobs s))" using pending_bound [OF orders] by simp
  ultimately have "sum_list (map fe_atoms (filter (\<lambda>e. ?lim \<le> fe_ts e) (rn_paid s))) \<le> af_perMonth ?p + (int n - 1) * af_perRequest ?p"
    using inv by (simp add: fund_inv_def within_caps_def)
  then show ?thesis using orders es' by (auto simp: orders_ok_def permitted_def openFundHistory_def)
qed

text \<open>Two registrations in turn and one after a restart, with a failed write; the policy of \<open>demo_fund\<close> and one registration at a time.\<close>

definition demo_provider :: RegistrantConfig where
  "demo_provider = \<lparr>rc_description = ''d'', rc_tags = [], rc_test = \<lparr>ts_tool = ''echo'', ts_args = None, ts_max = 10\<rparr>, rc_autoFund = demo_fund,
     rc_router = True, rc_payer = True, rc_dataDir = ''x'', rc_name = ''registrant''\<rparr>"

definition in_turn :: "fund_event list" where
  "in_turn = [JStart ''d1'', JInvited ''d2'' 90, JAsk 0 (demo_answers 120), JAllow 0, JRecord 0, JAsk 1 (demo_answers 100), JAllow 1,
     JPay 0 None, JRestart, JTick hour, JStart ''d2'', JAsk 0 (demo_answers 80), JAllow 0, JRecord 0, JPay 0 (Some ''lost'')]"

lemma overlapping_funding_witness:
  "\<exists>s. fund_run demo_provider in_turn (registrant_at 0 no_history) = Some s \<and>
     map (\<lambda>e. (fe_dir e, fe_atoms e)) (rn_paid s) = [(''d1'', 120), (''d2'', 80)] \<and>
     sum_list (map fe_atoms (filter (\<lambda>e. unix (rn_now s - fund_window) \<le> fe_ts e) (rn_paid s))) \<le> 200"
proof -
  have r: "case fund_run demo_provider in_turn (registrant_at 0 no_history) of None \<Rightarrow> False
    | Some s \<Rightarrow> map (\<lambda>e. (fe_dir e, fe_atoms e)) (rn_paid s) = [(''d1'', 120), (''d2'', 80)]" by code_simp
  then obtain s where s: "fund_run demo_provider in_turn (registrant_at 0 no_history) = Some s"
    "map (\<lambda>e. (fe_dir e, fe_atoms e)) (rn_paid s) = [(''d1'', 120), (''d2'', 80)]" by (auto split: option.splits)
  have o: "overlap_at_most 1 demo_provider in_turn (registrant_at 0 no_history)" by code_simp
  have h: "openFundHistory \<lparr>st_file = Absent, st_script = []\<rparr> = Inr no_history"
    by (simp add: openFundHistory_def open_file_def no_history_def)
  from overlapping_funding [OF _ _ _ _ h _ _ s(1) o] s show ?thesis
    by (simp add: demo_provider_def demo_fund_def max64_def fund_ok_def no_history_def funded_def)
qed

text \<open>
  A cap of 200 atoms a month is overrun when two registrations overlap, as they do at every start of \<^verbatim>\<open>brmcp-serve\<close> with two
  directories in its configuration: both look at the history before either has written to it, and 240 atoms are paid. One after the other,
  the second is declined.
\<close>

definition two_directories :: directoryEntry where
  "two_directories = \<lparr>de_Description = ''d'', de_Tags = [], de_Test = \<lparr>ts_tool = ''echo'', ts_args = None, ts_max = 10\<rparr>,
     de_AutoFund = demo_fund, de_RegisterAtUIDs = [''d1'', ''d2'']\<rparr>"

definition at_once :: "fund_event list" where
  "at_once = [JAsk 0 (demo_answers 120), JAsk 1 (demo_answers 120), JAllow 0, JAllow 1, JRecord 0, JRecord 1, JPay 0 None, JPay 1 None]"

lemma overlapping_registrations_overspend:
  "case serve_start ''x'' two_directories 0 \<lparr>st_file = Absent, st_script = []\<rparr> of Inl _ \<Rightarrow> False
   | Inr (cfg, s) \<Rightarrow> (case fund_run cfg at_once s of None \<Rightarrow> False
     | Some s' \<Rightarrow> af_perMonth (rc_autoFund cfg) = 200 \<and> map fe_atoms (rn_paid s') = [120, 120])"
  "fst (register_all demo_fund [\<lparr>rr_now = 0, rr_dir = ''d1'', rr_answers = demo_answers 120\<rparr>,
     \<lparr>rr_now = 0, rr_dir = ''d2'', rr_answers = demo_answers 120\<rparr>] no_history) = [(''d1'', 120)]"
  by code_simp+

end
