(* ===== verification/Spec2Isabelle.thy ===== *)
theory Spec2Isabelle
  imports Calls Relay Bridge ServeBot DirDaemon PaidTest Dialing Fabric Serving Publishing Maintenance Funding
begin

text \<open>
  A model of brmcp: MCP sessions carried over Bison Relay private messages, with tools that are paid for by
  tips, a bridge that lets local clients use remote bots, and a directory that lists and verifies
  providers. This is the root theory; it imports all others. What follows says which theory models
  which files, how state and operations correspond, what the lemmas show, and what is left out.

  \<^bold>\<open>Shared vocabulary.\<close> \<open>Prelude\<close> has Go's \<^verbatim>\<open>int64\<close> with its wrap-around written out (\<open>add64\<close>, \<open>sub64\<close>,
  \<open>mul64\<close>, \<open>quot64\<close>, \<open>rem64\<close>; an \<open>int\<close> in range), Go maps as association lists in the order a \<^verbatim>\<open>range\<close> may see,
  and instants of time in nanoseconds. \<open>GoLib\<close> has the parts of Go's standard library that the code calls
  on strings and bytes: decimal numbers, base64, \<^verbatim>\<open>TrimSpace\<close>, \<^verbatim>\<open>Split\<close>, case folding. \<open>Persist\<close> is the idiom by which
  every store writes a temporary file and renames it: a file, and a script of what the operating system
  will answer. JSON codecs are parameters, or a file holds a value of the marshalled type.

  \<^bold>\<open>Transport.\<close> \<open>Wire\<close> models the envelope of \<^verbatim>\<open>wire/wire.go\<close> (\<open>encode\<close>, \<open>parse\<close>) and \<open>Assembler\<close> its reassembly
  buffer: a message is cut into parts that come back together in any order, within bounds on bytes and on
  messages per peer. \<open>Router\<close> models \<^verbatim>\<open>transport.go\<close>: sessions, the connections that goroutines share, and
  \<^verbatim>\<open>HandlePM\<close> cut between its lock and its select; its steps are \<open>net_step\<close>, an inductive relation, and the
  limits hold in every reachable state. What is written at one end arrives once and unchanged at the other. \<open>Fabric\<close> models
  \<^verbatim>\<open>brmcptest/brmcptest.go\<close>, the relay in memory over which whole routers are tested. \<open>BotKit\<close> models \<^verbatim>\<open>botkit/botkit.go\<close> and the sender and tip function of \<^verbatim>\<open>brclient/brclient.go\<close>: the adapters that turn a bot or an
  embedded client into what the other packages ask for.

  \<^bold>\<open>Server.\<close> \<open>Payment\<close> models the refusal of \<^verbatim>\<open>payment.go\<close>. \<open>Ledger\<close> models \<^verbatim>\<open>server/ledger.go\<close>; the \<^verbatim>\<open>Billing\<close> interface is the
  locale \<open>billing\<close>, which the ledger interprets on a disk that does not fail, and what a failing disk does is proved
  on the ledger. \<open>Tips\<close> models \<^verbatim>\<open>server/tipjournal.go\<close> and the tip branch of \<^verbatim>\<open>server/bot.go\<close>; \<open>CallJournal\<close> models
  \<^verbatim>\<open>server/journal.go\<close>; \<open>Harness\<close> and \<open>Calls\<close> model \<^verbatim>\<open>server/harness.go\<close>, where a tool call is a value that goes through
  phases (\<open>phase\<close>, \<open>advance\<close>) and calls interleave (\<open>call_step\<close>): one owner per idempotency key, replay of completed
  calls, conservation of money, the rate limit. \<open>Serving\<close> joins the harness to the router as \<^verbatim>\<open>Start\<close> does. \<open>ServeBot\<close> models the loops of \<^verbatim>\<open>server/bot.go\<close> and \<^verbatim>\<open>cmd/brmcp-serve/main.go\<close>
  with its configuration file, its two tools and its registrant.

  \<^bold>\<open>Bridge.\<close> \<open>TipMatcher\<close> and \<open>TipPayer\<close> model \<^verbatim>\<open>bridge/tipmatcher.go\<close> and \<^verbatim>\<open>bridge/tippayer.go\<close>: the locale \<open>outcome_queues\<close> is a first-in
  first-out queue per payee and amount, and the matcher interprets it. \<open>BridgeSettings\<close>, \<open>SpendLog\<close>, \<open>Settle\<close> and \<open>DailyCap\<close>
  model \<^verbatim>\<open>bridge/payment.go\<close> and the settings it reads: a settlement is cut where it unlocks or blocks, and
  settlements interleave. \<open>NetAddr\<close> writes out what \<^verbatim>\<open>bridge/allowlist.go\<close> uses of \<^verbatim>\<open>net/netip\<close>; \<open>Gate\<close> models
  \<^verbatim>\<open>bridge/http.go\<close> and \<^verbatim>\<open>bridge/settings.go\<close>; \<open>Relay\<close> models \<^verbatim>\<open>bridge/session.go\<close>; \<open>Bridge\<close> puts the parts together as
  \<^verbatim>\<open>bridge/bridge.go\<close> and \<^verbatim>\<open>Attach\<close> of \<^verbatim>\<open>brclient/brclient.go\<close> do.

  \<^bold>\<open>Directory.\<close> \<open>DirTypes\<close> models \<^verbatim>\<open>directory/types.go\<close> and \<^verbatim>\<open>directory/store.go\<close>; \<open>SpendJournal\<close> the journal of
  \<^verbatim>\<open>directory/client.go\<close>; \<open>Registry\<close> the registration pipeline of \<^verbatim>\<open>directory/pipeline.go\<close>; \<open>DirAdmin\<close> the sweeps and \<^verbatim>\<open>New\<close>,
  \<^verbatim>\<open>Start\<close> and \<^verbatim>\<open>Close\<close> of \<^verbatim>\<open>directory/service.go\<close> and the tools of \<^verbatim>\<open>directory/admin.go\<close>. A pipeline is a goroutine that is
  cut where it leaves the mutex of the index (\<open>pipe_phase\<close>). \<open>Verified\<close> lets all operations take turns (\<open>dir_step\<close>),
  with crashes and restarts, beside a log of fees and passed tests, and shows what a listing stands for;
  \<open>DirHandlers\<close> shows that whole handlers are sequences of those steps, and \<open>Publishing\<close> that a verification which succeeds
  ends with a listing; \<open>Maintenance\<close> runs the sweeps and compares them with a reference for one provider.
  \<open>DirClient\<close> models \<^verbatim>\<open>paidCall\<close> and \<^verbatim>\<open>runTest\<close> over an arbitrary
  environment; \<open>PaidTest\<close> runs them against the harness, the tip loop and the ledger of a provider.
  \<open>Dialing\<close> models \<^verbatim>\<open>dialPeer\<close> and \<^verbatim>\<open>crawl\<close> over the router,
  \<open>Registrant\<close> models \<^verbatim>\<open>directory/registrant.go\<close> one registration at a time, and \<open>Funding\<close>
  several at once. \<open>DirTools\<close> models the public
  tools of \<^verbatim>\<open>directory/tools.go\<close>; \<open>Wellformed\<close> shows that what the stores hold respects the
  input limits after any steps; \<open>Snapshot\<close> models \<^verbatim>\<open>directory/snapshot.go\<close> and
  \<open>Federation\<close> models \<^verbatim>\<open>directory/federation.go\<close>, where a paid call runs in an environment
  whose world is the directory itself, so that other operations come in between. \<open>DirDaemon\<close> models
  \<^verbatim>\<open>cmd/brmcpdir/main.go\<close>: the policy file, the greeter, and the loops over messages, tips and key
  exchanges with restarts in between.

  \<^bold>\<open>Groups of lemmas.\<close> Each component has its invariant with its preservation by every operation (\<open>asm_inv\<close>,
  \<open>router_ok\<close>, \<open>ledger_ok\<close>, \<open>tsys_ok\<close>, \<open>dir_ok\<close>, \<open>dir_wf\<close>, \<open>fund_inv\<close>, \<open>serving_ok\<close>), the behaviour of every operation on its branches, and its
  properties, numbered C1 on. Behaviour that the code does not mean to have is stated as closed theorems on a small
  schedule: overlapping settlements and registrations, failed writes, refused duplicates, a renewal overtaken by a new registration, a peer that
  returns after it was removed, a tip that is recorded without its credit.

  \<^bold>\<open>Bounds and fuel.\<close> No definition uses fuel. Loops are structural recursion or have a termination proof: \<open>relay_loop\<close> makes
  at most seven calls and \<open>paid_loop\<close> at most nine, which are theorems; \<open>run_alone\<close>,
  a tool call that nobody interrupts, takes at most six steps. Numbers are \<^verbatim>\<open>int64\<close>; where a result needs the absence
  of an overflow, that is a hypothesis (a bound by \<open>max64\<close>).

  \<^bold>\<open>Not modelled.\<close> The MCP SDK, the Bison Relay client and bot, \<^verbatim>\<open>crypto/ed25519\<close>, JSON, the operating system and the payment rail
  are arguments, scripts or environments. Of the daemons, flags, signals, the TLS client of the status server and the reconnect
  timers are left out. What the SDK does with a dialed connection is an argument of \<open>dialPeer\<close> and \<open>crawl\<close>; in the pipeline a crawl
  appears as its result, so that it can end at any time and in any way. A maintenance sweep runs to its end once it has begun.
  One-line adapters (\<^verbatim>\<open>PayerFunc\<close>, \<^verbatim>\<open>SenderFunc\<close>, getters) have no definition of their own. Log lines are left out, and with
  them the panics of \<^verbatim>\<open>uid[:8]\<close> on identifiers shorter than eight characters.
\<close>

end
